(* ===== verification/Prelude.thy ===== *)
theory Prelude
  imports Main "HOL-Library.Word" "HOL-Library.Monad_Syntax" "HOL-Library.Sublist"
begin

text \<open>
  What every component shares: the machine types, the page arithmetic, and the
  list and word lemmas the component proofs use.

  A Go call that may panic or never return has a result of type \<open>'a go\<close>:
  \<open>None\<close> stands for a run-time panic or a loop that does not end,
  \<open>Some x\<close> for a normal return of \<open>x\<close>.
\<close>

unbundle bit_operations_syntax

type_synonym u8 = "8 word"
type_synonym u64 = "64 word"
type_synonym bytes = "u8 list"
type_synonym 'a go = "'a option"

text \<open>A \<open>for _, x := range xs\<close> loop whose body may panic.\<close>

fun go_fold :: "('a \<Rightarrow> 's \<Rightarrow> 's go) \<Rightarrow> 'a list \<Rightarrow> 's \<Rightarrow> 's go" where
  "go_fold f [] s = Some s"
| "go_fold f (x # xs) s = do { s \<leftarrow> f x s; go_fold f xs s }"

lemma go_fold_append:
  "go_fold f (xs @ ys) s = do { s \<leftarrow> go_fold f xs s; go_fold f ys s }"
  by (induction xs arbitrary: s) (auto split: Option.bind_splits)

named_theorems addr_simps \<open>rewriting word addresses into natural numbers\<close>

section \<open>Strictly ascending lists\<close>

lemma sorted_strict: "sorted_wrt (<) xs \<Longrightarrow> sorted (xs :: 'a::linorder list)"
  by (auto simp: strict_sorted_iff)

lemma strict_sorted_le_last:
  "sorted_wrt (<) xs \<Longrightarrow> a \<in> set xs \<Longrightarrow> a \<le> last (xs :: 'a::linorder list)"
proof (induction xs)
  case (Cons x xs)
  show ?case
  proof (cases "xs = []")
    case False
    with Cons have "x \<le> last xs" by (simp add: less_imp_le)
    with False Cons show ?thesis by auto
  qed (use Cons in simp)
qed simp

section \<open>Page arithmetic\<close>

text \<open>The constants of \<^verbatim>\<open>region.go\<close>.\<close>

definition memPageSize :: u64 where
  "memPageSize = 4096"

definition scanBufferSize :: u64 where
  "scanBufferSize = push_bit 4 memPageSize"

definition regionSmallSize :: u64 where
  "regionSmallSize = scanBufferSize"

definition regionLargeSize :: u64 where
  "regionLargeSize = push_bit 9 memPageSize"

lemma scanBufferSize_val: "scanBufferSize = 65536"
  by (simp add: scanBufferSize_def memPageSize_def)

lemma regionSmallSize_val: "regionSmallSize = 65536"
  by (simp add: regionSmallSize_def scanBufferSize_val)

lemma regionLargeSize_val: "regionLargeSize = 2097152"
  by (simp add: regionLargeSize_def memPageSize_def)

text \<open>Clearing the low twelve bits, the code's \<open>& ^uint64(4095)\<close> and \<open>&^ 0xFFF\<close>.\<close>

definition page_floor :: "u64 \<Rightarrow> u64" where
  "page_floor a = a AND NOT 4095"

lemma unat_page_floor: "unat (page_floor a) = unat a - unat a mod 4096"
proof -
  have "page_floor a = a AND NOT (mask 12)"
    by (simp add: page_floor_def mask_eq_exp_minus_1)
  also have "\<dots> = push_bit 12 (drop_bit 12 a)"
    by (simp add: bit_eq_iff bit_simps) (auto intro: le_imp_less_Suc)
  finally have "page_floor a = a - take_bit 12 a"
    by (metis bits_ident add_diff_cancel_right')
  moreover have "take_bit 12 a \<le> a"
    by (simp add: word_le_nat_alt unsigned_take_bit_eq take_bit_nat_eq_self_iff flip: take_bit_eq_mod)
  ultimately show ?thesis
    by (simp add: unat_sub unsigned_take_bit_eq take_bit_eq_mod unat_mod_distrib)
qed

definition page_aligned :: "u64 \<Rightarrow> bool" where
  "page_aligned a \<longleftrightarrow> unat a mod 4096 = 0"

lemma page_floor_le: "unat (page_floor a) \<le> unat a"
  by (simp add: unat_page_floor)

lemma page_floor_gt: "unat a < unat (page_floor a) + 4096"
  using mod_less_divisor [of 4096 "unat a"] unfolding unat_page_floor by linarith

lemma page_floor_aligned [simp]: "page_aligned (page_floor a)"
  by (simp add: page_aligned_def unat_page_floor minus_mod_eq_mult_div)

lemma page_floor_id: "page_aligned a \<Longrightarrow> page_floor a = a"
  by (simp add: page_aligned_def word_unat_eq_iff unat_page_floor)

text \<open>Aligning up: the code's \<open>(x + 0xFFF) &^ 0xFFF\<close>, where the sum does not wrap.\<close>

definition page_ceil :: "u64 \<Rightarrow> u64" where
  "page_ceil a = page_floor (a + 4095)"

lemma page_ceil_aligned [simp]: "page_aligned (page_ceil a)"
  by (simp add: page_ceil_def)

lemma page_ceil_bounds:
  assumes "unat a + 4095 < 2 ^ 64"
  shows "unat a \<le> unat (page_ceil a) \<and> unat (page_ceil a) < unat a + 4096"
proof -
  have s: "unat (a + 4095) = unat a + 4095"
    using assms by (subst unat_add_lem [THEN iffD1]) simp_all
  show ?thesis
    using page_floor_le [of "a + 4095"] page_floor_gt [of "a + 4095"]
    by (simp add: page_ceil_def s)
qed

lemma page_aligned_add:
  assumes "page_aligned a" "page_aligned b" "unat a + unat b < 2 ^ 64"
  shows "page_aligned (a + b)"
proof -
  have "unat (a + b) = unat a + unat b"
    using assms(3) by (subst unat_add_lem [THEN iffD1]) simp_all
  then show ?thesis
    using assms(1,2) by (simp add: page_aligned_def mod_add_eq [symmetric])
qed

text \<open>Between a value and an aligned bound above it lies the value's page ceiling.\<close>

lemma aligned_multiple_le:
  fixes m n :: nat
  assumes "m mod 4096 = 0" "n mod 4096 = 0" "m < n + 4096"
  shows "m \<le> n"
proof -
  obtain k l where "m = 4096 * k" "n = 4096 * l"
    using assms(1,2) by (metis mult_div_mod_eq add.right_neutral)
  moreover from this assms(3) have "4096 * k < 4096 * Suc l" by simp
  then have "k < Suc l" by (simp only: mult_less_cancel1)
  ultimately show ?thesis by simp
qed

lemma page_ceil_least:
  assumes "unat a + 4095 < 2 ^ 64" "page_aligned b" "unat a \<le> unat b"
  shows "unat (page_ceil a) \<le> unat b"
proof (rule aligned_multiple_le)
  show "unat (page_ceil a) mod 4096 = 0"
    using page_ceil_aligned [of a] by (simp add: page_aligned_def)
  show "unat b mod 4096 = 0"
    using assms(2) by (simp add: page_aligned_def)
  show "unat (page_ceil a) < unat b + 4096"
    using page_ceil_bounds [OF assms(1)] assms(3) by linarith
qed

section \<open>Addresses of a byte range\<close>

definition addr_range :: "u64 \<Rightarrow> u64 \<Rightarrow> u64 list" where
  "addr_range s e = map of_nat [unat s..<unat e]"

lemma addr_range_append:
  assumes "s \<le> m" "m \<le> e"
  shows "addr_range s m @ addr_range m e = addr_range s e"
  using assms upt_add_eq_append [of "unat s" "unat m" "unat e - unat m"]
  by (simp add: addr_range_def word_le_nat_alt flip: map_append)

lemma addr_range_empty [simp]: "e \<le> s \<Longrightarrow> addr_range s e = []"
  by (simp add: addr_range_def word_le_nat_alt)

lemma length_addr_range: "length (addr_range s e) = unat e - unat s"
  by (simp add: addr_range_def)

lemma of_nat_less_of_nat:
  assumes "i < j" "j < 2 ^ 64"
  shows "(of_nat i :: u64) < of_nat j"
  using assms by (simp add: word_less_nat_alt unat_of_nat)

lemma set_addr_range: "set (addr_range s e) = {a. s \<le> a \<and> a < e}"
proof (intro set_eqI iffI)
  fix a assume "a \<in> set (addr_range s e)"
  then obtain n where n: "a = of_nat n" "unat s \<le> n" "n < unat e"
    by (auto simp: addr_range_def)
  then have "n < 2 ^ 64"
    using unsigned_less [of e, where 'a = nat] by simp
  with n have "unat a = n"
    by (simp add: unat_of_nat)
  with n show "a \<in> {a. s \<le> a \<and> a < e}"
    by (simp add: word_le_nat_alt word_less_nat_alt)
next
  fix a assume "a \<in> {a. s \<le> a \<and> a < e}"
  then have "unat a \<in> set [unat s..<unat e]"
    by (simp add: word_le_nat_alt word_less_nat_alt)
  then show "a \<in> set (addr_range s e)"
    by (force simp: addr_range_def)
qed

lemma sorted_addr_range: "sorted_wrt (<) (addr_range s e)"
proof -
  have "sorted_wrt (\<lambda>i j. i < j \<and> j < unat e) [unat s..<unat e]"
    by (auto simp: sorted_wrt_iff_nth_less)
  then have "sorted_wrt (\<lambda>i j. (of_nat i :: u64) < of_nat j) [unat s..<unat e]"
    by (rule sorted_wrt_mono_rel [rotated])
      (use unsigned_less [of e, where 'a = nat] in \<open>auto intro: of_nat_less_of_nat\<close>)
  then show ?thesis
    by (simp add: addr_range_def sorted_wrt_map)
qed

end
