(* ===== verification/GoStdlib.thy ===== *)
theory GoStdlib
  imports Prelude
begin

text \<open>
  The parts of the Go standard library the program calls, as far as it uses
  them: byte searching and trimming (\<^verbatim>\<open>bytes\<close>, \<^verbatim>\<open>strings\<close>), integer parsing
  (\<^verbatim>\<open>strconv\<close>), slicing with its bounds check, and \<^verbatim>\<open>slices.BinarySearch\<close>.
  Go strings and text buffers are byte sequences, here HOL's \<open>string\<close>.
\<close>

section \<open>Word conversions\<close>

lemma uint_unat64: "uint (w :: u64) = int (unat w)"
  by simp

lemma uint_le_int: "uint (w :: u64) \<le> int n \<longleftrightarrow> unat w \<le> n"
  by (simp only: uint_unat64 of_nat_le_iff)

lemma uint_less_int: "unat w < n \<Longrightarrow> uint (w :: u64) < int n"
  by (simp only: uint_unat64 of_nat_less_iff)

lemma unat_of_nat64: "n < 2 ^ 64 \<Longrightarrow> unat (of_nat n :: u64) = n"
  by (simp add: unat_of_nat)

lemma sint_unat64: "unat w < 2 ^ 63 \<Longrightarrow> sint (w :: u64) = int (unat w)"
proof -
  assume "unat w < 2 ^ 63"
  then have "uint w < 2 ^ 63"
    using uint_less_int [of w "2 ^ 63"] by simp
  moreover have "- (2 ^ 63) \<le> uint w"
    by (rule order_trans [of _ 0]) simp_all
  ultimately have "signed_take_bit 63 (uint w) = uint w"
    by (rule signed_take_bit_int_eq_self [rotated])
  then show ?thesis by (simp add: sint_uint)
qed

text \<open>Go's \<open>/\<close> and \<open>%\<close> on \<open>int\<close> round towards zero.\<close>

definition go_div :: "int \<Rightarrow> int \<Rightarrow> int" where
  "go_div a b = sgn a * sgn b * (\<bar>a\<bar> div \<bar>b\<bar>)"

definition go_rem :: "int \<Rightarrow> int \<Rightarrow> int" where
  "go_rem a b = a - go_div a b * b"

lemma go_div_nonneg: "0 \<le> a \<Longrightarrow> 0 < b \<Longrightarrow> go_div a b = a div b"
  by (auto simp: go_div_def sgn_if)

lemma go_rem_nonneg: "0 \<le> a \<Longrightarrow> 0 < b \<Longrightarrow> go_rem a b = a mod b"
  by (simp add: go_rem_def go_div_nonneg minus_div_mult_eq_mod)

section \<open>Slices\<close>

text \<open>\<open>xs[lo:hi]\<close> panics unless \<open>0 \<le> lo \<le> hi \<le> len xs\<close>.\<close>

definition slice :: "'a list \<Rightarrow> int \<Rightarrow> int \<Rightarrow> 'a list go" where
  "slice xs lo hi =
     (if 0 \<le> lo \<and> lo \<le> hi \<and> hi \<le> int (length xs)
      then Some (take (nat (hi - lo)) (drop (nat lo) xs)) else None)"

lemma slice_eq_None: "slice xs lo hi = None \<longleftrightarrow> lo < 0 \<or> hi < lo \<or> int (length xs) < hi"
  by (auto simp: slice_def)

lemma slice_Some [simp]:
  "0 \<le> lo \<Longrightarrow> lo \<le> hi \<Longrightarrow> hi \<le> int (length xs) \<Longrightarrow>
   slice xs lo hi = Some (take (nat (hi - lo)) (drop (nat lo) xs))"
  by (simp add: slice_def)

text \<open>Indexing panics outside \<open>0 \<le> i < len xs\<close>.\<close>

definition index :: "'a list \<Rightarrow> int \<Rightarrow> 'a go" where
  "index xs i = (if 0 \<le> i \<and> i < int (length xs) then Some (xs ! nat i) else None)"

text \<open>\<open>copy(xs[i:], src)\<close>, without its bounds check.\<close>

definition copy_at :: "'a list \<Rightarrow> nat \<Rightarrow> 'a list \<Rightarrow> 'a list" where
  "copy_at xs i src = take i xs @ take (length xs - i) src @ drop (i + length src) xs"

lemma length_copy_at: "length (copy_at xs i src) = length xs" if "i \<le> length xs"
  using that by (simp add: copy_at_def)

lemma take_copy_at:
  "i + length src \<le> length xs \<Longrightarrow> take (i + length src) (copy_at xs i src) = take i xs @ src"
  by (simp add: copy_at_def)

section \<open>Searching and trimming bytes\<close>

text \<open>\<^verbatim>\<open>bytes.IndexByte\<close>: the first position of a byte, or \<open>-1\<close>.\<close>

fun IndexByte :: "string \<Rightarrow> char \<Rightarrow> int" where
  "IndexByte [] c = -1"
| "IndexByte (x # xs) c =
     (if x = c then 0 else (let r = IndexByte xs c in if r < 0 then -1 else r + 1))"

lemma IndexByte_ge: "-1 \<le> IndexByte xs c"
  by (induction xs) (auto simp: Let_def)

lemma IndexByte_neg: "IndexByte xs c < 0 \<longleftrightarrow> c \<notin> set xs"
  by (induction xs) (auto simp: Let_def)

lemma IndexByte_append:
  "c \<notin> set xs \<Longrightarrow> IndexByte (xs @ c # ys) c = int (length xs)"
  by (induction xs) (auto simp: Let_def)

lemma IndexByte_less: "IndexByte xs c < int (length xs) \<or> xs = []"
  by (induction xs) (auto simp: Let_def)

lemma IndexByte_nth:
  "0 \<le> IndexByte xs c \<Longrightarrow> nat (IndexByte xs c) < length xs \<and> xs ! nat (IndexByte xs c) = c"
proof (induction xs)
  case (Cons x xs)
  then show ?case
    by (auto simp: Let_def nat_add_distrib split: if_splits)
qed simp

text \<open>\<^verbatim>\<open>bytes.TrimLeft(line, " \t")\<close>.\<close>

definition is_blank :: "char \<Rightarrow> bool" where
  "is_blank c \<longleftrightarrow> c = CHR 0x20 \<or> c = CHR 0x09"

definition TrimLeft_blank :: "string \<Rightarrow> string" where
  "TrimLeft_blank = dropWhile is_blank"

lemma TrimLeft_blank_append:
  "list_all is_blank xs \<Longrightarrow> TrimLeft_blank (xs @ ys) = TrimLeft_blank ys"
  by (induction xs) (auto simp: TrimLeft_blank_def)

lemma TrimLeft_blank_id:
  "xs = [] \<or> \<not> is_blank (hd xs) \<Longrightarrow> TrimLeft_blank xs = xs"
  by (cases xs) (auto simp: TrimLeft_blank_def)

section \<open>Parsing integers\<close>

datatype num_error = ErrSyntax | ErrRange

definition digit_value :: "char \<Rightarrow> nat option" where
  "digit_value c =
     (let k = of_char c :: nat in
      if 48 \<le> k \<and> k \<le> 57 then Some (k - 48)
      else if 97 \<le> k \<and> k \<le> 122 then Some (k - 87)
      else if 65 \<le> k \<and> k \<le> 90 then Some (k - 55)
      else None)"

text \<open>
  \<^verbatim>\<open>strconv.ParseUint(s, base, bitSize)\<close> for an explicit base: the value with the
  error. On a bad byte it returns 0, past the width it returns the width's
  maximum, without looking at the bytes behind.
\<close>

fun ParseUint_loop :: "nat \<Rightarrow> nat \<Rightarrow> string \<Rightarrow> nat \<Rightarrow> nat \<times> num_error option" where
  "ParseUint_loop base maxVal [] n = (n, None)"
| "ParseUint_loop base maxVal (c # cs) n =
     (case digit_value c of
        None \<Rightarrow> (0, Some ErrSyntax)
      | Some d \<Rightarrow>
          if base \<le> d then (0, Some ErrSyntax)
          else if maxVal < n * base + d then (maxVal, Some ErrRange)
          else ParseUint_loop base maxVal cs (n * base + d))"

definition ParseUint :: "string \<Rightarrow> nat \<Rightarrow> nat \<Rightarrow> nat \<times> num_error option" where
  "ParseUint s base bitSize =
     (if s = [] then (0, Some ErrSyntax)
      else ParseUint_loop base (2 ^ bitSize - 1) s 0)"

text \<open>\<^verbatim>\<open>strconv.ParseInt(s, base, bitSize)\<close>: an optional sign, then \<open>ParseUint\<close>.\<close>

definition ParseInt :: "string \<Rightarrow> nat \<Rightarrow> nat \<Rightarrow> int \<times> num_error option" where
  "ParseInt s base bitSize =
     (if s = [] then (0, Some ErrSyntax)
      else
        let neg = (hd s = CHR ''-'');
            body = (if hd s = CHR ''+'' \<or> neg then tl s else s);
            (un, err) = ParseUint body base bitSize;
            cutoff = 2 ^ (bitSize - 1) in
        if err = Some ErrSyntax then (0, err)
        else if \<not> neg \<and> cutoff \<le> un then (int cutoff - 1, Some ErrRange)
        else if neg \<and> cutoff < un then (- int cutoff, Some ErrRange)
        else ((if neg then - int un else int un), None))"

text \<open>The digits of a number, as the kernel and \<^verbatim>\<open>fmt\<close> print them (least width).\<close>

definition digit_char :: "nat \<Rightarrow> char" where
  "digit_char d = char_of (if d < 10 then 48 + d else 87 + d)"

fun digits :: "nat \<Rightarrow> nat \<Rightarrow> string" where
  "digits base n =
     (if base < 2 \<or> n < base then [digit_char n]
      else digits base (n div base) @ [digit_char (n mod base)])"

declare digits.simps [simp del]

lemma digit_value_char: "d < 36 \<Longrightarrow> digit_value (digit_char d) = Some d"
  by (simp add: digit_value_def digit_char_def of_char_of)

lemma digits_nonempty: "digits base n \<noteq> []"
  by (subst digits.simps) simp

lemma ParseUint_loop_snoc:
  "ParseUint_loop base m (cs @ [c]) n =
     (case ParseUint_loop base m cs n of
        (v, None) \<Rightarrow> ParseUint_loop base m [c] v
      | (v, Some e) \<Rightarrow> (v, Some e))"
  by (induction cs arbitrary: n) (auto split: option.splits)

lemma ParseUint_loop_digits:
  "2 \<le> base \<Longrightarrow> base \<le> 36 \<Longrightarrow> k \<le> m \<Longrightarrow> ParseUint_loop base m (digits base k) 0 = (k, None)"
proof (induction base k rule: digits.induct)
  case (1 base k)
  show ?case
  proof (cases "k < base")
    case True
    with "1.prems" show ?thesis
      by (simp add: digits.simps [of base k] digit_value_char)
  next
    case False
    with "1.prems" have "k div base \<le> m"
      by (meson div_le_dividend le_trans)
    with False "1.prems" "1.IH"
    have "ParseUint_loop base m (digits base (k div base)) 0 = (k div base, None)"
      by simp
    moreover have "k mod base < base"
      using "1.prems" by (intro mod_less_divisor) simp
    moreover from this "1.prems" have "k mod base < 36" "\<not> base \<le> k mod base"
      by linarith+
    ultimately show ?thesis
      using False "1.prems"
      by (simp add: digits.simps [of base k] ParseUint_loop_snoc digit_value_char)
  qed
qed

lemma ParseUint_loop_overflow:
  "2 \<le> base \<Longrightarrow> base \<le> 36 \<Longrightarrow> m < k \<Longrightarrow> ParseUint_loop base m (digits base k) 0 = (m, Some ErrRange)"
proof (induction base k rule: digits.induct)
  case (1 base k)
  show ?case
  proof (cases "k < base")
    case True
    with "1.prems" show ?thesis by (simp add: digits.simps [of base k] digit_value_char)
  next
    case False
    have "k mod base < base" using "1.prems" by (intro mod_less_divisor) simp
    moreover from this "1.prems" have "k mod base < 36" by linarith
    ultimately have d: "digit_value (digit_char (k mod base)) = Some (k mod base)" "\<not> base \<le> k mod base"
      by (simp_all add: digit_value_char)
    show ?thesis
    proof (cases "k div base \<le> m")
      case True
      with ParseUint_loop_digits [of base "k div base" m] "1.prems" False d show ?thesis
        by (simp add: digits.simps [of base k] ParseUint_loop_snoc)
    next
      case over: False
      with "1.IH" "1.prems" False have "ParseUint_loop base m (digits base (k div base)) 0 = (m, Some ErrRange)" by simp
      with "1.prems" False show ?thesis
        by (simp add: digits.simps [of base k] ParseUint_loop_snoc)
    qed
  qed
qed

lemma ParseUint_loop_zeros:
  "0 < base \<Longrightarrow> ParseUint_loop base m (replicate j (CHR ''0'') @ cs) 0 = ParseUint_loop base m cs 0"
  by (induction j) (simp_all add: digit_value_def)

text \<open>A printed number, zero-padded on the left, parses back.\<close>

lemma ParseUint_digits:
  assumes "2 \<le> base" "base \<le> 36" "k < 2 ^ bitSize"
  shows "ParseUint (replicate j (CHR ''0'') @ digits base k) base bitSize = (k, None)"
  using assms
  by (simp add: ParseUint_def digits_nonempty ParseUint_loop_zeros ParseUint_loop_digits)

lemma ParseUint_loop_bound:
  "n \<le> m \<Longrightarrow> fst (ParseUint_loop base m s n) \<le> m"
  by (induction base m s n rule: ParseUint_loop.induct) (auto split: option.splits)

lemma ParseUint_bound: "fst (ParseUint s base bitSize) < 2 ^ bitSize"
  using ParseUint_loop_bound [of 0 "2 ^ bitSize - 1" base s]
  by (auto simp: ParseUint_def Suc_le_eq less_diff_conv intro: le_neq_implies_less
      simp flip: less_Suc_eq_le)

text \<open>The characters of a printed number.\<close>

lemma digit_char_no_blank: "d < 36 \<Longrightarrow> digit_char d \<noteq> CHR 0x20 \<and> digit_char d \<noteq> CHR ''-'' \<and> digit_char d \<noteq> CHR 0x09"
proof -
  assume "d < 36"
  then have "digit_value (digit_char d) \<noteq> None"
    by (simp add: digit_value_char)
  moreover have "digit_value (CHR 0x20) = None" "digit_value (CHR ''-'') = None"
    "digit_value (CHR 0x09) = None"
    by (simp_all add: digit_value_def)
  ultimately show ?thesis by metis
qed

lemma set_digits:
  "2 \<le> base \<Longrightarrow> base \<le> 36 \<Longrightarrow> c \<in> set (digits base n) \<Longrightarrow> c \<noteq> CHR 0x20 \<and> c \<noteq> CHR ''-'' \<and> c \<noteq> CHR 0x09"
proof (induction base n rule: digits.induct)
  case (1 base n)
  have "n mod base < 36"
    using "1.prems" mod_less_divisor [of base n] by linarith
  with "1" show ?case
    by (auto simp: digits.simps [of base n] digit_char_no_blank split: if_splits)
qed

section \<open>Binary search\<close>

text \<open>
  \<^verbatim>\<open>slices.BinarySearch\<close>: the loop \<open>for i < j\<close> with \<open>h = (i + j) >> 1\<close>, then the
  comparison of the element found.
\<close>

function bsearch_loop :: "('a::linorder) list \<Rightarrow> 'a \<Rightarrow> nat \<Rightarrow> nat \<Rightarrow> nat" where
  "bsearch_loop xs target i j =
     (if i < j then
        let h = (i + j) div 2 in
        if xs ! h < target then bsearch_loop xs target (h + 1) j
        else bsearch_loop xs target i h
      else i)"
  by pat_completeness auto
termination
  by (relation "measure (\<lambda>(xs, target, i, j). j - i)") auto

declare bsearch_loop.simps [simp del]

definition BinarySearch :: "('a::linorder) list \<Rightarrow> 'a \<Rightarrow> nat \<times> bool" where
  "BinarySearch xs target =
     (let i = bsearch_loop xs target 0 (length xs) in
      (i, i < length xs \<and> xs ! i = target))"

text \<open>What the loop maintains: everything before \<open>i\<close> is smaller, nothing from \<open>j\<close> on is.\<close>

definition splits_at :: "('a::linorder) list \<Rightarrow> 'a \<Rightarrow> nat \<Rightarrow> nat \<Rightarrow> bool" where
  "splits_at xs target i j \<longleftrightarrow> j \<le> length xs \<and> (\<forall>k < i. xs ! k < target) \<and>
     (\<forall>k. j \<le> k \<longrightarrow> k < length xs \<longrightarrow> target \<le> xs ! k)"

lemma splits_at_raise:
  assumes "sorted xs" "splits_at xs target i j" "h < j" "xs ! h < target"
  shows "splits_at xs target (h + 1) j"
proof -
  have "xs ! k < target" if "k < h + 1" for k
    using that assms sorted_nth_mono [of xs k h] by (fastforce simp: splits_at_def)
  with assms show ?thesis by (simp add: splits_at_def)
qed

lemma splits_at_lower:
  assumes "sorted xs" "splits_at xs target i j" "h < j" "\<not> xs ! h < target"
  shows "splits_at xs target i h"
proof -
  have "target \<le> xs ! k" if "h \<le> k" "k < length xs" for k
    using that assms sorted_nth_mono [of xs h k] by (fastforce simp: splits_at_def)
  with assms show ?thesis by (simp add: splits_at_def)
qed

lemma bsearch_loop_correct:
  assumes "sorted xs" "splits_at xs target i j" "i \<le> j"
  shows "splits_at xs target (bsearch_loop xs target i j) (bsearch_loop xs target i j)"
  using assms
proof (induction xs target i j rule: bsearch_loop.induct)
  case (1 xs target i j)
  define h where "h = (i + j) div 2"
  note eq = bsearch_loop.simps [of xs target i j, folded h_def, unfolded Let_def]
  show ?case
  proof (cases "i < j")
    case False
    then have "bsearch_loop xs target i j = i" by (simp add: eq)
    with False "1.prems" show ?thesis by simp
  next
    case True
    then have h: "i \<le> h" "h < j" by (auto simp: h_def)
    show ?thesis
    proof (cases "xs ! h < target")
      case less: True
      with True h "1.prems" have "splits_at xs target (h + 1) j"
        by (blast intro: splits_at_raise)
      with "1.IH"(1) [OF True h_def less] "1.prems"(1) h less True show ?thesis
        by (simp add: eq)
    next
      case ge: False
      with True h "1.prems" have "splits_at xs target i h"
        by (blast intro: splits_at_lower)
      with "1.IH"(2) [OF True h_def ge] "1.prems"(1) h ge True show ?thesis
        by (simp add: eq)
    qed
  qed
qed

lemma BinarySearch_splits:
  assumes "sorted xs" "BinarySearch xs target = (i, found)"
  shows "splits_at xs target i i" "found \<longleftrightarrow> i < length xs \<and> xs ! i = target"
proof -
  have "splits_at xs target 0 (length xs)" by (simp add: splits_at_def)
  with assms show "splits_at xs target i i"
    using bsearch_loop_correct [of xs target 0 "length xs"]
    by (auto simp: BinarySearch_def Let_def)
  show "found \<longleftrightarrow> i < length xs \<and> xs ! i = target"
    using assms(2) by (auto simp: BinarySearch_def Let_def)
qed

section \<open>Searching a sorted slice, as its callers see it\<close>

text \<open>
  The contract of \<^verbatim>\<open>slices.BinarySearch\<close> that \<open>VirtualRegion.Match\<close> and
  \<open>Memscan.SearchInResults\<close> rely on, and what they draw from it.
\<close>

locale sorted_search =
  fixes search :: "u64 list \<Rightarrow> u64 \<Rightarrow> nat \<times> bool"
  assumes search_splits: "sorted xs \<Longrightarrow> search xs t = (i, found) \<Longrightarrow> splits_at xs t i i"
    and search_found: "sorted xs \<Longrightarrow> search xs t = (i, found) \<Longrightarrow> found \<longleftrightarrow> i < length xs \<and> xs ! i = t"
begin

lemma search_le: "sorted xs \<Longrightarrow> search xs t = (i, found) \<Longrightarrow> i \<le> length xs"
  by (drule (1) search_splits) (simp add: splits_at_def)

lemma search_drop:
  assumes "sorted xs" "search xs t = (i, found)"
  shows "drop i xs = dropWhile (\<lambda>a. a < t) xs"
proof -
  from search_splits [OF assms] have s: "i \<le> length xs" "\<And>k. k < i \<Longrightarrow> xs ! k < t"
    "\<And>k. i \<le> k \<Longrightarrow> k < length xs \<Longrightarrow> t \<le> xs ! k"
    by (auto simp: splits_at_def)
  have "dropWhile (\<lambda>a. a < t) (take i xs @ drop i xs) = dropWhile (\<lambda>a. a < t) (drop i xs)"
    using s(1,2) by (intro dropWhile_append2) (auto simp: in_set_conv_nth)
  moreover have "dropWhile (\<lambda>a. a < t) (drop i xs) = drop i xs"
    using s(3) [of i] by (cases "i < length xs") (auto simp: dropWhile_eq_self_iff hd_drop_conv_nth not_less)
  ultimately show ?thesis by simp
qed

lemma search_member:
  assumes "sorted xs" "search xs t = (i, found)"
  shows "found \<longleftrightarrow> t \<in> set xs"
proof
  assume found
  with search_found [OF assms] show "t \<in> set xs" by (metis nth_mem)
next
  assume "t \<in> set xs"
  then obtain k where k: "k < length xs" "xs ! k = t"
    by (auto simp: in_set_conv_nth)
  from search_splits [OF assms] have s: "\<And>k. k < i \<Longrightarrow> xs ! k < t"
    "\<And>k. i \<le> k \<Longrightarrow> k < length xs \<Longrightarrow> t \<le> xs ! k"
    by (auto simp: splits_at_def)
  from s(1) [of k] k have "i \<le> k" by (metis less_irrefl not_less)
  with k assms(1) have "i < length xs" "xs ! i \<le> t"
    by (auto intro: sorted_nth_mono)
  with s(2) [of i] search_found [OF assms] show found by (metis antisym order_refl)
qed

end

interpretation bs: sorted_search BinarySearch
  by unfold_locales (auto dest: BinarySearch_splits)

end
