(* ===== verification/Permissions.thy ===== *)
theory Permissions
  imports GoStdlib
begin

text \<open>
  Memory-region permissions (\<^verbatim>\<open>permissions.go\<close>): the bit set, its parser over the
  four letters of a \<^verbatim>\<open>/proc/pid/maps\<close> line, and its printer.
\<close>

type_synonym Permissions = u8

abbreviation PermRead :: Permissions where "PermRead \<equiv> 1"
abbreviation PermWrite :: Permissions where "PermWrite \<equiv> 2"
abbreviation PermExec :: Permissions where "PermExec \<equiv> 4"
abbreviation PermPrivate :: Permissions where "PermPrivate \<equiv> 8"
abbreviation PermShared :: Permissions where "PermShared \<equiv> 16"

definition perm_Read :: "Permissions \<Rightarrow> bool" where
  "perm_Read p \<longleftrightarrow> p AND PermRead \<noteq> 0"

definition perm_Write :: "Permissions \<Rightarrow> bool" where
  "perm_Write p \<longleftrightarrow> p AND PermWrite \<noteq> 0"

definition perm_Exec :: "Permissions \<Rightarrow> bool" where
  "perm_Exec p \<longleftrightarrow> p AND PermExec \<noteq> 0"

definition perm_Private :: "Permissions \<Rightarrow> bool" where
  "perm_Private p \<longleftrightarrow> p AND PermPrivate \<noteq> 0"

definition perm_Shared :: "Permissions \<Rightarrow> bool" where
  "perm_Shared p \<longleftrightarrow> p AND PermShared \<noteq> 0"

definition Permissions_String :: "Permissions \<Rightarrow> string" where
  "Permissions_String p =
     (let res = ''----'';
          res = (if perm_Read p then res[0 := CHR ''r''] else res);
          res = (if perm_Write p then res[1 := CHR ''w''] else res);
          res = (if perm_Exec p then res[2 := CHR ''x''] else res);
          res = (if perm_Private p then res[3 := CHR ''p'']
                 else if perm_Shared p then res[3 := CHR ''s''] else res)
      in res)"

definition ParsePermissions :: "string \<Rightarrow> Permissions" where
  "ParsePermissions s =
     (if length s < 4 then 0
      else
        let p = 0;
            p = (if s ! 0 = CHR ''r'' then p OR PermRead else p);
            p = (if s ! 1 = CHR ''w'' then p OR PermWrite else p);
            p = (if s ! 2 = CHR ''x'' then p OR PermExec else p);
            p = (if s ! 3 = CHR ''p'' then p OR PermPrivate
                 else if s ! 3 = CHR ''s'' then p OR PermShared else p)
        in p)"

lemmas perm_defs = perm_Read_def perm_Write_def perm_Exec_def perm_Private_def perm_Shared_def

lemma and_exp_neq_zero: "a AND 2 ^ n \<noteq> 0 \<longleftrightarrow> bit a n" for a :: "'a::len word"
  by (simp add: and_exp_eq_0_iff_not_bit)

lemma perm_bits:
  "perm_Read p = bit p 0" "perm_Write p = bit p 1" "perm_Exec p = bit p 2"
  "perm_Private p = bit p 3" "perm_Shared p = bit p 4"
  using and_exp_neq_zero [of p 0] and_exp_neq_zero [of p 1] and_exp_neq_zero [of p 2]
    and_exp_neq_zero [of p 3] and_exp_neq_zero [of p 4]
  by (simp_all add: perm_defs)

text \<open>The four letters the kernel prints.\<close>

definition maps_perms :: "string \<Rightarrow> bool" where
  "maps_perms s \<longleftrightarrow> length s = 4 \<and> s ! 0 \<in> {CHR ''r'', CHR ''-''} \<and>
     s ! 1 \<in> {CHR ''w'', CHR ''-''} \<and> s ! 2 \<in> {CHR ''x'', CHR ''-''} \<and>
     s ! 3 \<in> {CHR ''p'', CHR ''s'', CHR ''-''}"

text \<open>Each accessor of a parsed permission reads back one letter.\<close>

lemma perm_ParsePermissions:
  assumes "4 \<le> length s"
  shows "perm_Read (ParsePermissions s) \<longleftrightarrow> s ! 0 = CHR ''r''"
    and "perm_Write (ParsePermissions s) \<longleftrightarrow> s ! 1 = CHR ''w''"
    and "perm_Exec (ParsePermissions s) \<longleftrightarrow> s ! 2 = CHR ''x''"
    and "perm_Private (ParsePermissions s) \<longleftrightarrow> s ! 3 = CHR ''p''"
    and "perm_Shared (ParsePermissions s) \<longleftrightarrow> s ! 3 = CHR ''s''"
  using assms by (auto simp: ParsePermissions_def perm_defs Let_def)

lemma list4: "length s = 4 \<Longrightarrow> s = [s ! 0, s ! 1, s ! 2, s ! 3]"
  by (rule nth_equalityI) (auto simp: less_Suc_eq numeral_eq_Suc)

text \<open>
  Printing the parsed letters of a \<^verbatim>\<open>/proc/pid/maps\<close> line gives the letters back.
\<close>

lemma Permissions_String_Parse:
  assumes "maps_perms s"
  shows "Permissions_String (ParsePermissions s) = s"
proof -
  obtain a b c d where s: "s = [a, b, c, d]"
    using assms list4 [of s] by (auto simp: maps_perms_def)
  have "a \<in> {CHR ''r'', CHR ''-''}" "b \<in> {CHR ''w'', CHR ''-''}"
    "c \<in> {CHR ''x'', CHR ''-''}" "d \<in> {CHR ''p'', CHR ''s'', CHR ''-''}"
    using assms by (simp_all add: maps_perms_def s)
  then show ?thesis
    by (simp add: s Permissions_String_def perm_ParsePermissions Let_def) auto
qed

text \<open>
  Parsing a printed permission set gives the set back, for every set of the five
  declared bits in which a region is not both private and shared.
\<close>

lemma Parse_Permissions_String:
  assumes "p < 32" "\<not> (perm_Private p \<and> perm_Shared p)"
  shows "ParsePermissions (Permissions_String p) = p"
proof -
  have "unat p \<in> {..<32}"
    using assms(1) by (simp add: word_less_nat_alt)
  then have "p \<in> of_nat ` {..<32}"
    by (rule image_eqI [rotated]) simp
  also have "{..<32} = set [0..<32]" by auto
  finally have "p \<in> set (map of_nat [0..<32])" by simp
  then show ?thesis
    using assms(2)
    by (simp add: upt_rec [of _ 32] del: upt_Suc)
      (elim disjE; simp add: Permissions_String_def ParsePermissions_def perm_defs Let_def)
qed

end
