(* ===== verification/Region.thy ===== *)
theory Region
  imports Permissions
begin

text \<open>
  A memory region and the parser of one \<^verbatim>\<open>/proc/pid/maps\<close> line (\<^verbatim>\<open>region.go\<close>).
\<close>

type_synonym RegionType = u8

abbreviation REGION_TYPE_MISC :: RegionType where "REGION_TYPE_MISC \<equiv> 0"
abbreviation REGION_TYPE_CODE :: RegionType where "REGION_TYPE_CODE \<equiv> 1"
abbreviation REGION_TYPE_EXE :: RegionType where "REGION_TYPE_EXE \<equiv> 2"
abbreviation REGION_TYPE_HEAP :: RegionType where "REGION_TYPE_HEAP \<equiv> 3"
abbreviation REGION_TYPE_STACK :: RegionType where "REGION_TYPE_STACK \<equiv> 4"

definition RegionType_String :: "RegionType \<Rightarrow> string" where
  "RegionType_String r =
     (if r = REGION_TYPE_MISC then ''MISC''
      else if r = REGION_TYPE_CODE then ''CODE''
      else if r = REGION_TYPE_EXE then ''EXE''
      else if r = REGION_TYPE_HEAP then ''HEAP''
      else if r = REGION_TYPE_STACK then ''STACK''
      else ''UNKNOWN'')"

record Region =
  Start :: u64
  End :: u64
  Size :: u64
  Type :: RegionType
  Perm :: Permissions
  Filename :: string
  BaseAddr :: u64

section \<open>Parsing a line\<close>

text \<open>
  The loop over the three fields behind the permissions (offset, device, inode):
  \<open>None\<close> is the early return when a field has no blank after it.
\<close>

fun skip_fields :: "nat \<Rightarrow> string \<Rightarrow> string option" where
  "skip_fields 0 line = Some line"
| "skip_fields (Suc k) line =
     (let line = TrimLeft_blank line;
          nextSpace = IndexByte line (CHR 0x20) in
      if nextSpace = -1 then None
      else skip_fields k (drop (nat nextSpace) line))"

text \<open>
  \<open>None\<close> is a panic of a slice expression, \<open>Some None\<close> the \<open>nil\<close> result.
\<close>

definition ParseRegion :: "string \<Rightarrow> Region option go" where
  "ParseRegion line =
     (let i = IndexByte line (CHR 0x20) in
      if i \<le> 0 \<or> int (length line) < i + 5 then Some None
      else
        let dashIdx = IndexByte line (CHR ''-'') in
        if dashIdx \<le> 0 then Some None
        else do {
          perms \<leftarrow> slice line (i + 1) (i + 5);
          startText \<leftarrow> slice line 0 dashIdx;
          endText \<leftarrow> slice line (dashIdx + 1) i;
          rest \<leftarrow> slice line (i + 5) (int (length line));
          let start = of_nat (fst (ParseUint startText 16 64));
          let end' = of_nat (fst (ParseUint endText 16 64));
          let region = \<lparr>Start = start, End = end', Size = end' - start, Type = 0,
                        Perm = ParsePermissions perms, Filename = [], BaseAddr = 0\<rparr>;
          Some (Some (case skip_fields 3 rest of
                        None \<Rightarrow> region
                      | Some line' \<Rightarrow> region\<lparr>Filename := TrimLeft_blank line'\<rparr>))
        })"

text \<open>A line in the format of \<^verbatim>\<open>proc(5)\<close>: \<open>width\<close> zero-pads the addresses.\<close>

definition maps_line :: "nat \<Rightarrow> nat \<Rightarrow> nat \<Rightarrow> nat \<Rightarrow> string \<Rightarrow> string \<Rightarrow> string \<Rightarrow> string \<Rightarrow> string \<Rightarrow> string" where
  "maps_line z1 s z2 e perms off dev inode tail' =
     replicate z1 (CHR ''0'') @ digits 16 s @ ''-'' @ replicate z2 (CHR ''0'') @ digits 16 e @
     CHR 0x20 # perms @ CHR 0x20 # off @ CHR 0x20 # dev @ CHR 0x20 # inode @ tail'"

definition maps_field :: "string \<Rightarrow> bool" where
  "maps_field f \<longleftrightarrow> f \<noteq> [] \<and> list_all (\<lambda>c. \<not> is_blank c) f"

lemma skip_fields_field:
  assumes "maps_field f"
  shows "skip_fields (Suc k) (CHR 0x20 # f @ CHR 0x20 # rest) = skip_fields k (CHR 0x20 # rest)"
proof -
  have "TrimLeft_blank (CHR 0x20 # f @ CHR 0x20 # rest) = f @ CHR 0x20 # rest"
    using assms(1) by (cases f) (auto simp: TrimLeft_blank_def maps_field_def is_blank_def)
  moreover have "CHR 0x20 \<notin> set f"
    using assms(1) by (auto simp: maps_field_def is_blank_def list_all_iff)
  ultimately show ?thesis
    by (simp add: IndexByte_append)
qed

lemma skip_fields_three:
  assumes "maps_field off" "maps_field dev" "maps_field inode" "pad \<noteq> []" "hd pad = CHR 0x20"
  shows "skip_fields 3 (CHR 0x20 # off @ CHR 0x20 # dev @ CHR 0x20 # inode @ pad) = Some pad"
proof -
  obtain p where "pad = CHR 0x20 # p"
    using assms(4,5) by (cases pad) auto
  then show ?thesis
    using assms(1-3)
    by (simp add: numeral_3_eq_3 skip_fields_field del: skip_fields.simps(2))
qed

text \<open>Where the first blank and the first dash of a line are.\<close>

lemma digits16_clean:
  assumes "c \<in> set (replicate z (CHR ''0'') @ digits 16 n)"
  shows "c \<noteq> CHR 0x20 \<and> c \<noteq> CHR ''-''"
  using assms set_digits [of 16 c n] by auto

text \<open>
  C36: a line in the kernel's format parses, without a panic, to exactly the region it
  describes: both addresses at full 64-bit width, their difference as the size, the four
  permission letters, and the path with its inner blanks kept.
\<close>

theorem ParseRegion_maps_line:
  assumes "s < 2 ^ 64" "e < 2 ^ 64" "length perms = 4"
    and "maps_field off" "maps_field dev" "maps_field inode"
    and "list_all is_blank pad" "pad \<noteq> []" "hd pad = CHR 0x20"
    and "path = [] \<or> \<not> is_blank (hd path)"
  shows "ParseRegion (maps_line z1 s z2 e perms off dev inode (pad @ path)) =
    Some (Some \<lparr>Start = of_nat s, End = of_nat e, Size = of_nat e - of_nat s, Type = 0,
                Perm = ParsePermissions perms, Filename = path, BaseAddr = 0\<rparr>)"
proof -
  define st where "st = replicate z1 (CHR ''0'') @ digits 16 s"
  define en where "en = replicate z2 (CHR ''0'') @ digits 16 e"
  define rest where "rest = CHR 0x20 # off @ CHR 0x20 # dev @ CHR 0x20 # inode @ pad @ path"
  define line where "line = maps_line z1 s z2 e perms off dev inode (pad @ path)"
  have line: "line = st @ CHR ''-'' # en @ CHR 0x20 # perms @ rest"
    by (simp add: line_def maps_line_def st_def en_def rest_def)
  have ne: "st \<noteq> []" by (simp add: st_def digits_nonempty)
  have dash: "IndexByte line (CHR ''-'') = int (length st)"
    unfolding line by (rule IndexByte_append) (use digits16_clean [of _ z1 s] in \<open>auto simp: st_def\<close>)
  have "IndexByte ((st @ CHR ''-'' # en) @ CHR 0x20 # perms @ rest) (CHR 0x20) =
      int (length (st @ CHR ''-'' # en))"
    by (rule IndexByte_append)
      (use digits16_clean [of _ z1 s] digits16_clean [of _ z2 e] in \<open>auto simp: st_def en_def\<close>)
  then have blank: "IndexByte line (CHR 0x20) = int (length st) + 1 + int (length en)"
    by (simp add: line)
  define i d where "i = IndexByte line (CHR 0x20)" and "d = IndexByte line (CHR ''-'')"
  note i = blank [folded i_def] and d = dash [folded d_def]
  have p1: "slice line (i + 1) (i + 5) = Some perms"
    using assms(3) by (simp add: i line slice_def nat_add_distrib)
  have p2: "slice line 0 d = Some st"
    by (simp add: d line slice_def)
  have p3: "slice line (d + 1) i = Some en"
    by (simp add: i d line slice_def nat_add_distrib)
  have p4: "slice line (i + 5) (int (length line)) = Some rest"
    using assms(3) by (simp add: i line slice_def nat_add_distrib numeral_eq_Suc)
  have v: "ParseUint st 16 64 = (s, None)" "ParseUint en 16 64 = (e, None)"
    using assms(1,2) by (simp_all add: st_def en_def ParseUint_digits)
  have f: "skip_fields 3 rest = Some (pad @ path)"
    unfolding rest_def using assms by (intro skip_fields_three) auto
  have t: "TrimLeft_blank (pad @ path) = path"
    using assms by (simp add: TrimLeft_blank_append TrimLeft_blank_id)
  have n: "\<not> i \<le> 0" "\<not> int (length line) < i + 5" "\<not> d \<le> 0"
    using assms(3) ne by (simp_all add: i d line)
  show ?thesis
    by (simp add: ParseRegion_def Let_def n p1 p2 p3 p4 v f t del: slice_Some
        flip: line_def i_def d_def)
qed

theorem ParseRegion_maps_line_witness:
  "ParseRegion (maps_line 3 65536 3 73728 ''r--s'' ''00000000'' ''103:08'' ''9639724'' (''   '' @ ''/a b/Name   1 '')) =
    Some (Some \<lparr>Start = 65536, End = 73728, Size = 8192, Type = 0, Perm = 17,
                Filename = ''/a b/Name   1 '', BaseAddr = 0\<rparr>)"
  using ParseRegion_maps_line
    [of 65536 73728 "''r--s''" "''00000000''" "''103:08''" "''9639724''" "''   ''" "''/a b/Name   1 ''" 3 3]
  by (simp add: maps_field_def is_blank_def ParsePermissions_def Let_def)

text \<open>
  The parser panics exactly when a line passes both guards and its first dash stands
  behind its first blank, so that the slice of the end address is inverted.
\<close>

lemma ParseRegion_panic_iff:
  "ParseRegion line = None \<longleftrightarrow>
     0 < IndexByte line (CHR 0x20) \<and>
     IndexByte line (CHR 0x20) + 5 \<le> int (length line) \<and>
     IndexByte line (CHR 0x20) < IndexByte line (CHR ''-'')"
proof -
  define i d where "i = IndexByte line (CHR 0x20)" and "d = IndexByte line (CHR ''-'')"
  have "i \<noteq> d" if "0 < i"
    using that IndexByte_nth [of line "CHR 0x20"] IndexByte_nth [of line "CHR ''-''"]
    by (auto simp: i_def d_def)
  moreover have "d \<le> int (length line)"
    using IndexByte_less [of line "CHR ''-''"] by (auto simp: d_def)
  ultimately show ?thesis
    by (auto simp: ParseRegion_def slice_def Let_def simp flip: i_def d_def)
qed

end
