(* ===== verification/Regions.thy ===== *)
theory Regions
  imports Region
begin

text \<open>
  Lists of regions (\<^verbatim>\<open>regions.go\<close>): their total size and \<open>RegionsOptimize\<close>, which
  merges neighbouring small regions and splits very large ones at page boundaries
  before a scan.
\<close>

definition Regions_Size :: "Region list \<Rightarrow> u64" where
  "Regions_Size regions = foldl (\<lambda>size region. size + Size region) 0 regions"

section \<open>RegionsOptimize\<close>

text \<open>
  The inner loop that merges followers into \<open>cur\<close>. The result holds the merged
  region, the regions left, and whether the loop left through \<open>goto nextLoop\<close> with the
  region already appended.
\<close>

fun merge_small :: "Region \<Rightarrow> Region list \<Rightarrow> Region \<times> Region list \<times> bool" where
  "merge_small cur [] = (cur, [], False)"
| "merge_small cur (next' # rest) =
     (if End cur = Start next' \<and> Size cur \<le> regionSmallSize \<and> Size next' \<le> regionSmallSize
      then
        let cur = cur\<lparr>End := End next'\<rparr>;
            cur = cur\<lparr>Size := End cur - Start cur\<rparr> in
        if regionLargeSize \<le> Size cur then (cur, rest, True)
        else merge_small cur rest
      else (cur, next' # rest, False))"

definition mk_piece :: "u64 \<Rightarrow> u64 \<Rightarrow> Region" where
  "mk_piece s e = \<lparr>Start = s, End = e, Size = e - s, Type = 0, Perm = 0, Filename = [], BaseAddr = 0\<rparr>"

definition next_end :: "u64 \<Rightarrow> u64 \<Rightarrow> u64" where
  "next_end currentStart currEnd =
     (let nextEnd = currentStart + regionLargeSize in
      if nextEnd < currEnd then
        let nextEnd = page_floor nextEnd in
        if nextEnd \<le> currentStart then currentStart + 4096 else nextEnd
      else currEnd)"

text \<open>The loop that cuts a large region; \<open>None\<close> when it does not end.\<close>

partial_function (option) split_large :: "u64 \<Rightarrow> u64 \<Rightarrow> Region list go" where
  "split_large currentStart currEnd =
     (if currentStart < currEnd then
        let nextEnd = next_end currentStart currEnd in
        Option.bind (split_large nextEnd currEnd)
          (\<lambda>pieces. Some (mk_piece currentStart nextEnd # pieces))
      else Some [])"

lemma merge_small_length: "merge_small cur rest = (c, rest', b) \<Longrightarrow> length rest' \<le> length rest"
  by (induction cur rest rule: merge_small.induct) (auto simp: Let_def intro: le_SucI split: if_splits)

function optimize_loop :: "Region list \<Rightarrow> Region list go" where
  "optimize_loop [] = Some []"
| "optimize_loop (cur # rest) =
     (case merge_small cur rest of
        (c, rest', appended) \<Rightarrow>
          if appended then do { out \<leftarrow> optimize_loop rest'; Some (c # out) }
          else if regionLargeSize < Size c then do {
            pieces \<leftarrow> split_large (Start c) (End c);
            out \<leftarrow> optimize_loop rest';
            Some (pieces @ out)
          }
          else do { out \<leftarrow> optimize_loop rest'; Some (c # out) })"
  by pat_completeness auto
termination
  by (relation "measure length") (auto dest: merge_small_length [OF sym] simp: less_Suc_eq_le)

definition RegionsOptimize :: "Region list \<Rightarrow> Region list go" where
  "RegionsOptimize regions = (if regions = [] then Some [] else optimize_loop regions)"

section \<open>Well-formed regions\<close>

text \<open>
  What \<open>Maps.Parse\<close> delivers: the size is the distance of the bounds. User-space
  addresses stay below \<open>2 ^ 47\<close>; all that is needed is that the last split does not wrap.
\<close>

definition wf_region :: "Region \<Rightarrow> bool" where
  "wf_region r \<longleftrightarrow> Start r \<le> End r \<and> Size r = End r - Start r \<and> unat (End r) < 2 ^ 63"

definition region_addrs :: "Region \<Rightarrow> u64 list" where
  "region_addrs r = addr_range (Start r) (End r)"

text \<open>The kernel maps whole pages, and at least one.\<close>

definition paged_region :: "Region \<Rightarrow> bool" where
  "paged_region r \<longleftrightarrow> page_aligned (Start r) \<and> page_aligned (End r) \<and> Start r < End r"

definition covered_addrs :: "Region list \<Rightarrow> u64 list" where
  "covered_addrs regions = concat (map region_addrs regions)"

lemma covered_addrs_simps [simp]:
  "covered_addrs [] = []"
  "covered_addrs (r # rs) = region_addrs r @ covered_addrs rs"
  "covered_addrs (rs @ ss) = covered_addrs rs @ covered_addrs ss"
  by (simp_all add: covered_addrs_def)

lemma wf_region_size: "wf_region r \<Longrightarrow> unat (Size r) = unat (End r) - unat (Start r)"
  by (simp add: wf_region_def unat_sub)

lemma wf_region_length: "wf_region r \<Longrightarrow> length (region_addrs r) = unat (Size r)"
  by (simp add: region_addrs_def length_addr_range wf_region_size)

lemma mk_piece_sel [simp]:
  "Start (mk_piece s e) = s" "End (mk_piece s e) = e" "Size (mk_piece s e) = e - s"
  by (simp_all add: mk_piece_def)

lemma wf_mk_piece: "s \<le> e \<Longrightarrow> unat e < 2 ^ 63 \<Longrightarrow> wf_region (mk_piece s e)"
  by (simp add: wf_region_def)

lemma region_addrs_mk_piece [simp]: "region_addrs (mk_piece s e) = addr_range s e"
  by (simp add: region_addrs_def)

section \<open>Merging\<close>

definition merged :: "Region \<Rightarrow> Region \<Rightarrow> Region" where
  "merged cur next' = cur\<lparr>End := End next', Size := End next' - Start cur\<rparr>"

lemma merge_small_Cons:
  "merge_small cur (next' # rest) =
     (if End cur = Start next' \<and> Size cur \<le> regionSmallSize \<and> Size next' \<le> regionSmallSize
      then if regionLargeSize \<le> Size (merged cur next') then (merged cur next', rest, True)
           else merge_small (merged cur next') rest
      else (cur, next' # rest, False))"
  by (simp add: merged_def Let_def)

declare merge_small.simps(2) [simp del]

lemma merged_wf:
  assumes "wf_region cur" "wf_region next'" "End cur = Start next'"
  shows "wf_region (merged cur next')"
    and "unat (Size (merged cur next')) = unat (Size cur) + unat (Size next')"
    and "region_addrs (merged cur next') = region_addrs cur @ region_addrs next'"
    and "paged_region cur \<Longrightarrow> paged_region next' \<Longrightarrow> paged_region (merged cur next')"
proof -
  have le: "Start cur \<le> End cur" "End cur \<le> End next'"
    using assms by (simp_all add: wf_region_def)
  then show wf: "wf_region (merged cur next')"
    using assms by (auto simp: wf_region_def merged_def)
  show "unat (Size (merged cur next')) = unat (Size cur) + unat (Size next')"
    using wf_region_size [OF wf] wf_region_size [OF assms(1)] wf_region_size [OF assms(2)] le assms(3)
    by (simp add: merged_def word_le_nat_alt)
  show "region_addrs (merged cur next') = region_addrs cur @ region_addrs next'"
    using addr_range_append [OF le] assms(3) by (simp add: region_addrs_def merged_def)
  show "paged_region cur \<Longrightarrow> paged_region next' \<Longrightarrow> paged_region (merged cur next')"
    using assms(3) by (auto simp: paged_region_def merged_def)
qed

lemma merge_small_correct:
  assumes "wf_region cur" "list_all wf_region rest" "merge_small cur rest = (c, rest', b)"
  shows "wf_region c \<and> list_all wf_region rest' \<and>
    region_addrs cur @ covered_addrs rest = region_addrs c @ covered_addrs rest' \<and>
    \<not> b \<and> (Size c = Size cur \<or> unat (Size c) \<le> 131072) \<and>
    (paged_region cur \<longrightarrow> list_all paged_region rest \<longrightarrow> paged_region c \<and> list_all paged_region rest')"
  using assms
proof (induction rest arbitrary: cur)
  case Nil
  then show ?case by simp
next
  case (Cons next' rest)
  show ?case
  proof (cases "End cur = Start next' \<and> Size cur \<le> regionSmallSize \<and> Size next' \<le> regionSmallSize")
    case False
    with Cons.prems show ?thesis by (auto simp: merge_small_Cons)
  next
    case True
    with Cons.prems have m: "wf_region (merged cur next')"
      "unat (Size (merged cur next')) = unat (Size cur) + unat (Size next')"
      "region_addrs (merged cur next') = region_addrs cur @ region_addrs next'"
      "paged_region cur \<Longrightarrow> paged_region next' \<Longrightarrow> paged_region (merged cur next')"
      by (simp_all add: merged_wf)
    with True have small: "unat (Size (merged cur next')) \<le> 131072"
      by (simp add: regionSmallSize_val word_le_nat_alt)
    then have "\<not> regionLargeSize \<le> Size (merged cur next')"
      by (simp add: regionLargeSize_val word_le_nat_alt)
    with True Cons.prems have "merge_small (merged cur next') rest = (c, rest', b)"
      by (simp add: merge_small_Cons)
    with Cons.IH [OF m(1)] Cons.prems(2) small show ?thesis
      by (auto simp: m(3,4))
  qed
qed

section \<open>Splitting\<close>

lemma next_end_bounds:
  assumes "s < e" "unat e < 2 ^ 63"
  shows "s < next_end s e" "next_end s e \<le> e"
    "unat (next_end s e) \<le> unat s + 2097152"
    "next_end s e = e \<or> page_aligned (next_end s e)"
proof -
  have sum: "unat (s + regionLargeSize) = unat s + 2097152"
    using assms by (subst unat_add_lem [THEN iffD1])
      (simp_all add: regionLargeSize_val word_less_nat_alt)
  have floor: "unat s < unat (page_floor (s + regionLargeSize))"
    using page_floor_gt [of "s + regionLargeSize"] by (simp add: sum)
  note le = page_floor_le [of "s + regionLargeSize"]
  show "s < next_end s e"
    using assms floor by (simp add: next_end_def Let_def word_less_nat_alt word_le_nat_alt)
  show "next_end s e \<le> e"
    using assms floor le by (auto simp: next_end_def Let_def word_less_nat_alt word_le_nat_alt)
  show "unat (next_end s e) \<le> unat s + 2097152"
    using assms floor le sum by (auto simp: next_end_def Let_def word_less_nat_alt word_le_nat_alt)
  show "next_end s e = e \<or> page_aligned (next_end s e)"
    using floor by (auto simp: next_end_def Let_def word_less_nat_alt word_le_nat_alt)
qed

definition piece_ok :: "Region \<Rightarrow> bool" where
  "piece_ok r \<longleftrightarrow> wf_region r \<and> unat (Size r) \<le> 2097152"

lemma split_large_correct:
  assumes "unat e < 2 ^ 63" "s \<le> e"
  shows "\<exists>pieces. split_large s e = Some pieces \<and> covered_addrs pieces = addr_range s e \<and>
    list_all piece_ok pieces \<and>
    (page_aligned s \<longrightarrow> page_aligned e \<longrightarrow> list_all paged_region pieces)"
  using assms(2)
proof (induction "unat e - unat s" arbitrary: s rule: less_induct)
  case less
  show ?case
  proof (cases "s < e")
    case False
    then show ?thesis by (subst split_large.simps) simp
  next
    case True
    define m where "m = next_end s e"
    note m = next_end_bounds [OF True assms(1), folded m_def]
    have "unat e - unat m < unat e - unat s"
      using m(1) True by (simp add: word_less_nat_alt)
    from less.hyps [OF this m(2)] obtain ps where
      ps: "split_large m e = Some ps" "covered_addrs ps = addr_range m e" "list_all piece_ok ps"
        "page_aligned m \<longrightarrow> page_aligned e \<longrightarrow> list_all paged_region ps"
      by blast
    have "wf_region (mk_piece s m)"
      using m(1,2) assms(1) by (intro wf_mk_piece) (auto simp: word_le_nat_alt word_less_nat_alt)
    moreover have "unat (m - s) \<le> 2097152"
      using m(1,3) by (simp add: unat_sub)
    moreover have "addr_range s m @ addr_range m e = addr_range s e"
      using m(1,2) by (intro addr_range_append) auto
    moreover have "split_large s e = Some (mk_piece s m # ps)"
      using True ps(1) by (subst split_large.simps) (simp add: m_def Let_def)
    ultimately show ?thesis
      using ps m(1,4) by (auto simp: piece_ok_def paged_region_def)
  qed
qed

section \<open>The whole pass\<close>

lemma optimize_loop_correct:
  assumes "list_all wf_region regions"
  shows "\<exists>out. optimize_loop regions = Some out \<and> covered_addrs out = covered_addrs regions \<and>
    list_all piece_ok out \<and> (list_all paged_region regions \<longrightarrow> list_all paged_region out)"
  using assms
proof (induction regions rule: optimize_loop.induct)
  case 1
  then show ?case by simp
next
  case (2 cur rest)
  obtain c rest' b where m: "merge_small cur rest = (c, rest', b)"
    by (cases "merge_small cur rest")
  with "2.prems" merge_small_correct [of cur rest c rest' b]
  have c: "wf_region c" "list_all wf_region rest'" "\<not> b"
    "region_addrs cur @ covered_addrs rest = region_addrs c @ covered_addrs rest'"
    "paged_region cur \<longrightarrow> list_all paged_region rest \<longrightarrow> paged_region c \<and> list_all paged_region rest'"
    by simp_all
  show ?case
  proof (cases "regionLargeSize < Size c")
    case True
    obtain ps where ps: "split_large (Start c) (End c) = Some ps"
      "covered_addrs ps = region_addrs c" "list_all piece_ok ps"
      "paged_region c \<longrightarrow> list_all paged_region ps"
      using split_large_correct [of "End c" "Start c"] c(1)
      by (auto simp: wf_region_def region_addrs_def paged_region_def)
    from "2.IH"(2) [OF m [symmetric] refl c(3) True ps(1) c(2)] obtain out where
      "optimize_loop rest' = Some out" "covered_addrs out = covered_addrs rest'" "list_all piece_ok out"
      "list_all paged_region rest' \<longrightarrow> list_all paged_region out"
      by blast
    with ps c True m show ?thesis by auto
  next
    case False
    from "2.IH"(3) [OF m [symmetric] refl c(3) False c(2)] obtain out where
      out: "optimize_loop rest' = Some out" "covered_addrs out = covered_addrs rest'"
        "list_all piece_ok out" "list_all paged_region rest' \<longrightarrow> list_all paged_region out"
      by blast
    have "piece_ok c"
      using False c(1) by (simp add: piece_ok_def regionLargeSize_val word_less_nat_alt)
    with out c False m show ?thesis by auto
  qed
qed

lemma RegionsOptimize_correct:
  assumes "list_all wf_region regions"
  shows "\<exists>out. RegionsOptimize regions = Some out \<and> covered_addrs out = covered_addrs regions \<and>
    list_all piece_ok out \<and> (list_all paged_region regions \<longrightarrow> list_all paged_region out)"
  using optimize_loop_correct [OF assms] by (auto simp: RegionsOptimize_def)

text \<open>
  C14: for well-formed regions below \<open>2 ^ 63\<close> the pass ends and its output covers exactly
  the same addresses in the same order: no byte is lost, duplicated or reordered, whatever
  was merged or split.
\<close>

theorem RegionsOptimize_covers:
  assumes "list_all wf_region regions"
  shows "\<exists>out. RegionsOptimize regions = Some out \<and> covered_addrs out = covered_addrs regions"
  using RegionsOptimize_correct [OF assms] by blast

lemma sample_regions:
  "list_all wf_region [mk_piece 4096 8192, mk_piece 8192 12288, mk_piece 0x10000000 0x10500000] \<and>
   list_all paged_region [mk_piece 4096 8192, mk_piece 8192 12288, mk_piece 0x10000000 0x10500000]"
  by (simp add: wf_region_def paged_region_def page_aligned_def)

theorem RegionsOptimize_covers_witness:
  "\<exists>out. RegionsOptimize [mk_piece 4096 8192, mk_piece 8192 12288, mk_piece 0x10000000 0x10500000] = Some out \<and>
     covered_addrs out = covered_addrs [mk_piece 4096 8192, mk_piece 8192 12288, mk_piece 0x10000000 0x10500000]"
  by (rule RegionsOptimize_covers) (use sample_regions in blast)

text \<open>
  C15: no region of the output is larger than 2 MiB, every one is well-formed, and regions
  made of whole pages stay so: a split never cuts inside a page and never yields an empty
  region.
\<close>

theorem RegionsOptimize_pieces:
  assumes "list_all wf_region regions" "RegionsOptimize regions = Some out"
  shows "list_all (\<lambda>r. wf_region r \<and> unat (Size r) \<le> unat regionLargeSize) out \<and>
    (list_all paged_region regions \<longrightarrow> list_all paged_region out)"
  using RegionsOptimize_correct [OF assms(1)] assms(2)
  by (auto simp: piece_ok_def regionLargeSize_val elim!: list.pred_mono_strong)

theorem RegionsOptimize_pieces_witness:
  "\<exists>out. RegionsOptimize [mk_piece 4096 8192, mk_piece 8192 12288, mk_piece 0x10000000 0x10500000] = Some out \<and>
     list_all (\<lambda>r. wf_region r \<and> unat (Size r) \<le> unat regionLargeSize) out \<and> list_all paged_region out"
proof -
  let ?rs = "[mk_piece 4096 8192, mk_piece 8192 12288, mk_piece 0x10000000 0x10500000]"
  obtain out where "RegionsOptimize ?rs = Some out"
    using RegionsOptimize_correct [of ?rs] sample_regions by blast
  with RegionsOptimize_pieces [of ?rs out] sample_regions show ?thesis by blast
qed

text \<open>
  Merging stops at 128 KiB: two regions of at most 64 KiB are joined once and the result
  is joined again only while it is itself at most 64 KiB, so the early exit for merged
  regions of 2 MiB (the \<open>goto nextLoop\<close>) is never taken.
\<close>

lemma merge_small_bound:
  assumes "wf_region cur" "list_all wf_region rest" "merge_small cur rest = (c, rest', appended)"
  shows "\<not> appended \<and> (Size c = Size cur \<or> unat (Size c) \<le> 131072)"
  using merge_small_correct [OF assms] by blast

section \<open>The total size\<close>

lemma foldl_Size: "foldl (\<lambda>size region. size + Size region) a rs = a + Regions_Size rs"
proof (induction rs arbitrary: a)
  case (Cons r rs)
  show ?case
    using Cons [of "a + Size r"] Cons [of "Size r"] by (simp add: Regions_Size_def)
qed (simp add: Regions_Size_def)

lemma Regions_Size_simps [simp]:
  "Regions_Size [] = 0"
  "Regions_Size (r # rs) = Size r + Regions_Size rs"
  using foldl_Size [of "Size r" rs] by (simp_all add: Regions_Size_def)

lemma Regions_Size_covered:
  "list_all wf_region rs \<Longrightarrow> Regions_Size rs = of_nat (length (covered_addrs rs))"
proof (induction rs)
  case (Cons r rs)
  then have "Size r = of_nat (length (region_addrs r))"
    by (simp add: wf_region_length)
  with Cons show ?case by simp
qed simp

text \<open>The pass keeps the total number of bytes that a scan reads.\<close>

lemma RegionsOptimize_Size:
  assumes "list_all wf_region regions" "RegionsOptimize regions = Some out"
  shows "Regions_Size out = Regions_Size regions"
proof -
  from RegionsOptimize_correct [OF assms(1)] assms(2)
  have "covered_addrs out = covered_addrs regions" "list_all piece_ok out" by auto
  moreover from this(2) have "list_all wf_region out"
    by (auto simp: piece_ok_def elim!: list.pred_mono_strong)
  ultimately show ?thesis
    using assms(1) by (simp add: Regions_Size_covered)
qed

end
