(* ===== verification/Maps.thy ===== *)
theory Maps
  imports Regions
begin

text \<open>
  The reader of \<^verbatim>\<open>/proc/pid/maps\<close> (\<^verbatim>\<open>maps.go\<close>): a pass over the lines that tracks
  which ELF image the current region belongs to, classifies the region, and keeps the
  ones a scan level asks for. The file is its content.
\<close>

type_synonym RegionScanLevel = u8

abbreviation REGION_ALL :: RegionScanLevel where "REGION_ALL \<equiv> 0"
abbreviation REGION_ALL_RW :: RegionScanLevel where "REGION_ALL_RW \<equiv> 1"
abbreviation REGION_HEAP_STACK_EXECUTABLE :: RegionScanLevel where "REGION_HEAP_STACK_EXECUTABLE \<equiv> 2"
abbreviation REGION_HEAP_STACK_EXECUTABLE_BSS :: RegionScanLevel where
  "REGION_HEAP_STACK_EXECUTABLE_BSS \<equiv> 3"

text \<open>
  \<open>OpenMaps\<close>: whether the maps file of the process can be opened, and where the link \<^verbatim>\<open>exe\<close> leads, if it can be
  read; the result stands for the opened file by the path kept with it, which is empty when the link could not be read.
\<close>

definition OpenMaps :: "bool \<Rightarrow> string option \<Rightarrow> string option" where
  "OpenMaps opens link = (if opens then Some (case link of None \<Rightarrow> [] | Some exePath \<Rightarrow> exePath) else None)"

definition regionSkipped :: "string list" where
  "regionSkipped =
     [''/usr/share/'', ''/usr/lib/'', ''/run/host/usr/lib/'', ''/usr/lib/x86_64-linux-gnu/'',
      ''/dev/dri'', ''[vvar]'', ''[vdso]'', ''/home/deck/.local/share/Steam/ubuntu12_64/'']"

definition isSkipRegion :: "string \<Rightarrow> bool" where
  "isSkipRegion filename \<longleftrightarrow> filename \<noteq> [] \<and> list_ex (\<lambda>b. prefix b filename) regionSkipped"

section \<open>Lines\<close>

text \<open>
  \<^verbatim>\<open>bufio.Scanner\<close> with its default split: lines without their end marker, stopped by a
  line that does not fit its 64 KiB buffer.
\<close>

definition dropCR :: "string \<Rightarrow> string" where
  "dropCR line = (if line \<noteq> [] \<and> last line = CHR 0x0D then butlast line else line)"

function scan_lines :: "string \<Rightarrow> string list" where
  "scan_lines data =
     (if data = [] then []
      else let i = IndexByte data (CHR 0x0A) in
        if 0 \<le> i \<and> i < 65536
        then dropCR (take (nat i) data) # scan_lines (drop (nat i + 1) data)
        else if 65536 \<le> length data then []
        else [dropCR data])"
  by pat_completeness auto
termination
  by (relation "measure length") auto

declare scan_lines.simps [simp del]

definition maps_text_line :: "string \<Rightarrow> bool" where
  "maps_text_line line \<longleftrightarrow> CHR 0x0A \<notin> set line \<and> CHR 0x0D \<notin> set line \<and> length line < 65536"

lemma scan_lines_unlines:
  "list_all maps_text_line ls \<Longrightarrow> scan_lines (concat (map (\<lambda>l. l @ [CHR 0x0A]) ls)) = ls"
proof (induction ls)
  case Nil
  then show ?case by (simp add: scan_lines.simps)
next
  case (Cons l ls)
  define rest where "rest = concat (map (\<lambda>l. l @ [CHR 0x0A]) ls)"
  have "IndexByte (l @ CHR 0x0A # rest) (CHR 0x0A) = int (length l)"
    using Cons.prems by (intro IndexByte_append) (simp add: maps_text_line_def)
  moreover have "dropCR l = l"
  proof -
    have "CHR 0x0D \<notin> set l"
      using Cons.prems by (simp add: maps_text_line_def)
    then show ?thesis by (metis dropCR_def last_in_set)
  qed
  ultimately show ?case
    using Cons by (simp add: scan_lines.simps [of "l @ CHR 0x0A # rest"] maps_text_line_def flip: rest_def)
qed

section \<open>The pass\<close>

record parse_state =
  codeRegions :: u64
  exeRegions :: u64
  prevEnd :: u64
  loadAddr :: u64
  exeLoad :: u64
  isExe :: bool
  binName :: string

definition parse_init :: parse_state where
  "parse_init = \<lparr>codeRegions = 0, exeRegions = 0, prevEnd = 0, loadAddr = 0, exeLoad = 0,
                 isExe = False, binName = []\<rparr>"

text \<open>The first block: has the region left the current ELF sequence?\<close>

definition follow_sequence :: "Region \<Rightarrow> parse_state \<Rightarrow> parse_state" where
  "follow_sequence r st =
     (if 0 < codeRegions st then
        if perm_Exec (Perm r) \<or>
           (Filename r \<noteq> binName st \<and> (Filename r \<noteq> [] \<or> Start r \<noteq> prevEnd st)) \<or>
           4 \<le> codeRegions st
        then st\<lparr>codeRegions := 0, isExe := False,
                exeRegions := (if 1 < exeRegions st then 0 else exeRegions st)\<rparr>
        else st\<lparr>codeRegions := codeRegions st + 1,
                exeRegions := (if isExe st then exeRegions st + 1 else exeRegions st)\<rparr>
      else st)"

text \<open>The second block: does the region start a new sequence, and from which base?\<close>

definition start_sequence :: "string \<Rightarrow> Region \<Rightarrow> parse_state \<Rightarrow> parse_state" where
  "start_sequence exe r st =
     (if codeRegions st = 0 then
        let st =
          (if perm_Exec (Perm r) \<and> Filename r \<noteq> [] then
             let st = st\<lparr>codeRegions := codeRegions st + 1\<rparr>;
                 st = (if Filename r = exe
                       then st\<lparr>exeRegions := 1, exeLoad := Start r, isExe := True\<rparr> else st)
             in st\<lparr>binName := Filename r\<rparr>
           else if exeRegions st = 1 \<and> Filename r \<noteq> [] \<and> Filename r = exe then
             let st = st\<lparr>exeRegions := exeRegions st + 1\<rparr>
             in st\<lparr>codeRegions := exeRegions st, exeLoad := Start r, isExe := True,
                   binName := Filename r\<rparr>
           else st)
        in st\<lparr>loadAddr := (if exeRegions st < 2 then Start r else exeLoad st)\<rparr>
      else st)"

definition track :: "string \<Rightarrow> Region \<Rightarrow> parse_state \<Rightarrow> parse_state" where
  "track exe r st = (start_sequence exe r (follow_sequence r st))\<lparr>prevEnd := End r\<rparr>"

definition region_type :: "parse_state \<Rightarrow> string \<Rightarrow> RegionType" where
  "region_type st filename =
     (if isExe st then REGION_TYPE_EXE
      else if 0 < codeRegions st then REGION_TYPE_CODE
      else if filename = ''[heap]'' then REGION_TYPE_HEAP
      else if filename = ''[stack]'' then REGION_TYPE_STACK
      else REGION_TYPE_MISC)"

definition useful :: "string \<Rightarrow> RegionScanLevel \<Rightarrow> RegionType \<Rightarrow> string \<Rightarrow> bool" where
  "useful exe scanLevel regionType filename =
     (let heap_stack_exe =
        (if regionType = REGION_TYPE_HEAP \<or> regionType = REGION_TYPE_STACK then True
         else regionType = REGION_TYPE_EXE \<or> filename = exe) in
      if scanLevel = REGION_ALL \<or> scanLevel = REGION_ALL_RW then True
      else if scanLevel = REGION_HEAP_STACK_EXECUTABLE_BSS then filename = [] \<or> heap_stack_exe
      else if scanLevel = REGION_HEAP_STACK_EXECUTABLE then heap_stack_exe
      else False)"

text \<open>The guards of the loop body in their order, for a region of type \<open>regionType\<close>.\<close>

definition keep :: "string \<Rightarrow> RegionScanLevel \<Rightarrow> RegionType \<Rightarrow> Region \<Rightarrow> bool" where
  "keep exe scanLevel regionType r =
     (if \<not> perm_Read (Perm r) \<or> Size r \<le> 0 then False
      else if scanLevel \<noteq> REGION_ALL \<and> \<not> perm_Write (Perm r) then False
      else if useful exe scanLevel regionType (Filename r) then
        if isSkipRegion (Filename r) then False
        else if perm_Shared (Perm r) \<and> Filename r \<noteq> exe then False
        else True
      else False)"

lemma keep_iff:
  "keep exe scanLevel t r \<longleftrightarrow>
     perm_Read (Perm r) \<and> Size r \<noteq> 0 \<and> (scanLevel = REGION_ALL \<or> perm_Write (Perm r)) \<and>
     useful exe scanLevel t (Filename r) \<and> \<not> isSkipRegion (Filename r) \<and>
     (perm_Shared (Perm r) \<longrightarrow> Filename r = exe)"
  by (simp add: keep_def)

fun Parse_loop :: "string \<Rightarrow> RegionScanLevel \<Rightarrow> string list \<Rightarrow> parse_state \<Rightarrow> Region list go" where
  "Parse_loop exe scanLevel [] st = Some []"
| "Parse_loop exe scanLevel (line # lines) st = do {
     parsed \<leftarrow> ParseRegion line;
     case parsed of
       None \<Rightarrow> Parse_loop exe scanLevel lines st
     | Some r \<Rightarrow>
         let st = track exe r st;
             regionType = region_type st (Filename r) in do {
           regions \<leftarrow> Parse_loop exe scanLevel lines st;
           Some (if keep exe scanLevel regionType r
                 then r\<lparr>Type := regionType, BaseAddr := loadAddr st\<rparr> # regions else regions)
         }
   }"

definition scan_level :: "RegionScanLevel list \<Rightarrow> RegionScanLevel" where
  "scan_level args =
     (if 0 < length args \<and> args ! 0 \<le> REGION_HEAP_STACK_EXECUTABLE_BSS then args ! 0 else REGION_ALL)"

definition Maps_Parse :: "string \<Rightarrow> string \<Rightarrow> RegionScanLevel list \<Rightarrow> Region list go" where
  "Maps_Parse exe content args = Parse_loop exe (scan_level args) (scan_lines content) parse_init"

section \<open>What the pass keeps\<close>

text \<open>The regions on the lines, in order; \<open>None\<close> if a line makes the parser panic.\<close>

fun parsed_regions :: "string list \<Rightarrow> Region list go" where
  "parsed_regions [] = Some []"
| "parsed_regions (line # lines) = do {
     parsed \<leftarrow> ParseRegion line;
     rs \<leftarrow> parsed_regions lines;
     Some (case parsed of None \<Rightarrow> rs | Some r \<Rightarrow> r # rs)
   }"

definition strip :: "Region \<Rightarrow> Region" where
  "strip r = r\<lparr>Type := 0, BaseAddr := 0\<rparr>"

lemma ParseRegion_strip:
  assumes "ParseRegion line = Some (Some r)"
  shows "strip r = r" "Size r = End r - Start r"
  using assms by (auto simp: ParseRegion_def Let_def strip_def bind_eq_Some_conv split: if_splits option.splits)

lemma Parse_loop_defined:
  "Parse_loop exe scanLevel lines st = None \<longleftrightarrow> parsed_regions lines = None"
  by (induction lines arbitrary: st) (auto simp: Let_def split: bind_splits option.splits)

lemma Parse_loop_sound:
  assumes "Parse_loop exe scanLevel lines st = Some regions" "parsed_regions lines = Some rs"
  shows "subseq (map strip regions) rs \<and>
    (\<forall>r \<in> set regions. \<exists>t. keep exe scanLevel t (strip r))"
  using assms
proof (induction lines arbitrary: st regions rs)
  case Nil
  then show ?case by simp
next
  case (Cons line lines)
  from Cons.prems obtain parsed rs' where p: "ParseRegion line = Some parsed"
    "parsed_regions lines = Some rs'" "rs = (case parsed of None \<Rightarrow> rs' | Some r \<Rightarrow> r # rs')"
    by (auto simp: bind_eq_Some_conv)
  show ?case
  proof (cases parsed)
    case None
    with Cons p show ?thesis by simp
  next
    case (Some r)
    define st' where "st' = track exe r st"
    define t where "t = region_type st' (Filename r)"
    from Cons.prems p(1) Some obtain regions' where
      l: "Parse_loop exe scanLevel lines st' = Some regions'"
      "regions = (if keep exe scanLevel t r
         then r\<lparr>Type := t, BaseAddr := loadAddr st'\<rparr> # regions' else regions')"
      by (auto simp: bind_eq_Some_conv Let_def st'_def t_def)
    have "strip (r\<lparr>Type := t, BaseAddr := loadAddr st'\<rparr>) = r"
      using ParseRegion_strip [of line r] p(1) Some by (simp add: strip_def)
    with Cons.IH [OF l(1) p(2)] l(2) p(3) Some show ?thesis by auto
  qed
qed

text \<open>For the two levels that take everything, the classification decides nothing.\<close>

lemma keep_all_type:
  "scanLevel = REGION_ALL \<or> scanLevel = REGION_ALL_RW \<Longrightarrow>
   keep exe scanLevel t r = keep exe scanLevel REGION_TYPE_MISC r"
  by (auto simp: keep_def useful_def)

lemma Parse_loop_all:
  assumes "scanLevel = REGION_ALL \<or> scanLevel = REGION_ALL_RW" "parsed_regions lines = Some rs"
  shows "\<exists>regions. Parse_loop exe scanLevel lines st = Some regions \<and>
    map strip regions = filter (keep exe scanLevel REGION_TYPE_MISC) rs"
  using assms(2)
proof (induction lines arbitrary: st rs)
  case Nil
  then show ?case by simp
next
  case (Cons line lines)
  from Cons.prems obtain parsed rs' where p: "ParseRegion line = Some parsed"
    "parsed_regions lines = Some rs'" "rs = (case parsed of None \<Rightarrow> rs' | Some r \<Rightarrow> r # rs')"
    by (auto simp: bind_eq_Some_conv)
  show ?case
  proof (cases parsed)
    case None
    with Cons.IH [OF p(2)] p show ?thesis by simp
  next
    case (Some r)
    define st' where "st' = track exe r st"
    obtain regions where l: "Parse_loop exe scanLevel lines st' = Some regions"
      "map strip regions = filter (keep exe scanLevel REGION_TYPE_MISC) rs'"
      using Cons.IH [OF p(2), of st'] by blast
    have "strip (r\<lparr>Type := t, BaseAddr := b\<rparr>) = r" for t b
      using ParseRegion_strip [of line r] p(1) Some by (simp add: strip_def)
    moreover have "keep exe scanLevel (region_type st' (Filename r)) r =
        keep exe scanLevel REGION_TYPE_MISC r"
      by (rule keep_all_type [OF assms(1)])
    ultimately show ?thesis
      using l p Some by (simp add: Let_def flip: st'_def)
  qed
qed

lemma scan_level_RW [simp]: "scan_level [REGION_ALL_RW] = REGION_ALL_RW"
  by (simp add: scan_level_def)

lemma Parse_keeps:
  assumes "parsed_regions (scan_lines content) = Some rs"
  shows "\<exists>regions. Maps_Parse exe content [REGION_ALL_RW] = Some regions \<and>
    map strip regions = filter (keep exe REGION_ALL_RW REGION_TYPE_MISC) rs"
  using Parse_loop_all [of REGION_ALL_RW _ _ exe parse_init, OF _ assms] by (simp add: Maps_Parse_def)

text \<open>
  C16: at the level the scanner uses (\<open>REGION_ALL_RW\<close>) the result is exactly the
  readable and writable regions with a size, in file order, that are neither of a skipped
  path nor shared by a file other than the executable: none is missed and none added, and
  only the type and base address are filled in.
\<close>

theorem Maps_Parse_RW:
  assumes "parsed_regions (scan_lines content) = Some rs"
  shows "\<exists>regions. Maps_Parse exe content [REGION_ALL_RW] = Some regions \<and>
    map strip regions =
      filter (\<lambda>r. perm_Read (Perm r) \<and> perm_Write (Perm r) \<and> Size r \<noteq> 0 \<and>
                   \<not> isSkipRegion (Filename r) \<and> (perm_Shared (Perm r) \<longrightarrow> Filename r = exe)) rs"
proof -
  have "keep exe REGION_ALL_RW REGION_TYPE_MISC = (\<lambda>r. perm_Read (Perm r) \<and> perm_Write (Perm r) \<and>
      Size r \<noteq> 0 \<and> \<not> isSkipRegion (Filename r) \<and> (perm_Shared (Perm r) \<longrightarrow> Filename r = exe))"
    by (auto simp: keep_def useful_def fun_eq_iff)
  with Parse_keeps [OF assms, of exe] show ?thesis by simp
qed

text \<open>Four lines of a process: its heap, a read-only file, a system library, an anonymous mapping.\<close>

definition sample_maps :: string where
  "sample_maps = concat (map (\<lambda>l. l @ [CHR 0x0A])
     [''1000-3000 rw-p 0 0:0 0 [heap]'', ''3000-4000 r--p 0 8:1 9 /data'',
      ''5000-6000 rw-p 0 8:1 7 /usr/lib/l.so'', ''7000-8000 rw-p 0 0:0 0 ''])"

lemma sample_maps_lines:
  "scan_lines sample_maps =
    [''1000-3000 rw-p 0 0:0 0 [heap]'', ''3000-4000 r--p 0 8:1 9 /data'',
     ''5000-6000 rw-p 0 8:1 7 /usr/lib/l.so'', ''7000-8000 rw-p 0 0:0 0 '']"
  unfolding sample_maps_def by (rule scan_lines_unlines) (simp add: maps_text_line_def)

lemmas ParseRegion_eval =
  ParseRegion_def Let_def slice_def ParseUint_def digit_value_def TrimLeft_blank_def is_blank_def
  ParsePermissions_def numeral_3_eq_3

definition sample_region :: "u64 \<Rightarrow> u64 \<Rightarrow> Permissions \<Rightarrow> string \<Rightarrow> Region" where
  "sample_region s e p f = \<lparr>Start = s, End = e, Size = e - s, Type = 0, Perm = p, Filename = f, BaseAddr = 0\<rparr>"

lemma sample_maps_parsed:
  "parsed_regions (scan_lines sample_maps) =
    Some [sample_region 4096 12288 11 ''[heap]'', sample_region 12288 16384 9 ''/data'',
          sample_region 20480 24576 11 ''/usr/lib/l.so'', sample_region 28672 32768 11 []]"
  unfolding sample_maps_lines by (simp add: ParseRegion_eval sample_region_def)

theorem Maps_Parse_RW_witness:
  "\<exists>regions. Maps_Parse ''/bin/game'' sample_maps [REGION_ALL_RW] = Some regions \<and>
    map strip regions = [sample_region 4096 12288 11 ''[heap]'', sample_region 28672 32768 11 []]"
  using Maps_Parse_RW [OF sample_maps_parsed, of "''/bin/game''"]
  by (simp add: sample_region_def perm_defs isSkipRegion_def regionSkipped_def)

text \<open>
  At every scan level, each region of the result is readable, not empty, not of a
  skipped path, writable unless everything was asked for, shared only if it is the
  executable's own; and the result is a subsequence of the file's regions.
\<close>

lemma Maps_Parse_safe:
  assumes "parsed_regions (scan_lines content) = Some rs"
    and "Maps_Parse exe content args = Some regions"
  shows "subseq (map strip regions) rs \<and>
    list_all (\<lambda>r. perm_Read (Perm r) \<and> Size r \<noteq> 0 \<and> \<not> isSkipRegion (Filename r) \<and>
                (scan_level args = REGION_ALL \<or> perm_Write (Perm r)) \<and>
                (perm_Shared (Perm r) \<longrightarrow> Filename r = exe)) regions"
proof -
  have sound: "subseq (map strip regions) rs"
    "\<forall>r \<in> set regions. \<exists>t. keep exe (scan_level args) t (strip r)"
    using Parse_loop_sound [of exe "scan_level args" "scan_lines content" parse_init regions rs] assms
    by (simp_all add: Maps_Parse_def)
  have "perm_Read (Perm r) \<and> Size r \<noteq> 0 \<and> \<not> isSkipRegion (Filename r) \<and>
      (scan_level args = REGION_ALL \<or> perm_Write (Perm r)) \<and>
      (perm_Shared (Perm r) \<longrightarrow> Filename r = exe)"
    if "r \<in> set regions" for r
  proof -
    from sound(2) [rule_format, OF that] obtain t where
      "keep exe (scan_level args) t (strip r)" ..
    then show ?thesis by (simp add: keep_iff strip_def)
  qed
  with sound(1) show ?thesis by (auto simp: list_all_iff)
qed

section \<open>The ELF tracking\<close>

text \<open>
  What holds between the counters: a sequence has at most four regions, the executable's
  counter never exceeds the sequence's, and outside the executable it is at most one.
\<close>

definition track_inv :: "string \<Rightarrow> parse_state \<Rightarrow> bool" where
  "track_inv exe st \<longleftrightarrow> codeRegions st \<le> 4 \<and>
     (isExe st \<longrightarrow> 0 < codeRegions st \<and> exeRegions st \<le> codeRegions st \<and> binName st = exe) \<and>
     (\<not> isExe st \<longrightarrow> exeRegions st \<le> 1)"

lemma track_inv_init: "track_inv exe parse_init"
  by (simp add: track_inv_def parse_init_def)

lemma word_succ_le4:
  fixes a b :: u64
  assumes "b < 4"
  shows "b + 1 \<le> 4" "0 < b + 1" "a \<le> b \<Longrightarrow> a + 1 \<le> b + 1"
  using assms by (simp_all add: word_le_nat_alt word_less_nat_alt unat_word_ariths)

lemma follow_sequence_inv: "track_inv exe st \<Longrightarrow> track_inv exe (follow_sequence r st)"
  by (auto simp: track_inv_def follow_sequence_def not_le not_less word_succ_le4)

lemma start_sequence_inv: "track_inv exe st \<Longrightarrow> track_inv exe (start_sequence exe r st)"
  by (auto simp: track_inv_def start_sequence_def Let_def)

lemma track_inv_step: "track_inv exe st \<Longrightarrow> track_inv exe (track exe r st)"
  using start_sequence_inv [OF follow_sequence_inv]
  by (auto simp: track_inv_def track_def)

text \<open>The states of the pass over a list of regions.\<close>

definition track_all :: "string \<Rightarrow> Region list \<Rightarrow> parse_state" where
  "track_all exe rs = fold (track exe) rs parse_init"

lemma fold_track_inv: "track_inv exe st \<Longrightarrow> track_inv exe (fold (track exe) rs st)"
  by (induction rs arbitrary: st) (auto intro: track_inv_step)

text \<open>
  Over any list of regions the two unsigned counters of the pass stay between 0 and 4,
  so neither increment ever wraps and a sequence never takes more than four regions.
\<close>

lemma track_counters_bounded:
  "codeRegions (track_all exe rs) \<le> 4 \<and> exeRegions (track_all exe rs) \<le> 4"
proof -
  have inv: "track_inv exe (track_all exe rs)"
    unfolding track_all_def by (rule fold_track_inv [OF track_inv_init])
  then have "codeRegions (track_all exe rs) \<le> 4"
    "exeRegions (track_all exe rs) \<le> codeRegions (track_all exe rs) \<or> exeRegions (track_all exe rs) \<le> 1"
    by (auto simp: track_inv_def)
  moreover have "(1::u64) \<le> 4" by simp
  ultimately show ?thesis by (meson order_trans)
qed

text \<open>
  A region is classified as part of the executable only if it is mapped from the
  executable's file, or is an anonymous mapping that starts where the region before it ends.
\<close>

lemma track_exe_classified:
  assumes "region_type (track exe r (track_all exe rs)) (Filename r) = REGION_TYPE_EXE"
  shows "Filename r = exe \<or> (Filename r = [] \<and> Start r = prevEnd (track_all exe rs))"
proof -
  define st where "st = track_all exe rs"
  have inv: "track_inv exe st"
    unfolding st_def track_all_def by (rule fold_track_inv [OF track_inv_init])
  have "isExe (track exe r st)"
    using assms by (auto simp: region_type_def st_def split: if_splits)
  with inv show ?thesis
    unfolding st_def [symmetric]
    by (auto simp: track_def start_sequence_def follow_sequence_def track_inv_def Let_def split: if_splits)
qed

end
