(* ===== verification/Virtual_Region.thy ===== *)
theory Virtual_Region
  imports Regions
begin

text \<open>
  Virtual regions (\<^verbatim>\<open>virtual_region.go\<close>): the addresses of an earlier result grouped
  into page-aligned spans for block-wise reading, and the cursor that tells, for ascending
  match addresses, which of them belong to the result.
\<close>

record VirtualRegion =
  vStart :: u64
  vEnd :: u64
  vSize :: u64
  addresses :: "u64 list"
  vcount :: int
  vcursor :: int

section \<open>The cursor\<close>

definition Match :: "VirtualRegion \<Rightarrow> u64 \<Rightarrow> (bool \<times> VirtualRegion) go" where
  "Match region address =
     (if vcount region \<le> vcursor region then Some (False, region)
      else do {
        a \<leftarrow> index (addresses region) (vcursor region);
        if a = address then Some (True, region\<lparr>vcursor := vcursor region + 1\<rparr>)
        else if a < address then do {
          rest \<leftarrow> slice (addresses region) (vcursor region) (int (length (addresses region)));
          let (i, found) = BinarySearch rest address;
          let region = region\<lparr>vcursor := vcursor region + int i\<rparr>;
          if found then Some (True, region\<lparr>vcursor := vcursor region + 1\<rparr>)
          else Some (False, region)
        }
        else Some (False, region)
      })"

definition IsFinished :: "VirtualRegion \<Rightarrow> bool" where
  "IsFinished region \<longleftrightarrow> vcount region \<le> vcursor region"

text \<open>A region as it is built and moved: the addresses behind the cursor are still to come.\<close>

definition vr_inv :: "VirtualRegion \<Rightarrow> bool" where
  "vr_inv r \<longleftrightarrow> sorted_wrt (<) (addresses r) \<and> vcount r = int (length (addresses r)) \<and>
     0 \<le> vcursor r \<and> vcursor r \<le> vcount r"

definition pending :: "VirtualRegion \<Rightarrow> u64 list" where
  "pending r = drop (nat (vcursor r)) (addresses r)"

lemma IsFinished_pending: "vr_inv r \<Longrightarrow> IsFinished r \<longleftrightarrow> pending r = []"
  by (auto simp: IsFinished_def vr_inv_def pending_def)

lemma pending_sorted: "vr_inv r \<Longrightarrow> sorted_wrt (<) (pending r)"
  by (simp add: vr_inv_def pending_def sorted_wrt_drop)

lemma vr_inv_set_cursor:
  assumes "vr_inv r" "0 \<le> c" "c \<le> int (length (pending r))"
  shows "vr_inv (r\<lparr>vcursor := vcursor r + c\<rparr>)"
    and "pending (r\<lparr>vcursor := vcursor r + c\<rparr>) = drop (nat c) (pending r)"
  using assms by (auto simp: vr_inv_def pending_def nat_add_distrib add.commute)

lemma dropWhile_less_le:
  assumes "sorted_wrt (<) xs" "a \<notin> set xs"
  shows "dropWhile (\<lambda>x. x < a) xs = dropWhile (\<lambda>x. x \<le> a) (xs :: 'a::linorder list)"
  using assms(2) by (intro dropWhile_cong) (auto simp: le_less)

lemma dropWhile_less_tl:
  assumes "sorted_wrt (<) xs" "a \<in> set xs"
  shows "tl (dropWhile (\<lambda>x. x < a) xs) = dropWhile (\<lambda>x. x \<le> a) (xs :: 'a::linorder list)"
  using assms
proof (induction xs)
  case (Cons x xs)
  show ?case
  proof (cases "x = a")
    case True
    with Cons.prems have "dropWhile (\<lambda>x. x \<le> a) xs = xs"
      by (cases xs) auto
    with True show ?thesis by simp
  next
    case False
    with Cons show ?thesis by auto
  qed
qed simp

text \<open>
  One query answers membership among the pending addresses and drops those not above it.
\<close>

lemma Match_correct:
  assumes inv: "vr_inv r"
  shows "\<exists>r'. Match r a = Some (a \<in> set (pending r), r') \<and> vr_inv r' \<and>
    pending r' = dropWhile (\<lambda>x. x \<le> a) (pending r) \<and>
    r'\<lparr>vcursor := 0\<rparr> = r\<lparr>vcursor := 0\<rparr>"
proof (cases "pending r")
  case Nil
  with inv have "vcount r \<le> vcursor r"
    by (auto simp: vr_inv_def pending_def)
  with Nil inv show ?thesis by (simp add: Match_def)
next
  case (Cons b bs)
  have lt: "\<not> vcount r \<le> vcursor r"
    using Cons inv by (auto simp: vr_inv_def pending_def)
  have b: "index (addresses r) (vcursor r) = Some b"
    using Cons inv lt by (simp add: index_def vr_inv_def pending_def nth_via_drop)
  have rest: "slice (addresses r) (vcursor r) (int (length (addresses r))) = Some (pending r)"
    using inv by (simp add: slice_def vr_inv_def pending_def)
  have srt: "sorted_wrt (<) (b # bs)"
    using pending_sorted [OF inv] Cons by simp
  have one: "vr_inv (r\<lparr>vcursor := vcursor r + 1\<rparr>)" "pending (r\<lparr>vcursor := vcursor r + 1\<rparr>) = bs"
    using vr_inv_set_cursor [OF inv, of 1] Cons by simp_all
  consider "b = a" | "a < b" | "b < a" by (rule linorder_cases)
  then show ?thesis
  proof cases
    case 1
    moreover have "dropWhile (\<lambda>x. x \<le> a) bs = bs"
      using srt 1 by (cases bs) auto
    ultimately show ?thesis
      using lt b one Cons by (simp add: Match_def)
  next
    case 2
    with srt have "a \<notin> set bs" by auto
    moreover have "b \<noteq> a" "\<not> b < a" "\<not> b \<le> a" using 2 by auto
    ultimately show ?thesis
      using lt b Cons inv by (simp add: Match_def)
  next
    case 3
    obtain i found where s: "BinarySearch (pending r) a = (i, found)"
      by (cases "BinarySearch (pending r) a")
    note srt' = sorted_strict [OF pending_sorted [OF inv]]
    have i: "i \<le> length (pending r)" "drop i (pending r) = dropWhile (\<lambda>x. x < a) (pending r)"
      "found \<longleftrightarrow> a \<in> set (pending r)"
      using bs.search_le [OF srt' s] bs.search_drop [OF srt' s] bs.search_member [OF srt' s] by simp_all
    have less: "i < length (pending r)" if found
      using bs.search_found [OF srt' s] that by simp
    let ?r = "r\<lparr>vcursor := vcursor r + int i\<rparr>"
    have r1: "vr_inv ?r" "pending ?r = dropWhile (\<lambda>x. x < a) (pending r)"
      using vr_inv_set_cursor [OF inv, of "int i"] i by simp_all
    have m: "Match r a = Some (found, if found then r\<lparr>vcursor := vcursor r + int i + 1\<rparr> else ?r)"
      using lt b 3 rest s by (auto simp: Match_def Let_def)
    have r2: "vr_inv (r\<lparr>vcursor := vcursor r + int i + 1\<rparr>) \<and>
        pending (r\<lparr>vcursor := vcursor r + int i + 1\<rparr>) = tl (dropWhile (\<lambda>x. x < a) (pending r))" if found
    proof -
      have "1 \<le> int (length (pending ?r))"
        using less [OF that] unfolding r1(2) i(2) [symmetric] by simp
      then show ?thesis
        using vr_inv_set_cursor [OF r1(1), of 1] by (simp add: r1(2) drop_Suc)
    qed
    note tl = dropWhile_less_tl [OF pending_sorted [OF inv], of a]
      dropWhile_less_le [OF pending_sorted [OF inv], of a]
    show ?thesis
    proof (cases found)
      case True
      let ?r2 = "r\<lparr>vcursor := vcursor r + int i + 1\<rparr>"
      have "Match r a = Some (a \<in> set (pending r), ?r2)"
        using m True i(3) by simp
      moreover have "vr_inv ?r2" "pending ?r2 = dropWhile (\<lambda>x. x \<le> a) (pending r)"
        using r2 [OF True] True i(3) tl(1) by simp_all
      ultimately show ?thesis by (intro exI [of _ ?r2]) simp
    next
      case False
      have "Match r a = Some (a \<in> set (pending r), ?r)"
        using m False i(3) by simp
      moreover have "pending ?r = dropWhile (\<lambda>x. x \<le> a) (pending r)"
        using r1(2) False i(3) tl(2) by simp
      ultimately show ?thesis using r1(1) by (intro exI [of _ ?r]) simp
    qed
  qed
qed

text \<open>A run of queries, answered in turn.\<close>

fun match_stream :: "VirtualRegion \<Rightarrow> u64 list \<Rightarrow> (u64 list \<times> VirtualRegion) go" where
  "match_stream r [] = Some ([], r)"
| "match_stream r (a # as) = do {
     (hit, r) \<leftarrow> Match r a;
     (hits, r) \<leftarrow> match_stream r as;
     Some (if hit then a # hits else hits, r)
   }"

lemma in_dropWhile_le:
  assumes "sorted_wrt (<) xs" "a < q"
  shows "q \<in> set (dropWhile (\<lambda>x. x \<le> a) xs) \<longleftrightarrow> q \<in> set (xs :: 'a::linorder list)"
  using assms by (induction xs) auto

text \<open>
  C19: asked about strictly ascending addresses, the cursor answers true for exactly
  those that are pending, never panics, and its region stays well-formed.
\<close>

theorem match_stream_filters:
  assumes "vr_inv r" "sorted_wrt (<) qs"
  shows "\<exists>r'. match_stream r qs = Some (filter (\<lambda>q. q \<in> set (pending r)) qs, r') \<and> vr_inv r'"
  using assms
proof (induction qs arbitrary: r)
  case (Cons a qs)
  from Match_correct [OF Cons.prems(1), of a] obtain r1 where
    r1: "Match r a = Some (a \<in> set (pending r), r1)" "vr_inv r1"
      "pending r1 = dropWhile (\<lambda>x. x \<le> a) (pending r)"
    by blast
  have "filter (\<lambda>q. q \<in> set (pending r1)) qs = filter (\<lambda>q. q \<in> set (pending r)) qs"
    using Cons.prems in_dropWhile_le [OF pending_sorted [OF Cons.prems(1)]]
    by (intro filter_cong) (auto simp: r1(3))
  with Cons.IH [OF r1(2)] Cons.prems(2) r1(1) show ?case by auto
qed simp

definition sample_vregion :: VirtualRegion where
  "sample_vregion = \<lparr>vStart = 0x1000, vEnd = 0x2000, vSize = 0x1000,
     addresses = [0x1004, 0x1010, 0x1018], vcount = 3, vcursor = 0\<rparr>"

theorem match_stream_filters_witness:
  "\<exists>r'. match_stream sample_vregion [0x1000, 0x1004, 0x1014, 0x1018] = Some ([0x1004, 0x1018], r') \<and> vr_inv r'"
  using match_stream_filters [of sample_vregion "[0x1000, 0x1004, 0x1014, 0x1018]"]
  by (simp add: sample_vregion_def vr_inv_def pending_def)

section \<open>Building the regions\<close>

definition mk_vregion :: "u64 \<Rightarrow> u64 \<Rightarrow> u64 \<Rightarrow> u64 list \<Rightarrow> VirtualRegion" where
  "mk_vregion regionStartAddr lastAddr valueSize addrs =
     (let e = page_floor (lastAddr + valueSize + 0xFFF) in
      \<lparr>vStart = regionStartAddr, vEnd = e, vSize = e - regionStartAddr,
       addresses = addrs, vcount = int (length addrs), vcursor = 0\<rparr>)"

type_synonym bvr_state = "nat \<times> u64 \<times> VirtualRegion list"

text \<open>The body of the loop over \<open>i\<close>, on \<open>currentStartIdx\<close>, \<open>regionStartAddr\<close> and \<open>regions\<close>.\<close>

definition bvr_step :: "u64 list \<Rightarrow> u64 \<Rightarrow> nat \<Rightarrow> bvr_state \<Rightarrow> bvr_state" where
  "bvr_step addrs valueSize i = (\<lambda>(currentStartIdx, regionStartAddr, regions).
     let addr = addrs ! i in
     if regionLargeSize < (addr + valueSize) - regionStartAddr then
       (i, page_floor addr,
        regions @ [mk_vregion regionStartAddr (addrs ! (i - 1)) valueSize
                     (take (i - currentStartIdx) (drop currentStartIdx addrs))])
     else (currentStartIdx, regionStartAddr, regions))"

definition BuildVirtualRegions :: "u64 list \<Rightarrow> u64 \<Rightarrow> VirtualRegion list" where
  "BuildVirtualRegions addrs valueSize =
     (if addrs = [] then []
      else
        let (currentStartIdx, regionStartAddr, regions) =
              fold (bvr_step addrs valueSize) [1..<length addrs] (0, page_floor (addrs ! 0), []) in
        regions @ [mk_vregion regionStartAddr (addrs ! (length addrs - 1)) valueSize
                     (drop currentStartIdx addrs)])"

lemma addresses_mk_vregion [simp]: "addresses (mk_vregion s l v as) = as"
  by (simp add: mk_vregion_def Let_def)

text \<open>What one finished group satisfies, for values of \<open>valueSize\<close> bytes.\<close>

definition vr_good :: "u64 \<Rightarrow> VirtualRegion \<Rightarrow> bool" where
  "vr_good valueSize r \<longleftrightarrow>
     addresses r \<noteq> [] \<and> vr_inv r \<and> pending r = addresses r \<and>
     page_aligned (vStart r) \<and> page_aligned (vEnd r) \<and> vStart r < vEnd r \<and>
     vSize r = vEnd r - vStart r \<and> unat (vSize r) \<le> 2097152 \<and>
     (\<forall>a \<in> set (addresses r). unat (vStart r) \<le> unat a \<and> unat a + unat valueSize \<le> unat (vEnd r))"

text \<open>Addresses for which no sum of the function wraps.\<close>

definition bvr_pre :: "u64 \<Rightarrow> u64 list \<Rightarrow> bool" where
  "bvr_pre valueSize addrs \<longleftrightarrow> sorted_wrt (<) addrs \<and> 0 < unat valueSize \<and> unat valueSize \<le> 4096 \<and>
     (\<forall>a \<in> set addrs. unat a < 2 ^ 63)"

lemma mk_vregion_good:
  assumes pre: "bvr_pre valueSize as" and ne: "as \<noteq> []"
    and span: "unat ((last as + valueSize) - page_floor (hd as)) \<le> 2097152"
  shows "vr_good valueSize (mk_vregion (page_floor (hd as)) (last as) valueSize as)"
proof -
  define s e where "s = page_floor (hd as)" and "e = page_ceil (last as + valueSize)"
  have last: "unat (last as) < 2 ^ 63" and srt: "sorted_wrt (<) as"
    and size: "0 < unat valueSize" "unat valueSize \<le> 4096"
    using pre ne by (auto simp: bvr_pre_def)
  have hd_le: "hd as \<le> a" if "a \<in> set as" for a
    using srt that by (cases as) auto
  have le_last: "a \<le> last as" if "a \<in> set as" for a
    using srt that by (rule strict_sorted_le_last)
  have sum: "unat (last as + valueSize) = unat (last as) + unat valueSize"
    using last size by (subst unat_add_lem [THEN iffD1]) simp_all
  have ceil: "unat (last as + valueSize) \<le> unat e"
    using page_ceil_bounds [of "last as + valueSize"] last size by (simp add: sum e_def)
  have s_le: "unat s \<le> unat a" if "a \<in> set as" for a
    using page_floor_le [of "hd as"] hd_le [OF that] by (simp add: s_def word_le_nat_alt)
  have fits: "unat a + unat valueSize \<le> unat e" if "a \<in> set as" for a
    using le_last [OF that] ceil by (simp add: sum word_le_nat_alt)
  have s_e: "s < e"
    using s_le [OF last_in_set [OF ne]] fits [OF last_in_set [OF ne]] size
    by (simp add: word_less_nat_alt)
  have "unat (last as + valueSize) \<le> unat s + 2097152"
    using span s_le [OF last_in_set [OF ne]] sum by (simp add: unat_sub word_le_nat_alt flip: s_def)
  moreover have s_big: "unat (s + 2097152) = unat s + 2097152"
    using s_le [OF last_in_set [OF ne]] last by (subst unat_add_lem [THEN iffD1]) simp_all
  moreover have "page_aligned (s + 2097152)"
    using s_le [OF last_in_set [OF ne]] last
    by (intro page_aligned_add) (simp_all add: s_def page_aligned_def [of 2097152])
  ultimately have "unat e \<le> unat s + 2097152"
    using page_ceil_least [of "last as + valueSize" "s + 2097152"] last size
    by (simp add: e_def sum)
  then have "unat (e - s) \<le> 2097152"
    using s_e by (simp add: unat_sub)
  then show ?thesis
    using ne srt s_e s_le fits
    by (simp add: vr_good_def mk_vregion_def Let_def vr_inv_def pending_def s_def
        flip: page_ceil_def e_def) (simp add: e_def)
qed

lemma first_span:
  assumes "unat a < 2 ^ 63" "unat valueSize \<le> 4096"
  shows "unat ((a + valueSize) - page_floor a) \<le> 2097152"
proof -
  have "unat (a + valueSize) = unat a + unat valueSize"
    using assms by (subst unat_add_lem [THEN iffD1]) simp_all
  then show ?thesis
    using page_floor_le [of a] page_floor_gt [of a] assms
    by (simp add: unat_sub word_le_nat_alt)
qed

text \<open>What the loop maintains in front of index \<open>i\<close>.\<close>

definition bvr_inv :: "u64 list \<Rightarrow> u64 \<Rightarrow> nat \<Rightarrow> bvr_state \<Rightarrow> bool" where
  "bvr_inv addrs valueSize i = (\<lambda>(c, s, regions).
     c < i \<and> s = page_floor (addrs ! c) \<and>
     concat (map addresses regions) = take c addrs \<and>
     (bvr_pre valueSize addrs \<longrightarrow>
        unat ((addrs ! (i - 1) + valueSize) - s) \<le> 2097152 \<and> list_all (vr_good valueSize) regions))"

lemma bvr_pre_sub:
  "bvr_pre valueSize addrs \<Longrightarrow> bvr_pre valueSize (take n (drop m addrs))"
  by (auto simp: bvr_pre_def sorted_wrt_take sorted_wrt_drop dest: in_set_takeD in_set_dropD)

lemma group_good:
  assumes "bvr_inv addrs valueSize i (c, s, regions)" "i \<le> length addrs" "bvr_pre valueSize addrs"
  shows "vr_good valueSize (mk_vregion s (addrs ! (i - 1)) valueSize (take (i - c) (drop c addrs)))"
proof -
  let ?g = "take (i - c) (drop c addrs)"
  have "hd ?g = addrs ! c" "last ?g = addrs ! (i - 1)" "?g \<noteq> []"
    using assms(1,2) by (auto simp: bvr_inv_def hd_conv_nth last_conv_nth)
  moreover have "s = page_floor (addrs ! c)" "unat ((addrs ! (i - 1) + valueSize) - s) \<le> 2097152"
    using assms(1,3) by (auto simp: bvr_inv_def)
  ultimately show ?thesis
    using mk_vregion_good [OF bvr_pre_sub [OF assms(3)], of "i - c" c] by metis
qed

lemma bvr_step_inv:
  assumes inv: "bvr_inv addrs valueSize i st" and i: "i < length addrs"
  shows "bvr_inv addrs valueSize (Suc i) (bvr_step addrs valueSize i st)"
proof -
  obtain c s regions where st: "st = (c, s, regions)" by (cases st)
  let ?big = "regionLargeSize < (addrs ! i + valueSize) - s"
  have c: "c < i" "concat (map addresses regions) = take c addrs"
    using inv by (simp_all add: st bvr_inv_def)
  have split: "take c addrs @ take (i - c) (drop c addrs) = take i addrs"
    using c(1) by (simp flip: take_add)
  have span: "unat ((addrs ! i + valueSize) - page_floor (addrs ! i)) \<le> 2097152"
    if "bvr_pre valueSize addrs"
    using that i by (intro first_span) (auto simp: bvr_pre_def)
  show ?thesis
  proof (cases ?big)
    case True
    with inv group_good [OF inv [unfolded st]] i c split span show ?thesis
      by (simp add: st bvr_step_def bvr_inv_def)
  next
    case False
    with inv c show ?thesis
      by (simp add: st bvr_step_def bvr_inv_def regionLargeSize_val word_less_nat_alt)
  qed
qed

lemma bvr_fold_inv:
  assumes "1 \<le> n" "n \<le> length addrs"
  shows "bvr_inv addrs valueSize n
    (fold (bvr_step addrs valueSize) [1..<n] (0, page_floor (addrs ! 0), []))"
  using assms
proof (induction n rule: nat_induct_at_least [where m = 1])
  case base
  have "unat ((addrs ! 0 + valueSize) - page_floor (addrs ! 0)) \<le> 2097152"
    if "bvr_pre valueSize addrs"
    using that base nth_mem [of 0 addrs] by (intro first_span) (auto simp: bvr_pre_def Suc_le_eq simp del: nth_mem)
  then show ?case by (simp add: bvr_inv_def)
next
  case (Suc n)
  then have "bvr_inv addrs valueSize (Suc n) (bvr_step addrs valueSize n
      (fold (bvr_step addrs valueSize) [1..<n] (0, page_floor (addrs ! 0), [])))"
    by (intro bvr_step_inv) simp_all
  with Suc.hyps show ?case by simp
qed

lemma BuildVirtualRegions_unfold:
  assumes "addrs \<noteq> []"
  obtains c s regions where "bvr_inv addrs valueSize (length addrs) (c, s, regions)"
    "BuildVirtualRegions addrs valueSize = regions @
       [mk_vregion s (addrs ! (length addrs - 1)) valueSize (take (length addrs - c) (drop c addrs))]"
proof -
  define st where "st = fold (bvr_step addrs valueSize) [1..<length addrs] (0, page_floor (addrs ! 0), [])"
  obtain c s regions where st: "st = (c, s, regions)" by (cases st)
  have "bvr_inv addrs valueSize (length addrs) st"
    unfolding st_def using assms by (intro bvr_fold_inv) (auto simp: Suc_le_eq)
  moreover have "BuildVirtualRegions addrs valueSize = regions @
       [mk_vregion s (addrs ! (length addrs - 1)) valueSize (take (length addrs - c) (drop c addrs))]"
    using assms st by (simp add: BuildVirtualRegions_def st_def)
  ultimately show ?thesis using that st by blast
qed

lemma regions_partition:
  "concat (map addresses (BuildVirtualRegions addrs valueSize)) = addrs"
proof (cases "addrs = []")
  case True
  then show ?thesis by (simp add: BuildVirtualRegions_def)
next
  case False
  obtain c s regions where r: "bvr_inv addrs valueSize (length addrs) (c, s, regions)"
    "BuildVirtualRegions addrs valueSize = regions @
       [mk_vregion s (addrs ! (length addrs - 1)) valueSize (take (length addrs - c) (drop c addrs))]"
    by (rule BuildVirtualRegions_unfold [OF False])
  then show ?thesis by (simp add: bvr_inv_def)
qed

lemma regions_good:
  assumes "bvr_pre valueSize addrs"
  shows "list_all (vr_good valueSize) (BuildVirtualRegions addrs valueSize)"
proof (cases "addrs = []")
  case True
  then show ?thesis by (simp add: BuildVirtualRegions_def)
next
  case False
  obtain c s regions where r: "bvr_inv addrs valueSize (length addrs) (c, s, regions)"
    "BuildVirtualRegions addrs valueSize = regions @
       [mk_vregion s (addrs ! (length addrs - 1)) valueSize (take (length addrs - c) (drop c addrs))]"
    by (rule BuildVirtualRegions_unfold [OF False])
  with group_good [OF r(1) order_refl assms] assms show ?thesis
    by (simp add: bvr_inv_def)
qed

text \<open>
  C17: whatever the addresses and the value size, the groups taken in order are exactly
  the input addresses: none is lost, duplicated or moved to another place.
\<close>

theorem BuildVirtualRegions_partition:
  "concat (map addresses (BuildVirtualRegions addrs valueSize)) = addrs"
  by (rule regions_partition)

text \<open>
  C18: for ascending user-space addresses and values of at most a page, every group is a
  page-aligned, non-empty span of at most 2 MiB that holds the full value at each of its
  addresses, with its cursor at the first address.
\<close>

theorem BuildVirtualRegions_good:
  assumes "bvr_pre valueSize addrs"
  shows "list_all (vr_good valueSize) (BuildVirtualRegions addrs valueSize)"
  by (rule regions_good [OF assms])

theorem BuildVirtualRegions_good_witness:
  "list_all (vr_good 4) (BuildVirtualRegions [0x1004, 0x5000, 0x7F0000000000] 4) \<and>
   length (BuildVirtualRegions [0x1004, 0x5000, 0x7F0000000000] 4) = 2"
proof
  show "list_all (vr_good 4) (BuildVirtualRegions [0x1004, 0x5000, 0x7F0000000000] 4)"
    by (rule BuildVirtualRegions_good) (simp add: bvr_pre_def)
  show "length (BuildVirtualRegions [0x1004, 0x5000, 0x7F0000000000] 4) = 2"
    by (simp add: BuildVirtualRegions_def bvr_step_def upt_rec page_floor_def regionLargeSize_val)
qed

end
