(* ===== verification/Mmap.thy ===== *)
theory Mmap
  imports GoStdlib
begin

text \<open>
  The off-heap result array (\<^verbatim>\<open>mmap.go\<close>): an anonymous mapping seen as a slice of
  64-bit words with a fill cursor. Whether the kernel grants a mapping of a size is the
  parameter \<open>sys\<close>; a granted mapping is zero-filled, and remapping keeps the contents.
\<close>

record MmapUint64 =
  mm_data :: "u64 list"
  mm_raw :: nat
  mm_cursor :: u64

datatype mmap_error = ErrCapacityExceeded | ErrMergeGrow | ErrSyscall

text \<open>The number of bytes of the mapping is kept for \<open>len(m.raw)\<close>.\<close>

definition NewMmapUint64 :: "(nat \<Rightarrow> bool) \<Rightarrow> nat \<Rightarrow> MmapUint64 option go" where
  "NewMmapUint64 sys caps =
     (let size = caps * 8 in
      if \<not> sys size then Some None
      else if size = 0 then None
      else Some (Some \<lparr>mm_data = replicate caps 0, mm_raw = size, mm_cursor = 0\<rparr>))"

definition mm_Data :: "MmapUint64 \<Rightarrow> u64 list go" where
  "mm_Data m = slice (mm_data m) 0 (uint (mm_cursor m))"

definition mm_Len :: "MmapUint64 \<Rightarrow> int" where
  "mm_Len m = sint (mm_cursor m)"

definition mm_grow :: "(nat \<Rightarrow> bool) \<Rightarrow> nat \<Rightarrow> MmapUint64 \<Rightarrow> mmap_error option \<times> MmapUint64" where
  "mm_grow sys caps m =
     (if caps \<le> length (mm_data m) then (None, m)
      else
        let size = caps * 8 in
        if \<not> sys size then (Some ErrSyscall, m)
        else (None, m\<lparr>mm_raw := size,
                       mm_data := mm_data m @ replicate (caps - length (mm_data m)) 0\<rparr>))"

text \<open>The block of \<open>Merge\<close> that makes room for \<open>newCount\<close> items.\<close>

definition mm_ensure :: "(nat \<Rightarrow> bool) \<Rightarrow> u64 \<Rightarrow> MmapUint64 \<Rightarrow> mmap_error option \<times> MmapUint64" where
  "mm_ensure sys newCount m =
     (if of_nat (length (mm_data m)) < newCount then
        let newCap = length (mm_data m) * 2;
            newCap = (if of_nat newCap < newCount then unat newCount else newCap)
        in mm_grow sys newCap m
      else (None, m))"

definition mm_Merge ::
  "(nat \<Rightarrow> bool) \<Rightarrow> MmapUint64 option \<Rightarrow> MmapUint64 \<Rightarrow> (mmap_error option \<times> MmapUint64) go" where
  "mm_Merge sys other m =
     (case other of
        None \<Rightarrow> Some (None, m)
      | Some other \<Rightarrow>
          let n = of_int (mm_Len other) :: u64 in
          if n = 0 then Some (None, m)
          else
            let (err, m) = mm_ensure sys (mm_cursor m + n) m in
            if err \<noteq> None then Some (Some ErrMergeGrow, m)
            else do {
              dst \<leftarrow> slice (mm_data m) (uint (mm_cursor m)) (int (length (mm_data m)));
              src \<leftarrow> mm_Data other;
              Some (None, m\<lparr>mm_data := copy_at (mm_data m) (unat (mm_cursor m)) src,
                            mm_cursor := mm_cursor m + n\<rparr>)
            })"

definition mm_Put :: "u64 list \<Rightarrow> MmapUint64 \<Rightarrow> (mmap_error option \<times> MmapUint64) go" where
  "mm_Put items m =
     (let n = of_nat (length items) :: u64 in
      if n = 0 then Some (None, m)
      else
        let startIdx = mm_cursor m;
            m = m\<lparr>mm_cursor := startIdx + n\<rparr> in
        if of_nat (length (mm_data m)) < startIdx + n then Some (Some ErrCapacityExceeded, m)
        else do {
          dst \<leftarrow> slice (mm_data m) (uint startIdx) (int (length (mm_data m)));
          Some (None, m\<lparr>mm_data := copy_at (mm_data m) (unat startIdx) items\<rparr>)
        })"

definition mm_Index :: "int \<Rightarrow> MmapUint64 \<Rightarrow> (u64 \<times> bool) go" where
  "mm_Index offset m =
     (if offset < 0 then Some (0, False)
      else if mm_Len m \<le> offset then Some (0, False)
      else do { x \<leftarrow> index (mm_data m) offset; Some (x, True) })"

definition mm_GetN :: "int \<Rightarrow> int \<Rightarrow> MmapUint64 \<Rightarrow> u64 list go" where
  "mm_GetN offset n m =
     (if offset < 0 \<or> n < 1 then Some []
      else if mm_Len m \<le> offset then Some []
      else
        let end' = (if mm_Len m < offset + n then mm_Len m else offset + n) in
        slice (mm_data m) offset end')"

text \<open>Dropping the pages of an anonymous private mapping makes it read as zeros again.\<close>

definition mm_Clear :: "MmapUint64 \<Rightarrow> MmapUint64" where
  "mm_Clear m =
     (let m = m\<lparr>mm_cursor := 0\<rparr> in
      if 0 < mm_raw m then m\<lparr>mm_data := replicate (length (mm_data m)) 0\<rparr> else m)"

definition mm_Destroy :: "MmapUint64 \<Rightarrow> MmapUint64" where
  "mm_Destroy m =
     (if 0 < mm_raw m then m\<lparr>mm_raw := 0, mm_data := [], mm_cursor := 0\<rparr> else m)"

section \<open>The abstract contents\<close>

definition mm_contents :: "MmapUint64 \<Rightarrow> u64 list" where
  "mm_contents m = take (unat (mm_cursor m)) (mm_data m)"

definition mm_inv :: "MmapUint64 \<Rightarrow> bool" where
  "mm_inv m \<longleftrightarrow> unat (mm_cursor m) \<le> length (mm_data m) \<and> length (mm_data m) < 2 ^ 60"

definition mm_capacity :: "MmapUint64 \<Rightarrow> nat" where
  "mm_capacity m = length (mm_data m)"

lemma slice_uint:
  "slice xs 0 (uint (w :: u64)) = (if unat w \<le> length xs then Some (take (unat w) xs) else None)"
  by (simp add: slice_def uint_le_int)

lemma mm_inv_cursor: "mm_inv m \<Longrightarrow> unat (mm_cursor m) < 2 ^ 60"
  by (simp add: mm_inv_def)

lemma mm_Len_inv: "mm_inv m \<Longrightarrow> mm_Len m = int (length (mm_contents m))"
  by (simp add: mm_Len_def sint_unat64 mm_contents_def mm_inv_def)

lemma mm_Data_inv: "mm_inv m \<Longrightarrow> mm_Data m = Some (mm_contents m)"
  by (simp add: mm_Data_def mm_contents_def mm_inv_def slice_uint)

section \<open>Appending\<close>

lemma mm_append_copy:
  assumes "mm_inv m" "length (mm_contents m) + length src \<le> mm_capacity m"
    and "m' = m\<lparr>mm_data := copy_at (mm_data m) (unat (mm_cursor m)) src,
                mm_cursor := mm_cursor m + of_nat (length src)\<rparr>"
  shows "mm_inv m' \<and> mm_contents m' = mm_contents m @ src \<and> mm_capacity m' = mm_capacity m"
proof -
  define c where "c = unat (mm_cursor m)"
  have b: "c + length src \<le> length (mm_data m)" "length (mm_data m) < 2 ^ 60"
    using assms by (simp_all add: mm_inv_def mm_contents_def mm_capacity_def c_def)
  have u: "unat (mm_cursor m + of_nat (length src)) = c + length src"
    using b by (simp add: unat_word_ariths unat_of_nat c_def)
  have "length (copy_at (mm_data m) c src) = length (mm_data m)"
    using b by (intro length_copy_at) simp
  moreover have "take (c + length src) (copy_at (mm_data m) c src) = take c (mm_data m) @ src"
    using b by (intro take_copy_at) simp
  ultimately show ?thesis
    using b u by (simp add: assms(3) mm_inv_def mm_contents_def mm_capacity_def flip: c_def)
qed

lemma mm_Put_fits:
  assumes "mm_inv m" "length (mm_contents m) + length items \<le> mm_capacity m"
  shows "\<exists>m'. mm_Put items m = Some (None, m') \<and> mm_inv m' \<and>
    mm_contents m' = mm_contents m @ items \<and> mm_capacity m' = mm_capacity m"
proof (cases "items = []")
  case True
  with assms show ?thesis by (simp add: mm_Put_def)
next
  case False
  define n c where "n = length items" and "c = unat (mm_cursor m)"
  have b: "c + n \<le> length (mm_data m)" "length (mm_data m) < 2 ^ 60"
    using assms by (simp_all add: mm_inv_def mm_contents_def mm_capacity_def n_def c_def)
  have u: "unat (of_nat n :: u64) = n" "unat (mm_cursor m + of_nat n) = c + n"
    "unat (of_nat (length (mm_data m)) :: u64) = length (mm_data m)"
    using b by (simp_all add: unat_word_ariths unat_of_nat c_def)
  have nz: "(of_nat n :: u64) \<noteq> 0"
    using u(1) False by (metis length_0_conv n_def unat_0)
  have le: "\<not> of_nat (length (mm_data m)) < mm_cursor m + of_nat n"
    using u b by (simp add: word_less_nat_alt)
  have "uint (mm_cursor m) \<le> int (length (mm_data m))"
    using b by (simp add: uint_le_int c_def)
  then have "mm_Put items m = Some (None, m\<lparr>mm_data := copy_at (mm_data m) c items,
      mm_cursor := mm_cursor m + of_nat n\<rparr>)"
    using nz le by (simp add: mm_Put_def Let_def n_def c_def)
  with mm_append_copy [OF assms refl] show ?thesis
    by (simp add: n_def c_def)
qed

lemma mm_Put_overflow:
  assumes "mm_inv m" "mm_capacity m < length (mm_contents m) + length items" "length items < 2 ^ 60"
  shows "mm_Put items m =
      Some (Some ErrCapacityExceeded, m\<lparr>mm_cursor := mm_cursor m + of_nat (length items)\<rparr>)"
    and "mm_Data (m\<lparr>mm_cursor := mm_cursor m + of_nat (length items)\<rparr>) = None"
proof -
  define n c where "n = length items" and "c = unat (mm_cursor m)"
  have b: "length (mm_data m) < c + n" "c < 2 ^ 60" "n < 2 ^ 60" "0 < n" "length (mm_data m) < 2 ^ 60"
    using assms by (auto simp: mm_inv_def mm_contents_def mm_capacity_def n_def c_def)
  have u: "unat (of_nat n :: u64) = n" "unat (mm_cursor m + of_nat n) = c + n"
    "unat (of_nat (length (mm_data m)) :: u64) = length (mm_data m)"
    using b by (simp_all add: unat_word_ariths unat_of_nat c_def)
  have nz: "(of_nat n :: u64) \<noteq> 0"
    using u(1) b by (metis less_irrefl unat_0)
  have le: "of_nat (length (mm_data m)) < mm_cursor m + of_nat n"
    using u b by (simp add: word_less_nat_alt)
  show "mm_Put items m =
      Some (Some ErrCapacityExceeded, m\<lparr>mm_cursor := mm_cursor m + of_nat (length items)\<rparr>)"
    using nz le by (simp add: mm_Put_def Let_def n_def)
  show "mm_Data (m\<lparr>mm_cursor := mm_cursor m + of_nat (length items)\<rparr>) = None"
    using b u by (simp add: mm_Data_def slice_uint flip: n_def)
qed

text \<open>
  \<open>Put\<close> never panics on a well-formed array. Within the capacity it appends its items to the
  contents and reports no error; beyond the capacity it reports the error and stores nothing.
\<close>

lemma mm_Put_behaviour:
  assumes "mm_inv m" "length items < 2 ^ 60"
  shows "\<exists>err m'. mm_Put items m = Some (err, m') \<and>
    (if length (mm_contents m) + length items \<le> mm_capacity m
     then err = None \<and> mm_inv m' \<and> mm_contents m' = mm_contents m @ items
     else err = Some ErrCapacityExceeded \<and> mm_data m' = mm_data m)"
proof (cases "length (mm_contents m) + length items \<le> mm_capacity m")
  case True
  with mm_Put_fits [OF assms(1)] show ?thesis by fastforce
next
  case False
  with mm_Put_overflow(1) [OF assms(1) _ assms(2)] show ?thesis by simp
qed

definition sample_mmap :: MmapUint64 where
  "sample_mmap = \<lparr>mm_data = [7, 8, 0, 0], mm_raw = 32, mm_cursor = 2\<rparr>"

lemma sample_mmap_inv: "mm_inv sample_mmap"
  by (simp add: mm_inv_def sample_mmap_def)

lemma mm_grow_fits:
  assumes "mm_inv m" "caps < 2 ^ 60" "mm_grow sys caps m = (None, m')"
  shows "mm_inv m' \<and> mm_contents m' = mm_contents m \<and> mm_cursor m' = mm_cursor m \<and> caps \<le> mm_capacity m' \<and>
    mm_capacity m' \<le> max (mm_capacity m) caps"
  using assms by (auto simp: mm_grow_def mm_inv_def mm_contents_def mm_capacity_def Let_def split: if_splits)

lemma mm_ensure_fits:
  assumes "mm_inv m" "2 * length (mm_data m) < 2 ^ 60" "unat newCount < 2 ^ 60"
    and "mm_ensure sys newCount m = (None, m')"
  shows "mm_inv m' \<and> mm_contents m' = mm_contents m \<and> mm_cursor m' = mm_cursor m \<and>
    unat newCount \<le> mm_capacity m' \<and> mm_capacity m' \<le> max (mm_capacity m) (2 * unat newCount)"
proof (cases "of_nat (length (mm_data m)) < newCount")
  case True
  define newCap where "newCap = (if of_nat (length (mm_data m) * 2) < newCount
    then unat newCount else length (mm_data m) * 2)"
  have "newCap < 2 ^ 60" "unat newCount \<le> newCap" "newCap \<le> 2 * unat newCount"
    using assms(2,3) True unat_of_nat64 [of "length (mm_data m)"] unat_of_nat64 [of "length (mm_data m) * 2"]
    by (auto simp: newCap_def word_less_nat_alt not_less simp del: of_nat_mult)
  moreover have "mm_grow sys newCap m = (None, m')"
    using True assms(4) by (simp add: mm_ensure_def newCap_def Let_def)
  ultimately show ?thesis
    using mm_grow_fits [OF assms(1), of newCap sys m'] by auto
next
  case False
  with assms show ?thesis
    using unat_of_nat64 [of "length (mm_data m)"]
    by (auto simp: mm_ensure_def mm_capacity_def word_less_nat_alt)
qed

lemma mm_ensure_fails:
  assumes "mm_inv m" "mm_ensure sys newCount m = (Some e, m')"
  shows "m' = m \<and> mm_capacity m < unat newCount"
  using assms unat_of_nat64 [of "length (mm_data m)"]
  by (auto simp: mm_ensure_def mm_grow_def mm_capacity_def mm_inv_def word_less_nat_alt Let_def
      split: if_splits)

lemma mm_Merge_fits:
  assumes "mm_inv m" "mm_inv other"
    and "2 * length (mm_data m) < 2 ^ 60" "length (mm_contents m) + length (mm_contents other) < 2 ^ 60"
  shows "(\<exists>m'. mm_Merge sys (Some other) m = Some (None, m') \<and> mm_inv m' \<and>
             mm_contents m' = mm_contents m @ mm_contents other \<and>
             mm_capacity m' \<le> max (mm_capacity m) (2 * (length (mm_contents m) + length (mm_contents other)))) \<or>
    (mm_Merge sys (Some other) m = Some (Some ErrMergeGrow, m) \<and>
     mm_capacity m < length (mm_contents m) + length (mm_contents other))"
proof -
  define n where "n = length (mm_contents other)"
  have c: "unat (mm_cursor m) = length (mm_contents m)"
    using assms(1) by (simp add: mm_inv_def mm_contents_def)
  have len: "(of_int (mm_Len other) :: u64) = of_nat n"
    by (simp add: mm_Len_inv [OF assms(2)] n_def)
  have u: "unat (of_nat n :: u64) = n" "unat (mm_cursor m + of_nat n) = length (mm_contents m) + n"
    using assms(4) c by (simp_all add: n_def unat_word_ariths unat_of_nat)
  show ?thesis
  proof (cases "n = 0")
    case True
    then have "mm_contents other = []" by (simp add: n_def)
    with True assms show ?thesis by (simp add: mm_Merge_def len)
  next
    case False
    then have nz: "(of_nat n :: u64) \<noteq> 0" using u(1) by (metis unat_0)
    obtain err m1 where s: "mm_ensure sys (mm_cursor m + of_nat n) m = (err, m1)"
      by (cases "mm_ensure sys (mm_cursor m + of_nat n) m")
    show ?thesis
    proof (cases err)
      case None
      with mm_ensure_fits [OF assms(1,3), of "mm_cursor m + of_nat n" sys m1] s u(2) assms(4)
      have m1: "mm_inv m1" "mm_contents m1 = mm_contents m" "mm_cursor m1 = mm_cursor m"
        "length (mm_contents m) + n \<le> mm_capacity m1"
        "mm_capacity m1 \<le> max (mm_capacity m) (2 * (length (mm_contents m) + n))"
        by (auto simp: n_def)
      let ?m2 = "m1\<lparr>mm_data := copy_at (mm_data m1) (unat (mm_cursor m1)) (mm_contents other),
                    mm_cursor := mm_cursor m1 + of_nat n\<rparr>"
      have "uint (mm_cursor m1) \<le> int (length (mm_data m1))"
        using m1(1) by (simp only: uint_le_int mm_inv_def)
      then have "mm_Merge sys (Some other) m = Some (None, ?m2)"
        using s nz None by (simp add: mm_Merge_def len mm_Data_inv [OF assms(2)])
      with mm_append_copy [OF m1(1), of "mm_contents other" ?m2] m1 show ?thesis
        by (simp add: n_def)
    next
      case (Some e)
      with s mm_ensure_fails [OF assms(1), of sys "mm_cursor m + of_nat n" e m1] u(2)
      have "m1 = m" "mm_capacity m < length (mm_contents m) + n"
        by simp_all
      with s nz Some show ?thesis
        by (simp add: mm_Merge_def len n_def)
    qed
  qed
qed

lemma mm_grow_granted: "sys (caps * 8) \<Longrightarrow> fst (mm_grow sys caps m) = None"
  by (simp add: mm_grow_def Let_def)

lemma mm_Merge_granted:
  assumes "mm_inv m" "mm_inv other" "2 * length (mm_data m) < 2 ^ 60"
    and "length (mm_contents m) + length (mm_contents other) < 2 ^ 60" "\<forall>k. sys k"
  shows "\<exists>m'. mm_Merge sys (Some other) m = Some (None, m') \<and> mm_inv m' \<and>
    mm_contents m' = mm_contents m @ mm_contents other \<and>
    mm_capacity m' \<le> max (mm_capacity m) (2 * (length (mm_contents m) + length (mm_contents other)))"
proof -
  have "mm_Merge sys (Some other) m \<noteq> Some (Some ErrMergeGrow, m)"
    using mm_grow_granted [of sys _ m] assms(5)
    by (auto simp: mm_Merge_def mm_ensure_def Let_def split: prod.splits if_splits Option.bind_splits) (metis fst_conv option.distinct(1))+
  with mm_Merge_fits [OF assms(1-4), of sys] show ?thesis by blast
qed

text \<open>
  C30: \<open>Merge\<close> appends the other array's contents, growing first when they do not fit;
  it fails only when the kernel refuses the larger mapping, and then changes nothing.
\<close>

theorem mm_Merge_appends:
  assumes "mm_inv m" "mm_inv other"
    and "2 * length (mm_data m) < 2 ^ 60" "length (mm_contents m) + length (mm_contents other) < 2 ^ 60"
  shows "(\<exists>m'. mm_Merge sys (Some other) m = Some (None, m') \<and> mm_inv m' \<and>
             mm_contents m' = mm_contents m @ mm_contents other) \<or>
    (mm_Merge sys (Some other) m = Some (Some ErrMergeGrow, m) \<and>
     mm_capacity m < length (mm_contents m) + length (mm_contents other))"
  using mm_Merge_fits [OF assms, of sys] by blast

theorem mm_Merge_appends_witness:
  "\<exists>m'. mm_Merge (\<lambda>_. True) (Some sample_mmap) sample_mmap = Some (None, m') \<and>
     mm_contents m' = [7, 8, 7, 8]"
  using mm_Merge_appends [OF sample_mmap_inv sample_mmap_inv, of "\<lambda>_. True"]
  by (auto simp: mm_contents_def mm_capacity_def sample_mmap_def)

text \<open>
  An array filled past its capacity is a trap: \<open>Put\<close> has moved the cursor although it
  stored nothing, so the next \<open>Merge\<close> of that array panics on its \<open>Data()\<close> even
  when the kernel grants every mapping.
\<close>

lemma mm_overflow_Merge_panics:
  assumes "mm_inv buf" "mm_capacity buf < length (mm_contents buf) + length items" "length items < 2 ^ 60"
    and "mm_inv m"
  shows "\<exists>buf'. mm_Put items buf = Some (Some ErrCapacityExceeded, buf') \<and>
    mm_Merge (\<lambda>_. True) (Some buf') m = None"
proof -
  define buf' where "buf' = buf\<lparr>mm_cursor := mm_cursor buf + of_nat (length items)\<rparr>"
  define n where "n = unat (mm_cursor buf) + length items"
  have bounds: "unat (mm_cursor buf) < 2 ^ 60" "length (mm_data buf) < n"
    using assms(1,2) by (auto simp: mm_inv_def mm_contents_def mm_capacity_def n_def)
  have un: "unat (mm_cursor buf') = n"
    using bounds assms(3) by (simp add: buf'_def n_def unat_word_ariths unat_of_nat)
  then have "unat (mm_cursor buf') < 2 ^ 63"
    using bounds assms(3) by (simp add: n_def)
  then have len: "(of_int (mm_Len buf') :: u64) = mm_cursor buf'"
    by (simp add: mm_Len_def sint_unat64)
  have nz: "mm_cursor buf' \<noteq> 0"
    using un bounds by auto
  note put = mm_Put_overflow [OF assms(1-3), folded buf'_def]
  have "fst (mm_ensure (\<lambda>_. True) (mm_cursor m + mm_cursor buf') m) = None"
    by (simp add: mm_ensure_def mm_grow_def Let_def)
  then have "mm_Merge (\<lambda>_. True) (Some buf') m = None"
    using nz put(2) by (cases "mm_ensure (\<lambda>_. True) (mm_cursor m + mm_cursor buf') m")
      (simp add: mm_Merge_def len Let_def bind_eq_None_conv)
  with put(1) show ?thesis by simp
qed

section \<open>Reading\<close>

lemma mm_Index_correct:
  assumes "mm_inv m"
  shows "mm_Index offset m =
      Some (if 0 \<le> offset \<and> offset < int (length (mm_contents m))
            then (mm_contents m ! nat offset, True) else (0, False))"
proof -
  have "mm_Len m = int (length (mm_contents m))" "length (mm_contents m) \<le> length (mm_data m)"
    using assms by (simp_all add: mm_Len_inv) (simp add: mm_contents_def)
  moreover have "mm_contents m ! i = mm_data m ! i" if "i < length (mm_contents m)" for i
    using that by (simp add: mm_contents_def)
  ultimately show ?thesis by (auto simp: mm_Index_def index_def)
qed

lemma mm_GetN_correct:
  assumes "mm_inv m"
  shows "mm_GetN offset n m =
      Some (if offset < 0 then [] else take (nat n) (drop (nat offset) (mm_contents m)))"
proof (cases "0 \<le> offset \<and> 1 \<le> n \<and> offset < int (length (mm_contents m))")
  case True
  define l where "l = length (mm_contents m)"
  define e where "e = (if mm_Len m < offset + n then mm_Len m else offset + n)"
  have len: "mm_Len m = int l" "l \<le> length (mm_data m)" "mm_contents m = take l (mm_data m)"
    using assms unfolding l_def by (simp add: mm_Len_inv, simp_all add: mm_contents_def mm_inv_def min_def)
  have e: "offset \<le> e" "e \<le> int (length (mm_data m))" "nat (e - offset) = min (nat n) (l - nat offset)"
    using True len by (auto simp: e_def)
  have "mm_GetN offset n m = slice (mm_data m) offset e"
    using True len(1) by (simp add: mm_GetN_def e_def l_def)
  also have "\<dots> = Some (take (nat (e - offset)) (drop (nat offset) (mm_data m)))"
    using True e by simp
  also have "\<dots> = Some (take (nat n) (drop (nat offset) (mm_contents m)))"
    unfolding e(3) by (simp add: len(3) drop_take)
  finally show ?thesis using True by simp
next
  case False
  with mm_Len_inv [OF assms] show ?thesis by (auto simp: mm_GetN_def)
qed

lemma mm_Clear_inv:
  "mm_inv m \<Longrightarrow> mm_inv (mm_Clear m) \<and> mm_contents (mm_Clear m) = [] \<and> mm_capacity (mm_Clear m) = mm_capacity m"
  by (simp add: mm_Clear_def mm_inv_def mm_contents_def mm_capacity_def Let_def)

lemma mm_Clear_length: "length (mm_data (mm_Clear m)) = length (mm_data m)"
  by (simp add: mm_Clear_def Let_def)

lemma NewMmapUint64_inv:
  assumes "NewMmapUint64 sys caps = Some (Some m)" "caps < 2 ^ 60"
  shows "mm_inv m \<and> mm_contents m = [] \<and> mm_capacity m = caps"
  using assms by (auto simp: NewMmapUint64_def Let_def mm_inv_def mm_contents_def mm_capacity_def split: if_splits)

lemma NewMmapUint64_granted:
  "0 < caps \<Longrightarrow> sys (caps * 8) \<Longrightarrow> \<exists>m. NewMmapUint64 sys caps = Some (Some m)"
  by (simp add: NewMmapUint64_def Let_def)

section \<open>Batched appending\<close>

text \<open>
  The scan tasks collect addresses in an array of \<open>collectBatchSize\<close> entries and put a
  full batch into their buffer at once; what is left is put at the end. Only the filled
  part of the array is ever read, so it is a list here.
\<close>

definition collectBatchSize :: nat where
  "collectBatchSize = 512"

definition batch_add :: "(u64 list \<Rightarrow> 'b \<Rightarrow> 'b go) \<Rightarrow> u64 \<Rightarrow> u64 list \<times> 'b \<Rightarrow> (u64 list \<times> 'b) go" where
  "batch_add put address = (\<lambda>(batch, buf).
     let batch = batch @ [address] in
     if length batch = collectBatchSize then do { buf \<leftarrow> put batch buf; Some ([], buf) }
     else Some (batch, buf))"

definition batch_flush :: "(u64 list \<Rightarrow> 'b \<Rightarrow> 'b go) \<Rightarrow> u64 list \<times> 'b \<Rightarrow> 'b go" where
  "batch_flush put = (\<lambda>(batch, buf). if 0 < length batch then put batch buf else Some buf)"

text \<open>What the tasks rely on: a buffer that appends as long as there is room.\<close>

locale append_buffer =
  fixes binv :: "'b \<Rightarrow> bool" and contents :: "'b \<Rightarrow> u64 list" and capacity :: "'b \<Rightarrow> nat"
    and put :: "u64 list \<Rightarrow> 'b \<Rightarrow> 'b go"
  assumes put_fits: "binv b \<Longrightarrow> length (contents b) + length xs \<le> capacity b \<Longrightarrow>
    \<exists>b'. put xs b = Some b' \<and> binv b' \<and> contents b' = contents b @ xs \<and> capacity b' = capacity b"
begin

lemma batch_add_fits:
  assumes "binv b" "length (contents b) + length batch + 1 \<le> capacity b"
  shows "\<exists>batch' b'. batch_add put x (batch, b) = Some (batch', b') \<and> binv b' \<and>
    capacity b' = capacity b \<and> contents b' @ batch' = contents b @ batch @ [x]"
  using put_fits [OF assms(1), of "batch @ [x]"] assms by (auto simp: batch_add_def Let_def)

lemma batch_fold:
  assumes "binv b" "length (contents b) + length batch + length xs \<le> capacity b"
  shows "\<exists>batch' b'. go_fold (batch_add put) xs (batch, b) = Some (batch', b') \<and> binv b' \<and>
    capacity b' = capacity b \<and> contents b' @ batch' = contents b @ batch @ xs"
  using assms
proof (induction xs arbitrary: batch b)
  case (Cons x xs)
  from batch_add_fits [of b batch x] Cons.prems
  obtain batch1 b1 where step: "batch_add put x (batch, b) = Some (batch1, b1)" "binv b1"
    "capacity b1 = capacity b" "contents b1 @ batch1 = contents b @ batch @ [x]" by auto
  from arg_cong [OF step(4), of length]
  have "length (contents b1) + length batch1 + length xs \<le> capacity b1"
    using Cons.prems(2) step(3) by simp
  from Cons.IH [OF step(2) this] step show ?case by auto
qed simp

lemma batch_flush_fits:
  assumes "binv b" "length (contents b) + length batch \<le> capacity b"
  shows "\<exists>b'. batch_flush put (batch, b) = Some b' \<and> binv b' \<and> contents b' = contents b @ batch \<and>
    capacity b' = capacity b"
  using put_fits [OF assms] assms(1) by (cases batch) (auto simp: batch_flush_def)

lemma batch_collect:
  assumes "binv b" "length (contents b) + length batch + length xs \<le> capacity b"
  shows "\<exists>b'. do { s \<leftarrow> go_fold (batch_add put) xs (batch, b); batch_flush put s } = Some b' \<and>
    binv b' \<and> contents b' = contents b @ batch @ xs \<and> capacity b' = capacity b"
proof -
  from batch_fold [OF assms] obtain batch1 b1
    where f: "go_fold (batch_add put) xs (batch, b) = Some (batch1, b1)" "binv b1"
      "capacity b1 = capacity b" "contents b1 @ batch1 = contents b @ batch @ xs" by blast
  from arg_cong [OF f(4), of length] have "length (contents b1) + length batch1 \<le> capacity b1"
    using assms(2) f(3) by simp
  from batch_flush_fits [OF f(2) this] f show ?thesis by auto
qed

end

text \<open>The tasks drop the error of \<open>Put\<close>: \<open>_ = buf.Put(batch...)\<close>.\<close>

definition put_ignoring :: "u64 list \<Rightarrow> MmapUint64 \<Rightarrow> MmapUint64 go" where
  "put_ignoring items m = map_option snd (mm_Put items m)"

interpretation mmb: append_buffer mm_inv mm_contents mm_capacity put_ignoring
proof
  fix b :: MmapUint64 and xs :: "u64 list"
  assume "mm_inv b" "length (mm_contents b) + length xs \<le> mm_capacity b"
  from mm_Put_fits [OF this] show "\<exists>b'. put_ignoring xs b = Some b' \<and> mm_inv b' \<and>
    mm_contents b' = mm_contents b @ xs \<and> mm_capacity b' = mm_capacity b"
    by (auto simp: put_ignoring_def)
qed

end
