(* ===== verification/Go_Float.thy ===== *)
theory Go_Float
  imports GoStdlib
begin

text \<open>
  Go's \<open>float32\<close> and \<open>float64\<close>: IEEE 754 binary formats, rounding to nearest even. A finite value is
  its sign and its magnitude counted in the smallest subnormal of the format, so it is exact and every
  operation here computes. Also \<^verbatim>\<open>math.Round\<close>, \<^verbatim>\<open>math.Trunc\<close>, the bit conversions and
  \<^verbatim>\<open>strconv.ParseFloat\<close>.
\<close>

datatype fl = NaN | Infty bool | Fin bool nat

datatype fmt = F32 | F64

text \<open>Precision, number of exponent bits, and the exponent of the unit \<open>2 ^ (- scale)\<close>.\<close>

fun prec :: "fmt \<Rightarrow> nat" where
  "prec F32 = 24"
| "prec F64 = 53"

fun expbits :: "fmt \<Rightarrow> nat" where
  "expbits F32 = 8"
| "expbits F64 = 11"

fun scale :: "fmt \<Rightarrow> nat" where
  "scale F32 = 149"
| "scale F64 = 1074"

text \<open>Finite magnitudes are below \<open>2 ^ top\<close> units.\<close>

fun top_exp :: "fmt \<Rightarrow> nat" where
  "top_exp F32 = 277"
| "top_exp F64 = 2098"

section \<open>Bits\<close>

definition decode :: "fmt \<Rightarrow> nat \<Rightarrow> fl" where
  "decode f n =
     (let mb = prec f - 1;
          m = n mod 2 ^ mb;
          e = (n div 2 ^ mb) mod 2 ^ expbits f;
          s = odd (n div 2 ^ (mb + expbits f)) in
      if e = 2 ^ expbits f - 1 then (if m = 0 then Infty s else NaN)
      else if e = 0 then Fin s m
      else Fin s ((2 ^ mb + m) * 2 ^ (e - 1)))"

fun bit_length :: "nat \<Rightarrow> nat" where
  "bit_length n = (if n = 0 then 0 else Suc (bit_length (n div 2)))"

declare bit_length.simps [simp del]

text \<open>The quiet NaNs are those Go produces: \<^verbatim>\<open>math.NaN()\<close> and its conversion to \<open>float32\<close>.\<close>

fun nan_bits :: "fmt \<Rightarrow> nat" where
  "nan_bits F32 = 0x7FC00000"
| "nan_bits F64 = 0x7FF8000000000001"

fun encode :: "fmt \<Rightarrow> fl \<Rightarrow> nat" where
  "encode f NaN = nan_bits f"
| "encode f (Infty s) =
     (2 ^ expbits f - 1) * 2 ^ (prec f - 1) + (if s then 2 ^ (prec f - 1 + expbits f) else 0)"
| "encode f (Fin s m) =
     (let e = bit_length m - (prec f - 1) in
      (if e = 0 then m else e * 2 ^ (prec f - 1) + (m div 2 ^ (e - 1) - 2 ^ (prec f - 1)))
      + (if s then 2 ^ (prec f - 1 + expbits f) else 0))"

definition Float32frombits :: "32 word \<Rightarrow> fl" where
  "Float32frombits w = decode F32 (unat w)"

definition Float64frombits :: "64 word \<Rightarrow> fl" where
  "Float64frombits w = decode F64 (unat w)"

definition Float32bits :: "fl \<Rightarrow> 32 word" where
  "Float32bits x = of_nat (encode F32 x)"

definition Float64bits :: "fl \<Rightarrow> 64 word" where
  "Float64bits x = of_nat (encode F64 x)"

section \<open>Rounding\<close>

text \<open>The integer nearest to \<open>num / den\<close>, the even one of two.\<close>

definition rne :: "nat \<Rightarrow> nat \<Rightarrow> nat" where
  "rne num den =
     (let q = num div den; r = num mod den in
      if den < 2 * r \<or> den = 2 * r \<and> odd q then q + 1 else q)"

text \<open>The float nearest to \<open>num / den\<close> units.\<close>

definition round_units :: "fmt \<Rightarrow> nat \<Rightarrow> nat \<Rightarrow> nat" where
  "round_units f num den =
     (let k = bit_length (num div den) - prec f in rne num (den * 2 ^ k) * 2 ^ k)"

definition round_fl :: "fmt \<Rightarrow> bool \<Rightarrow> nat \<Rightarrow> nat \<Rightarrow> fl" where
  "round_fl f s num den =
     (let m = round_units f num den in if m < 2 ^ top_exp f then Fin s m else Infty s)"

definition units :: "bool \<Rightarrow> nat \<Rightarrow> int" where
  "units s m = (if s then - int m else int m)"

text \<open>Addition: the exact sum rounded; an exact zero is negative only from two negative zeros.\<close>

fun fadd :: "fmt \<Rightarrow> fl \<Rightarrow> fl \<Rightarrow> fl" where
  "fadd f (Fin s m) (Fin t n) =
     (let v = units s m + units t n in
      if v = 0 then Fin (s \<and> t) 0 else round_fl f (v < 0) (nat \<bar>v\<bar>) 1)"
| "fadd f (Infty s) (Infty t) = (if s = t then Infty s else NaN)"
| "fadd f (Infty s) (Fin _ _) = Infty s"
| "fadd f (Fin _ _) (Infty t) = Infty t"
| "fadd f NaN _ = NaN"
| "fadd f _ NaN = NaN"

fun fneg :: "fl \<Rightarrow> fl" where
  "fneg NaN = NaN"
| "fneg (Infty s) = Infty (\<not> s)"
| "fneg (Fin s m) = Fin (\<not> s) m"

definition fsub :: "fmt \<Rightarrow> fl \<Rightarrow> fl \<Rightarrow> fl" where
  "fsub f x y = fadd f x (fneg y)"

text \<open>The constant nearest to a decimal fraction \<open>num / den\<close>.\<close>

definition fconst :: "fmt \<Rightarrow> nat \<Rightarrow> nat \<Rightarrow> fl" where
  "fconst f num den = round_fl f False (num * 2 ^ scale f) den"

text \<open>Comparison: false as soon as a NaN takes part; the two zeros are equal.\<close>

fun fle :: "fl \<Rightarrow> fl \<Rightarrow> bool" where
  "fle (Fin s m) (Fin t n) \<longleftrightarrow> units s m \<le> units t n"
| "fle (Infty s) (Infty t) \<longleftrightarrow> s \<or> \<not> t"
| "fle (Infty s) (Fin _ _) \<longleftrightarrow> s"
| "fle (Fin _ _) (Infty t) \<longleftrightarrow> \<not> t"
| "fle NaN _ \<longleftrightarrow> False"
| "fle _ NaN \<longleftrightarrow> False"

fun flt :: "fl \<Rightarrow> fl \<Rightarrow> bool" where
  "flt (Fin s m) (Fin t n) \<longleftrightarrow> units s m < units t n"
| "flt (Infty s) (Infty t) \<longleftrightarrow> s \<and> \<not> t"
| "flt (Infty s) (Fin _ _) \<longleftrightarrow> s"
| "flt (Fin _ _) (Infty t) \<longleftrightarrow> \<not> t"
| "flt NaN _ \<longleftrightarrow> False"
| "flt _ NaN \<longleftrightarrow> False"

text \<open>\<open>float64(x)\<close> of a \<open>float32\<close> is exact, \<open>float32(x)\<close> of a \<open>float64\<close> rounds.\<close>

fun to64 :: "fl \<Rightarrow> fl" where
  "to64 (Fin s m) = Fin s (m * 2 ^ 925)"
| "to64 x = x"

fun to32 :: "fl \<Rightarrow> fl" where
  "to32 (Fin s m) = round_fl F32 s m (2 ^ 925)"
| "to32 x = x"

text \<open>\<^verbatim>\<open>math.Round\<close> (half away from zero) and \<^verbatim>\<open>math.Trunc\<close>, on \<open>float64\<close>.\<close>

fun math_Round :: "fl \<Rightarrow> fl" where
  "math_Round (Fin s m) = Fin s ((m + 2 ^ 1073) div 2 ^ 1074 * 2 ^ 1074)"
| "math_Round x = x"

fun math_Trunc :: "fl \<Rightarrow> fl" where
  "math_Trunc (Fin s m) = Fin s (m div 2 ^ 1074 * 2 ^ 1074)"
| "math_Trunc x = x"

section \<open>When nothing is rounded\<close>

lemma bit_length_le: "bit_length n \<le> k \<longleftrightarrow> n < 2 ^ k"
proof (induction k arbitrary: n)
  case 0
  then show ?case by (simp add: bit_length.simps [of n])
next
  case (Suc k)
  have "n div 2 < 2 ^ k \<longleftrightarrow> n < 2 ^ Suc k"
    unfolding power_Suc by arith
  moreover have "bit_length n \<le> Suc k \<longleftrightarrow> n = 0 \<or> bit_length (n div 2) \<le> k"
    by (simp add: bit_length.simps [of n])
  ultimately show ?case
    by (auto simp: Suc [of "n div 2"])
qed

text \<open>A magnitude of the format: few significant bits, below the overflow bound.\<close>

definition fits :: "fmt \<Rightarrow> nat \<Rightarrow> bool" where
  "fits f n \<longleftrightarrow> (\<exists>c j. n = c * 2 ^ j \<and> c < 2 ^ prec f) \<and> n < 2 ^ top_exp f"

lemma rne_multiple: "0 < d \<Longrightarrow> rne (q * d) d = q"
  by (simp add: rne_def)

lemma round_units_exact:
  assumes "fits f n" "0 < den"
  shows "round_units f (n * den) den = n"
proof -
  obtain c j where n: "n = c * 2 ^ j" "c < 2 ^ prec f"
    using assms(1) by (auto simp: fits_def)
  define k where "k = bit_length n - prec f"
  have "n < 2 ^ (prec f + j)"
    using n by (simp add: power_add)
  then have "k \<le> j"
    by (simp add: k_def flip: bit_length_le)
  then have "(2 :: nat) ^ k dvd n"
    using n(1) by (auto intro: dvd_mult le_imp_power_dvd)
  then obtain q where q: "n = q * 2 ^ k"
    by (metis dvd_def mult.commute)
  have "rne (n * den) (den * 2 ^ k) = q"
    using rne_multiple [of "den * 2 ^ k" q] assms(2) by (simp add: q ac_simps)
  then show ?thesis
    using assms(2) by (simp add: round_units_def k_def [symmetric] q [symmetric])
qed

lemma round_fl_exact: "fits f n \<Longrightarrow> 0 < den \<Longrightarrow> round_fl f s (n * den) den = Fin s n"
  by (simp add: round_fl_def round_units_exact) (simp add: fits_def)

lemma fadd_exact:
  assumes "fits f (nat \<bar>units s m + units t n\<bar>)"
  shows "\<exists>s' m'. fadd f (Fin s m) (Fin t n) = Fin s' m' \<and> units s' m' = units s m + units t n"
proof (cases "units s m + units t n = 0")
  case True
  then show ?thesis by (simp add: units_def)
next
  case False
  then show ?thesis
    using round_fl_exact [OF assms, of 1] by (auto simp: units_def Let_def)
qed

lemma fits_mult_pow: "c < 2 ^ prec f \<Longrightarrow> c * 2 ^ j < 2 ^ top_exp f \<Longrightarrow> fits f (c * 2 ^ j)"
  by (auto simp: fits_def)

lemma units_neg [simp]: "units (\<not> s) m = - units s m"
  by (simp add: units_def)

section \<open>Decoding\<close>

lemma decode_fits:
  assumes "decode f n = Fin s m"
  shows "fits f m"
proof -
  define mb where "mb = prec f - 1"
  define k where "k = n mod 2 ^ mb"
  define e where "e = (n div 2 ^ mb) mod 2 ^ expbits f"
  have mb: "prec f = Suc mb" "k < 2 ^ mb"
    by (cases f; simp add: mb_def k_def)+
  have top: "top_exp f = mb + 2 ^ expbits f - 2" "2 < (2 :: nat) ^ expbits f"
    by (cases f; simp add: mb_def)+
  have e: "e < 2 ^ expbits f"
    by (simp add: e_def)
  have m: "e \<noteq> 2 ^ expbits f - 1" "m = (if e = 0 then k else (2 ^ mb + k) * 2 ^ (e - 1))"
    using assms by (auto simp: decode_def Let_def mb_def k_def e_def split: if_splits)
  have small: "2 ^ mb + k < 2 ^ prec f"
    using mb by simp
  show ?thesis
  proof (cases "e = 0")
    case True
    have "(2 :: nat) ^ mb \<le> 2 ^ top_exp f"
      using top by (intro power_increasing) auto
    with mb(2) have "k < 2 ^ top_exp f"
      by (rule less_le_trans)
    with True m mb fits_mult_pow [of k f 0] show ?thesis
      by simp
  next
    case False
    have "(2 ^ mb + k) * 2 ^ (e - 1) < 2 ^ prec f * 2 ^ (e - 1)"
      using small by simp
    also have "\<dots> = 2 ^ (prec f + (e - 1))"
      by (simp add: power_add)
    also have "\<dots> \<le> 2 ^ top_exp f"
      using False e m(1) top mb(1) by (intro power_increasing) auto
    finally show ?thesis
      using m(2) False fits_mult_pow [OF small, of "e - 1"] by simp
  qed
qed

lemma to32_to64:
  assumes "\<And>s m. x = Fin s m \<Longrightarrow> fits F32 m"
  shows "to32 (to64 x) = x"
proof (cases x)
  case (Fin s m)
  with round_fl_exact [OF assms, of s m "2 ^ 925"] show ?thesis
    by (simp del: power_numeral)
qed simp_all

section \<open>Parsing\<close>

text \<open>
  \<^verbatim>\<open>strconv.ParseFloat\<close>: an optional sign, decimal or (with a \<open>0x\<close> prefix) hexadecimal digits with at
  most one point, an exponent, underscores between digits; or \<open>inf\<close>, \<open>infinity\<close>, \<open>nan\<close> in any case.
  The exact value is rounded once, to the width asked for.
\<close>

definition to_lower :: "char \<Rightarrow> char" where
  "to_lower c = (let k = of_char c :: nat in if 65 \<le> k \<and> k \<le> 90 then char_of (k + 32) else c)"

fun scan_mantissa ::
  "nat \<Rightarrow> string \<Rightarrow> bool \<Rightarrow> bool \<Rightarrow> nat \<Rightarrow> nat \<Rightarrow> bool \<times> nat \<times> nat \<times> string" where
  "scan_mantissa base [] sawdot sawdigits m fr = (sawdigits, m, fr, [])"
| "scan_mantissa base (c # cs) sawdot sawdigits m fr =
     (if c = CHR ''_'' then scan_mantissa base cs sawdot sawdigits m fr
      else if c = CHR ''.'' then
        if sawdot then (sawdigits, m, fr, c # cs)
        else scan_mantissa base cs True sawdigits m fr
      else
        case digit_value c of
          None \<Rightarrow> (sawdigits, m, fr, c # cs)
        | Some d \<Rightarrow>
            if d < base then
              scan_mantissa base cs sawdot True (m * base + d) (if sawdot then fr + 1 else fr)
            else (sawdigits, m, fr, c # cs))"

fun scan_exponent :: "string \<Rightarrow> nat \<Rightarrow> nat \<times> string" where
  "scan_exponent [] e = (e, [])"
| "scan_exponent (c # cs) e =
     (if c = CHR ''_'' then scan_exponent cs e
      else
        case digit_value c of
          None \<Rightarrow> (e, c # cs)
        | Some d \<Rightarrow>
            if d < 10 then scan_exponent cs (if e < 10000 then e * 10 + d else e)
            else (e, c # cs))"

text \<open>\<open>underscoreOK\<close>: an underscore stands between digits; \<open>saw\<close> is the class of the last character.\<close>

fun underscore_loop :: "bool \<Rightarrow> char \<Rightarrow> string \<Rightarrow> bool" where
  "underscore_loop hexa saw [] = (saw \<noteq> CHR ''_'')"
| "underscore_loop hexa saw (c # cs) =
     (if (\<exists>d \<in> set_option (digit_value c). d < (if hexa then 16 else 10))
      then underscore_loop hexa (CHR ''0'') cs
      else if c = CHR ''_'' then saw = CHR ''0'' \<and> underscore_loop hexa (CHR ''_'') cs
      else saw \<noteq> CHR ''_'' \<and> underscore_loop hexa (CHR ''!'') cs)"

definition hex_prefix :: "string \<Rightarrow> bool" where
  "hex_prefix s \<longleftrightarrow> 2 \<le> length s \<and> s ! 0 = CHR ''0'' \<and> to_lower (s ! 1) = CHR ''x''"

definition base_prefix :: "string \<Rightarrow> bool" where
  "base_prefix s \<longleftrightarrow> 2 \<le> length s \<and> s ! 0 = CHR ''0'' \<and> to_lower (s ! 1) \<in> {CHR ''b'', CHR ''o'', CHR ''x''}"

definition drop_sign :: "string \<Rightarrow> string" where
  "drop_sign s = (if s \<noteq> [] \<and> hd s \<in> {CHR ''+'', CHR ''-''} then tl s else s)"

definition underscoreOK :: "string \<Rightarrow> bool" where
  "underscoreOK s =
     (let s = drop_sign s in
      if base_prefix s then underscore_loop (hex_prefix s) (CHR ''0'') (drop 2 s)
      else underscore_loop False (CHR ''^'') s)"

definition read_exponent :: "char \<Rightarrow> string \<Rightarrow> int option" where
  "read_exponent expChar s =
     (case s of
        [] \<Rightarrow> if expChar = CHR ''p'' then None else Some 0
      | c # cs \<Rightarrow>
          if to_lower c \<noteq> expChar then None
          else
            let body = drop_sign cs in
            if body = [] \<or> digit_value (hd body) = None \<or> 10 \<le> the (digit_value (hd body)) then None
            else
              case scan_exponent body 0 of
                (e, []) \<Rightarrow> Some (if hd cs = CHR ''-'' then - int e else int e)
              | _ \<Rightarrow> None)"

definition ParseFloat :: "string \<Rightarrow> nat \<Rightarrow> fl \<times> num_error option" where
  "ParseFloat s bitSize =
     (let f = (if bitSize = 32 then F32 else F64);
          widen = (if bitSize = 32 then to64 else id);
          neg = (s \<noteq> [] \<and> hd s = CHR ''-'');
          body = drop_sign s;
          low = map to_lower body in
      if low \<in> {''inf'', ''infinity''} then (Infty neg, None)
      else if map to_lower s = ''nan'' then (NaN, None)
      else
        let hexa = 2 < length body \<and> hex_prefix body;
            base = (if hexa then 16 else 10);
            (sawdigits, m, fr, rest) =
              scan_mantissa base (if hexa then drop 2 body else body) False False 0 0 in
        case (if sawdigits then read_exponent (if hexa then CHR ''p'' else CHR ''e'') rest else None) of
          None \<Rightarrow> (Fin False 0, Some ErrSyntax)
        | Some e \<Rightarrow>
            if CHR ''_'' \<in> set s \<and> \<not> underscoreOK s then (Fin False 0, Some ErrSyntax)
            else
              let b = (if hexa then 2 else 10);
                  x = e - int (if hexa then 4 * fr else fr);
                  num = m * b ^ nat x * 2 ^ scale f;
                  r = (if m = 0 then Fin neg 0 else round_fl f neg num (b ^ nat (- x))) in
              (widen r, if r = Infty neg then Some ErrRange else None))"

section \<open>Rounding never passes a float\<close>

lemma rne_ge: "0 < d \<Longrightarrow> q * d \<le> n \<Longrightarrow> q \<le> rne n d"
  using less_eq_div_iff_mult_less_eq [of d q n] by (auto simp: rne_def Let_def)

lemma rne_le:
  assumes "0 < d" "n \<le> q * d"
  shows "rne n d \<le> q"
proof (cases "n = q * d")
  case True
  with assms show ?thesis by (simp add: rne_multiple)
next
  case False
  with assms have "n div d < q"
    by (simp add: div_less_iff_less_mult)
  then show ?thesis by (auto simp: rne_def Let_def)
qed

lemma big_quotient:
  assumes "k = bit_length (num div den) - p" "0 < k" "0 < p" "0 < den"
  shows "2 ^ (p - 1) * (den * 2 ^ k) \<le> num"
proof -
  have "\<not> bit_length (num div den) \<le> p - 1 + k"
    using assms by simp
  then have "2 ^ (p - 1) * 2 ^ k \<le> num div den"
    by (simp add: bit_length_le not_less power_add)
  then have "2 ^ (p - 1) * 2 ^ k * den \<le> num"
    using assms(4) by (simp add: less_eq_div_iff_mult_less_eq)
  then show ?thesis by (simp add: ac_simps)
qed

lemma pow_split: "0 < p \<Longrightarrow> j < k \<Longrightarrow> (2 :: nat) ^ p * 2 ^ j \<le> 2 ^ (p - 1) * 2 ^ k"
  unfolding power_add [symmetric] by (rule power_increasing) simp_all

lemma prec_pos: "0 < prec f"
  by (cases f) simp_all

lemma round_units_ge:
  assumes "fits f m" "m * den \<le> num" "0 < den"
  shows "m \<le> round_units f num den"
proof -
  obtain c j where m: "m = c * 2 ^ j" "c < 2 ^ prec f"
    using assms(1) by (auto simp: fits_def)
  define k where "k = bit_length (num div den) - prec f"
  have r: "round_units f num den = rne num (den * 2 ^ k) * 2 ^ k"
    by (simp add: round_units_def k_def Let_def)
  show ?thesis
  proof (cases "k \<le> j")
    case True
    then have m': "m = c * 2 ^ (j - k) * 2 ^ k"
      by (simp add: m(1) flip: power_add)
    with assms(2) have "c * 2 ^ (j - k) * (den * 2 ^ k) \<le> num"
      by (simp add: ac_simps)
    with assms(3) have "c * 2 ^ (j - k) \<le> rne num (den * 2 ^ k)"
      by (intro rne_ge) simp_all
    then show ?thesis by (simp add: r m')
  next
    case False
    with big_quotient [OF k_def _ prec_pos assms(3)] assms(3)
    have "2 ^ (prec f - 1) \<le> rne num (den * 2 ^ k)"
      by (intro rne_ge) simp_all
    then have "2 ^ (prec f - 1) * 2 ^ k \<le> round_units f num den"
      by (simp add: r)
    moreover have "m \<le> 2 ^ prec f * 2 ^ j"
      using m by (simp add: less_imp_le)
    ultimately show ?thesis
      using pow_split [OF prec_pos, of j k f] False by (simp add: not_le)
  qed
qed

lemma round_units_le:
  assumes "fits f m" "num \<le> m * den" "0 < den"
  shows "round_units f num den \<le> m"
proof -
  obtain c j where m: "m = c * 2 ^ j" "c < 2 ^ prec f"
    using assms(1) by (auto simp: fits_def)
  define k where "k = bit_length (num div den) - prec f"
  have "k \<le> j"
  proof (rule ccontr)
    assume "\<not> k \<le> j"
    with big_quotient [OF k_def _ prec_pos assms(3)]
    have "2 ^ (prec f - 1) * 2 ^ k * den \<le> num"
      by (simp add: ac_simps)
    also note assms(2)
    finally have "2 ^ (prec f - 1) * 2 ^ k * den \<le> m * den" .
    with assms(3) have "2 ^ (prec f - 1) * 2 ^ k \<le> m" by simp
    moreover have "m < 2 ^ prec f * 2 ^ j"
      using m by simp
    ultimately show False
      using pow_split [OF prec_pos, of j k f] \<open>\<not> k \<le> j\<close> by (simp add: not_le)
  qed
  then have m': "m = c * 2 ^ (j - k) * 2 ^ k"
    by (simp add: m(1) flip: power_add)
  with assms(2,3) have "rne num (den * 2 ^ k) \<le> c * 2 ^ (j - k)"
    by (intro rne_le) (simp_all add: ac_simps)
  then show ?thesis by (simp add: round_units_def k_def [symmetric] m')
qed

lemma round_fl_small: "fits f m \<Longrightarrow> num \<le> m * den \<Longrightarrow> 0 < den \<Longrightarrow> \<exists>n \<le> m. round_fl f s num den = Fin s n"
  using round_units_le [of f m num den] by (auto simp: round_fl_def fits_def)

lemma units_sign: "units False m = int m" "units True m = - int m"
  by (simp_all add: units_def)

lemma units_of_int: "units (w < 0) (nat \<bar>w\<bar>) = w"
  by (simp add: units_def)

lemma fadd_lower:
  assumes "fits f (nat \<bar>w\<bar>)" "w \<le> units s m + units t n"
  shows "fle (Fin (w < 0) (nat \<bar>w\<bar>)) (fadd f (Fin s m) (Fin t n))"
proof -
  define v where "v = units s m + units t n"
  have sum: "fadd f (Fin s m) (Fin t n) = (if v = 0 then Fin (s \<and> t) 0 else round_fl f (v < 0) (nat \<bar>v\<bar>) 1)"
    by (simp add: v_def Let_def)
  consider "v = 0" | "0 < v" | "v < 0" by linarith
  then show ?thesis
  proof cases
    case 1
    with assms(2) have "w \<le> 0" by (simp add: v_def)
    with 1 show ?thesis unfolding sum by (simp add: units_def)
  next
    case 2
    have "nat w \<le> round_units f (nat v) 1" if "0 \<le> w"
      using round_units_ge [OF assms(1), of 1 "nat v"] assms(2) that by (simp add: v_def)
    then have "w \<le> int (round_units f (nat v) 1)"
      by (cases "0 \<le> w") auto
    with 2 show ?thesis
      unfolding sum by (simp add: round_fl_def units_of_int units_sign Let_def)
  next
    case 3
    have "nat (- v) \<le> nat \<bar>w\<bar> * 1"
      using 3 assms(2) by (simp add: v_def)
    from round_fl_small [OF assms(1) this, of True] obtain n'
      where "n' \<le> nat \<bar>w\<bar>" "round_fl f True (nat (- v)) 1 = Fin True n'" by auto
    moreover have "w < 0" using 3 assms(2) by (simp add: v_def)
    ultimately show ?thesis
      using 3 unfolding sum by (simp add: units_sign)
  qed
qed

end
