(* ===== verification/Value.thy ===== *)
theory Value
  imports Go_Float
begin

text \<open>
  What is searched for (\<^verbatim>\<open>scanner/types.go\<close>, \<^verbatim>\<open>scanner/value.go\<close>): the value types, the little-endian
  byte pattern of a value, its option for floats, parsing and reading it back.
\<close>

section \<open>Types\<close>

type_synonym Type = u8

abbreviation Bytes :: Type where "Bytes \<equiv> 0"
abbreviation Int8 :: Type where "Int8 \<equiv> 1"
abbreviation Int16 :: Type where "Int16 \<equiv> 2"
abbreviation Int32 :: Type where "Int32 \<equiv> 3"
abbreviation Int64 :: Type where "Int64 \<equiv> 4"
abbreviation Float32 :: Type where "Float32 \<equiv> 5"
abbreviation Float64 :: Type where "Float64 \<equiv> 6"

definition typeName :: "string list" where
  "typeName = [''Bytes'', ''Int8'', ''Int16'', ''Int32'', ''Int64'', ''Float32'', ''Float64'']"

definition Type_String :: "Type \<Rightarrow> string go" where
  "Type_String t = index typeName (uint t)"

definition ByteSize :: "Type \<Rightarrow> nat" where
  "ByteSize t =
     (if t = Int8 then 1 else if t = Int16 then 2 else if t = Int32 then 4 else if t = Int64 then 8
      else if t = Float32 then 4 else if t = Float64 then 8 else 0)"

definition BitSize :: "Type \<Rightarrow> nat" where
  "BitSize t =
     (if t = Int8 then 8 else if t = Int16 then 16 else if t = Int32 then 32 else if t = Int64 then 64
      else if t = Float32 then 32 else if t = Float64 then 64 else 0)"

section \<open>Little-endian words\<close>

fun le_bytes :: "nat \<Rightarrow> 'a::len word \<Rightarrow> bytes" where
  "le_bytes 0 w = []"
| "le_bytes (Suc n) w = ucast w # le_bytes n (drop_bit 8 w)"

fun le_word :: "bytes \<Rightarrow> 'a::len word" where
  "le_word [] = 0"
| "le_word (b # bs) = ucast b OR push_bit 8 (le_word bs)"

text \<open>
  \<^verbatim>\<open>binary.LittleEndian\<close>: \<open>PutUint\<close> overwrites the first bytes of its buffer, \<open>Uint\<close> reads them; both
  panic on a shorter buffer.
\<close>

definition PutUint :: "nat \<Rightarrow> 'a::len word \<Rightarrow> bytes \<Rightarrow> bytes go" where
  "PutUint n w b = (if n \<le> length b then Some (le_bytes n w @ drop n b) else None)"

definition Uint :: "nat \<Rightarrow> bytes \<Rightarrow> 'a::len word go" where
  "Uint n b = (if n \<le> length b then Some (le_word (take n b)) else None)"

lemma length_le_bytes [simp]: "length (le_bytes n w) = n"
  by (induction n w rule: le_bytes.induct) simp_all

lemma le_word_le_bytes: "le_word (le_bytes n w) = take_bit (8 * n) w"
proof (induction n w rule: le_bytes.induct)
  case (2 n w)
  have "ucast (ucast w :: u8) OR push_bit 8 (take_bit (8 * n) (drop_bit 8 w)) = take_bit (8 + 8 * n) w"
    by (rule bit_word_eqI) (auto simp: bit_simps not_less)
  with 2 show ?case by simp
qed simp

lemma le_word_bound: "le_word bs = take_bit (8 * length bs) (le_word bs :: 'a::len word)"
proof (induction bs)
  case (Cons b bs)
  have "ucast b OR push_bit 8 (take_bit n w) = take_bit (8 + n) (ucast b OR push_bit 8 w)"
    for n and w :: "'a word"
    by (rule bit_word_eqI) (auto simp: bit_simps dest: bit_imp_le_length)
  from this [of "8 * length bs" "le_word bs"] Cons show ?case by simp
qed simp

lemma le_bytes_le_word:
  "8 * length bs \<le> LENGTH('a) \<Longrightarrow> le_bytes (length bs) (le_word bs :: 'a::len word) = bs"
proof (induction bs)
  case (Cons b bs)
  define w :: "'a word" where "w = le_word bs"
  have w: "w = take_bit (8 * length bs) w"
    unfolding w_def by (rule le_word_bound)
  have "ucast (ucast b OR push_bit 8 w :: 'a word) = b"
    using Cons.prems by (intro bit_word_eqI) (auto simp: bit_simps)
  moreover have "drop_bit 8 (ucast b OR push_bit 8 w) = w"
    using Cons.prems by (subst (2) w, subst w) (rule bit_word_eqI, auto simp: bit_simps dest: bit_imp_le_length)
  ultimately show ?case
    using Cons by (simp add: w_def)
qed simp

lemma Uint_le_bytes: "8 * n = LENGTH('a) \<Longrightarrow> Uint n (le_bytes n w @ bs) = Some (w :: 'a::len word)"
  by (simp add: Uint_def le_word_le_bytes)

lemma le_bytes_byte: "le_bytes 1 w = [ucast w]"
  by simp

declare le_bytes.simps(2) [simp del]

section \<open>Values\<close>

type_synonym Option = u8

abbreviation OptionFloatUnrounded :: Option where "OptionFloatUnrounded \<equiv> 0"
abbreviation OptionFloatRounded :: Option where "OptionFloatRounded \<equiv> 1"
abbreviation OptionFloatExtreme :: Option where "OptionFloatExtreme \<equiv> 2"
abbreviation OptionFloatTruncated :: Option where "OptionFloatTruncated \<equiv> 3"

definition Option_String :: "Option \<Rightarrow> string" where
  "Option_String opt =
     (if opt = OptionFloatRounded then ''rounded''
      else if opt = OptionFloatExtreme then ''extreme''
      else if opt = OptionFloatTruncated then ''truncated''
      else '''')"

record Value =
  v_typ :: Type
  v_data :: bytes
  v_option :: Option

definition Aligned :: "Value \<Rightarrow> bool" where
  "Aligned v \<longleftrightarrow> v_typ v \<noteq> Bytes"

definition Value_Size :: "Value \<Rightarrow> nat" where
  "Value_Size v = (if v_typ v = Bytes then length (v_data v) else ByteSize (v_typ v))"

definition SetBytes :: "bytes \<Rightarrow> Value \<Rightarrow> Value" where
  "SetBytes data v = v\<lparr>v_data := copy_at (v_data v) 0 data\<rparr>"

definition SetType :: "Type \<Rightarrow> Value \<Rightarrow> Value" where
  "SetType t v = v\<lparr>v_typ := t, v_data := replicate (ByteSize t) 0\<rparr>"

definition is_float_type :: "Type \<Rightarrow> bool" where
  "is_float_type t \<longleftrightarrow> t = Float32 \<or> t = Float64"

definition HasOption :: "Value \<Rightarrow> bool" where
  "HasOption v \<longleftrightarrow>
     (if is_float_type (v_typ v)
      then OptionFloatUnrounded < v_option v \<and> v_option v \<le> OptionFloatTruncated else False)"

definition WithOption :: "Option \<Rightarrow> Value \<Rightarrow> Value" where
  "WithOption opt v =
     (if opt < OptionFloatRounded \<or> OptionFloatTruncated < opt then v
      else if is_float_type (v_typ v) then v\<lparr>v_option := opt\<rparr> else v)"

definition Value_EqualBytes :: "Value \<Rightarrow> bytes \<Rightarrow> bool" where
  "Value_EqualBytes v b \<longleftrightarrow> v_data v = b"

definition Value_DisturbingByte :: "Value \<Rightarrow> u8 go" where
  "Value_DisturbingByte v = do { b \<leftarrow> index (v_data v) 0; Some (NOT b) }"

text \<open>The constructors fill a fresh buffer of the type's size.\<close>

definition NewInt8 :: "8 word \<Rightarrow> Value" where
  "NewInt8 i = \<lparr>v_typ = Int8, v_data = [i], v_option = 0\<rparr>"

definition NewInt16 :: "16 word \<Rightarrow> Value" where
  "NewInt16 i = \<lparr>v_typ = Int16, v_data = le_bytes 2 i, v_option = 0\<rparr>"

definition NewInt32 :: "32 word \<Rightarrow> Value" where
  "NewInt32 i = \<lparr>v_typ = Int32, v_data = le_bytes 4 i, v_option = 0\<rparr>"

definition NewInt64 :: "64 word \<Rightarrow> Value" where
  "NewInt64 i = \<lparr>v_typ = Int64, v_data = le_bytes 8 i, v_option = 0\<rparr>"

definition option_arg :: "Option list \<Rightarrow> Option" where
  "option_arg args = (if args \<noteq> [] \<and> hd args \<le> OptionFloatTruncated then hd args else 0)"

definition NewFloat32 :: "fl \<Rightarrow> Option list \<Rightarrow> Value" where
  "NewFloat32 i args =
     \<lparr>v_typ = Float32, v_data = le_bytes 4 (Float32bits i), v_option = option_arg args\<rparr>"

definition NewFloat64 :: "fl \<Rightarrow> Option list \<Rightarrow> Value" where
  "NewFloat64 i args =
     \<lparr>v_typ = Float64, v_data = le_bytes 8 (Float64bits i), v_option = option_arg args\<rparr>"

definition NewBytes :: "bytes \<Rightarrow> Value" where
  "NewBytes b = \<lparr>v_typ = Bytes, v_data = b, v_option = 0\<rparr>"

section \<open>Reading a value back\<close>

datatype raw_value =
    RawInt8 "8 word" | RawInt16 "16 word" | RawInt32 "32 word" | RawInt64 "64 word"
  | RawFloat32 fl | RawFloat64 fl | RawBytes bytes

text \<open>The integers are read from the padded copy, the floats from the data itself.\<close>

definition ToRaw :: "Type \<Rightarrow> Value \<Rightarrow> raw_value go" where
  "ToRaw t v =
     (let size = ByteSize t;
          size = (if size = 0 then Value_Size v else size);
          b = copy_at (replicate size 0) 0 (v_data v) in
      if t = Int8 then map_option RawInt8 (index b 0)
      else if t = Int16 then map_option RawInt16 (Uint 2 b)
      else if t = Int32 then map_option RawInt32 (Uint 4 b)
      else if t = Int64 then map_option RawInt64 (Uint 8 b)
      else if t = Float32 then map_option (RawFloat32 \<circ> Float32frombits) (Uint 4 (v_data v))
      else if t = Float64 then map_option (RawFloat64 \<circ> Float64frombits) (Uint 8 (v_data v))
      else Some (RawBytes b))"

text \<open>\<^verbatim>\<open>fmt\<close>: integers in decimal, byte strings as hex pairs with blanks (\<open>% 02X\<close>). How it prints
  floats is the argument \<open>sf\<close>.\<close>

definition show_int :: "int \<Rightarrow> string" where
  "show_int i = (if i < 0 then CHR ''-'' # digits 10 (nat (- i)) else digits 10 (nat i))"

definition upper_hex :: "nat \<Rightarrow> char" where
  "upper_hex d = char_of (if d < 10 then 48 + d else 55 + d)"

definition hex_byte :: "u8 \<Rightarrow> string" where
  "hex_byte b = [upper_hex (unat b div 16), upper_hex (unat b mod 16)]"

fun hex_dump :: "bytes \<Rightarrow> string" where
  "hex_dump [] = []"
| "hex_dump [b] = hex_byte b"
| "hex_dump (b # bs) = hex_byte b @ CHR '' '' # hex_dump bs"

definition Value_String :: "Value \<Rightarrow> string" where
  "Value_String v = (if v_data v = [] then ''00'' else hex_dump (v_data v))"

definition show_bytes :: "bytes \<Rightarrow> string" where
  "show_bytes bs = CHR ''['' # concat (map (\<lambda>(i, b). (if i = 0 then [] else '' '') @ digits 10 (unat b))
     (zip [0..<length bs] bs)) @ '']''"

fun Sprint :: "(fmt \<Rightarrow> fl \<Rightarrow> string) \<Rightarrow> raw_value \<Rightarrow> string" where
  "Sprint sf (RawInt8 i) = show_int (sint i)"
| "Sprint sf (RawInt16 i) = show_int (sint i)"
| "Sprint sf (RawInt32 i) = show_int (sint i)"
| "Sprint sf (RawInt64 i) = show_int (sint i)"
| "Sprint sf (RawFloat32 x) = sf F32 x"
| "Sprint sf (RawFloat64 x) = sf F64 x"
| "Sprint sf (RawBytes b) = show_bytes b"

definition Format :: "(fmt \<Rightarrow> fl \<Rightarrow> string) \<Rightarrow> Type list \<Rightarrow> Value \<Rightarrow> string go" where
  "Format sf args v =
     (let t = (if args \<noteq> [] then hd args else v_typ v) in
      if t = Bytes then Some (Value_String v)
      else map_option (Sprint sf) (ToRaw t v))"

section \<open>Parsing\<close>

text \<open>
  \<^verbatim>\<open>strings.Join(strings.Fields(s), "")\<close> drops every white-space character; \<open>space_rune\<close> is the
  length of the one a UTF-8 text starts with, 0 for none. The lower case is that of ASCII
  letters: a text with other letters is no hex string whatever their case.
\<close>

definition space_rune :: "string \<Rightarrow> nat" where
  "space_rune s =
     (let k = (\<lambda>i. if i < length s then of_char (s ! i) else 0 :: nat) in
      if k 0 \<in> {9, 10, 11, 12, 13, 32} \<and> s \<noteq> [] then 1
      else if k 0 = 0xC2 \<and> k 1 \<in> {0x85, 0xA0} then 2
      else if k 0 = 0xE1 \<and> k 1 = 0x9A \<and> k 2 = 0x80 then 3
      else if k 0 = 0xE2 \<and> k 1 = 0x80 \<and> (0x80 \<le> k 2 \<and> k 2 \<le> 0x8A \<or> k 2 \<in> {0xA8, 0xA9, 0xAF}) then 3
      else if k 0 = 0xE2 \<and> k 1 = 0x81 \<and> k 2 = 0x9F then 3
      else if k 0 = 0xE3 \<and> k 1 = 0x80 \<and> k 2 = 0x80 then 3
      else 0)"

fun join_fields :: "string \<Rightarrow> string" where
  "join_fields [] = []"
| "join_fields (c # cs) =
     (let n = space_rune (c # cs) in
      if n = 0 then c # join_fields cs else join_fields (drop (n - 1) cs))"

datatype value_error = NumError num_error | ErrOddHex | ErrHexByte

definition hex_digit :: "char \<Rightarrow> nat option" where
  "hex_digit c = (case digit_value c of None \<Rightarrow> None | Some d \<Rightarrow> if d < 16 then Some d else None)"

text \<open>\<^verbatim>\<open>hex.DecodeString\<close> on a text of even length: the bytes before the first bad pair.\<close>

fun hex_decode :: "string \<Rightarrow> bytes \<times> value_error option" where
  "hex_decode (a # b # s) =
     (case (hex_digit a, hex_digit b) of
        (Some x, Some y) \<Rightarrow>
          let (bs, err) = hex_decode s in (of_nat (16 * x + y) # bs, err)
      | _ \<Rightarrow> ([], Some ErrHexByte))"
| "hex_decode _ = ([], None)"

text \<open>Storing a parsed number in the value's buffer.\<close>

definition store_uint :: "nat \<Rightarrow> 'a::len word \<Rightarrow> Value \<Rightarrow> (value_error option \<times> Value) go" where
  "store_uint n w v = do { b \<leftarrow> PutUint n w (v_data v); Some (None, v\<lparr>v_data := b\<rparr>) }"

definition FromString :: "string \<Rightarrow> Value \<Rightarrow> (value_error option \<times> Value) go" where
  "FromString s v =
     (let bs = BitSize (v_typ v) in
      if v_typ v \<in> {Int8, Int16, Int32, Int64} then
        let (i, err) = ParseInt s 10 bs in
        case err of
          Some e \<Rightarrow> Some (Some (NumError e), v)
        | None \<Rightarrow>
            if v_typ v = Int8 then store_uint 1 (of_int i :: 8 word) v
            else if v_typ v = Int16 then store_uint 2 (of_int i :: 16 word) v
            else if v_typ v = Int32 then store_uint 4 (of_int i :: 32 word) v
            else store_uint 8 (of_int i :: 64 word) v
      else if is_float_type (v_typ v) then
        let (x, err) = ParseFloat s bs in
        case err of
          Some e \<Rightarrow> Some (Some (NumError e), v)
        | None \<Rightarrow>
            if v_typ v = Float32 then store_uint 4 (Float32bits (to32 x)) v
            else store_uint 8 (Float64bits x) v
      else if v_typ v = Bytes then
        let s = map to_lower (join_fields s) in
        if odd (length s) then Some (Some ErrOddHex, v)
        else let (b, err) = hex_decode s in Some (err, v\<lparr>v_data := b\<rparr>)
      else Some (None, v))"

text \<open>What every value the program builds satisfies.\<close>

definition wf_value :: "Value \<Rightarrow> bool" where
  "wf_value v \<longleftrightarrow> (v_typ v \<noteq> Bytes \<longrightarrow> length (v_data v) = ByteSize (v_typ v))"

lemma wf_value_Size: "wf_value v \<Longrightarrow> Value_Size v = length (v_data v)"
  by (simp add: wf_value_def Value_Size_def)

lemma wf_value_constructors:
  "wf_value (NewInt8 i8)" "wf_value (NewInt16 i16)" "wf_value (NewInt32 i32)" "wf_value (NewInt64 i64)"
  "wf_value (NewFloat32 x args)" "wf_value (NewFloat64 x args)" "wf_value (NewBytes b)"
  by (simp_all add: wf_value_def ByteSize_def NewInt8_def NewInt16_def NewInt32_def NewInt64_def
      NewFloat32_def NewFloat64_def NewBytes_def)

lemma wf_value_updates:
  "wf_value (SetType t v)" "wf_value v \<Longrightarrow> wf_value (SetBytes d v)" "wf_value v \<Longrightarrow> wf_value (WithOption opt v)"
  by (simp_all add: wf_value_def SetType_def SetBytes_def WithOption_def length_copy_at)

lemma store_uint_fits:
  "n \<le> length (v_data v) \<Longrightarrow> store_uint n w v = Some (None, v\<lparr>v_data := le_bytes n w @ drop n (v_data v)\<rparr>)"
  by (simp add: store_uint_def PutUint_def)

lemma FromString_store:
  assumes "wf_value v" "n = ByteSize (v_typ v)" "v_typ v \<noteq> Bytes"
  shows "store_uint n w v = Some (None, v\<lparr>v_data := le_bytes n w\<rparr>)"
  using assms by (simp add: store_uint_fits wf_value_def)

lemma wf_value_le_bytes: "n = ByteSize (v_typ v) \<Longrightarrow> wf_value (v\<lparr>v_data := le_bytes n w\<rparr>)"
  by (simp add: wf_value_def)

lemma ByteSize_simps:
  "ByteSize Bytes = 0" "ByteSize Int8 = 1" "ByteSize Int16 = 2" "ByteSize Int32 = 4" "ByteSize Int64 = 8"
  "ByteSize Float32 = 4" "ByteSize Float64 = 8"
  by (simp_all add: ByteSize_def)

text \<open>
  Parsing any text into a well-formed value never panics, keeps the value well-formed and of its type
  and option, and leaves a number unchanged when it reports an error.
\<close>

lemma FromString_total:
  assumes "wf_value v"
  shows "\<exists>err v'. FromString s v = Some (err, v') \<and> wf_value v' \<and> v_typ v' = v_typ v \<and>
    v_option v' = v_option v \<and> (err \<noteq> None \<and> v_typ v \<noteq> Bytes \<longrightarrow> v' = v)"
proof -
  note store = FromString_store [OF assms]
  consider "v_typ v \<in> {Int8, Int16, Int32, Int64}" | "is_float_type (v_typ v)" | "v_typ v = Bytes"
    | "v_typ v \<notin> {Int8, Int16, Int32, Int64, Bytes}" "\<not> is_float_type (v_typ v)" by auto
  then show ?thesis
  proof cases
    case 1
    obtain i err where "ParseInt s 10 (BitSize (v_typ v)) = (i, err)" by (cases "ParseInt s 10 (BitSize (v_typ v))")
    with 1 assms store show ?thesis
      by (cases err) (auto simp: FromString_def store wf_value_le_bytes ByteSize_simps)
  next
    case 2
    obtain x err where "ParseFloat s (BitSize (v_typ v)) = (x, err)" by (cases "ParseFloat s (BitSize (v_typ v))")
    with 2 assms store show ?thesis
      by (cases err) (auto simp: FromString_def store wf_value_le_bytes is_float_type_def ByteSize_simps)
  next
    case 3
    then show ?thesis
      by (auto simp: FromString_def is_float_type_def wf_value_def assms split: prod.splits)
  next
    case 4
    with assms show ?thesis by (simp add: FromString_def)
  qed
qed

section \<open>Printing and parsing back\<close>

lemma hd_digits:
  assumes "2 \<le> base" "base \<le> 36"
  shows "\<exists>d. d < base \<and> hd (digits base n) = digit_char d"
  using assms
proof (induction base n rule: digits.induct)
  case (1 base n)
  show ?case
  proof (cases "n < base")
    case True
    then show ?thesis by (auto simp: digits.simps [of base n])
  next
    case False
    with 1 show ?thesis
      by (auto simp: digits.simps [of base n] hd_append digits_nonempty)
  qed
qed

lemma ParseInt_show_int:
  assumes "0 < w" "- (2 ^ (w - 1)) \<le> i" "i < 2 ^ (w - 1)"
  shows "ParseInt (show_int i) 10 w = (i, None)"
proof -
  obtain m where w: "w = Suc m" using assms(1) by (cases w) auto
  obtain d where "d < 10" "hd (digits 10 (nat i)) = digit_char d"
    using hd_digits [of 10 "nat i"] by auto
  then have h: "hd (digits 10 (nat i)) \<noteq> CHR ''-''" "hd (digits 10 (nat i)) \<noteq> CHR ''+''"
    using digit_value_char [of d] by (auto simp: digit_value_def)
  show ?thesis
  proof (cases "i < 0")
    case True
    have "nat (- i) < 2 ^ w" "nat (- i) \<le> 2 ^ m"
      using assms w True by (simp_all add: nat_less_iff nat_le_iff)
    with True w ParseUint_digits [of 10 "nat (- i)" w 0] show ?thesis
      by (simp add: ParseInt_def show_int_def)
  next
    case False
    have "nat i < 2 ^ w" "nat i < 2 ^ m"
      using assms w False by (simp_all add: nat_less_iff)
    with False h w ParseUint_digits [of 10 "nat i" w 0] show ?thesis
      by (simp add: ParseInt_def show_int_def digits_nonempty)
  qed
qed

text \<open>Outside the range of the type a number is refused.\<close>

lemma ParseInt_out_of_range:
  assumes "2 \<le> w" "i < - (2 ^ (w - 1)) \<or> 2 ^ (w - 1) \<le> i"
  shows "\<exists>k. ParseInt (show_int i) 10 w = (k, Some ErrRange)"
proof -
  define n where "n = nat \<bar>i\<bar>"
  obtain m where w: "w = Suc m" using assms(1) by (cases w) auto
  have big: "2 ^ m \<le> n" and over: "i < 0 \<Longrightarrow> 2 ^ m < n"
    using assms(2) by (auto simp: w n_def nat_le_iff le_nat_iff zless_nat_eq_int_zless)
  obtain d where "d < 10" "hd (digits 10 n) = digit_char d"
    using hd_digits [of 10 n] by auto
  then have h: "hd (digits 10 n) \<noteq> CHR ''-''" "hd (digits 10 n) \<noteq> CHR ''+''"
    using digit_value_char [of d] by (auto simp: digit_value_def)
  have parse: "ParseUint (digits 10 n) 10 w = (if n < 2 ^ w then (n, None) else (2 ^ w - 1, Some ErrRange))"
    using ParseUint_digits [of 10 n w 0] ParseUint_loop_overflow [of 10 "2 ^ w - 1" n]
      zero_less_power [of "2 :: nat" w]
    by (cases "n < 2 ^ w") (simp_all add: ParseUint_def digits_nonempty less_eq_Suc_le)
  obtain m' where m': "m = Suc m'" using assms(1) w by (cases m) auto
  have "2 ^ m < (2 :: nat) ^ w - 1"
    unfolding w m' power_Suc using zero_less_power [of "2 :: nat" m'] by linarith
  show ?thesis
  proof (cases "i < 0")
    case True
    then have "ParseInt (show_int i) 10 w = (let (un, err) = ParseUint (digits 10 n) 10 w in
        if err = Some ErrSyntax then (0, err) else if 2 ^ m < un then (- (2 ^ m), Some ErrRange) else (- int un, None))"
      by (simp add: ParseInt_def show_int_def n_def w split: prod.split)
    with over True parse \<open>2 ^ m < (2 :: nat) ^ w - 1\<close> show ?thesis by auto
  next
    case False
    then have "ParseInt (show_int i) 10 w = (let (un, err) = ParseUint (digits 10 n) 10 w in
        if err = Some ErrSyntax then (0, err) else if 2 ^ m \<le> un then (2 ^ m - 1, Some ErrRange) else (int un, None))"
      using h by (simp add: ParseInt_def show_int_def n_def w digits_nonempty split: prod.split)
    with big parse \<open>2 ^ m < (2 :: nat) ^ w - 1\<close> show ?thesis by auto
  qed
qed

text \<open>The bytes of a number, by type; parsing its decimal text stores them, or refuses it.\<close>

definition int_bytes :: "Type \<Rightarrow> int \<Rightarrow> bytes" where
  "int_bytes t n = (if t = Int8 then le_bytes 1 (of_int n :: 8 word) else if t = Int16 then le_bytes 2 (of_int n :: 16 word)
     else if t = Int32 then le_bytes 4 (of_int n :: 32 word) else le_bytes 8 (of_int n :: 64 word))"

lemma FromString_decimal:
  assumes "wf_value v" "v_typ v \<in> {Int8, Int16, Int32, Int64}"
  shows "FromString (show_int n) v = Some
    (if - (2 ^ (BitSize (v_typ v) - 1)) \<le> n \<and> n < 2 ^ (BitSize (v_typ v) - 1)
     then (None, v\<lparr>v_data := int_bytes (v_typ v) n\<rparr>) else (Some (NumError ErrRange), v))"
proof -
  define bs where "bs = BitSize (v_typ v)"
  have bs: "2 \<le> bs" using assms(2) by (auto simp: bs_def BitSize_def)
  have store: "v_typ v = Int8 \<Longrightarrow> store_uint 1 w1 v = Some (None, v\<lparr>v_data := le_bytes 1 w1\<rparr>)"
    "v_typ v = Int16 \<Longrightarrow> store_uint 2 w2 v = Some (None, v\<lparr>v_data := le_bytes 2 w2\<rparr>)"
    "v_typ v = Int32 \<Longrightarrow> store_uint 4 w3 v = Some (None, v\<lparr>v_data := le_bytes 4 w3\<rparr>)"
    "v_typ v = Int64 \<Longrightarrow> store_uint 8 w4 v = Some (None, v\<lparr>v_data := le_bytes 8 w4\<rparr>)"
    for w1 :: "8 word" and w2 :: "16 word" and w3 :: "32 word" and w4 :: "64 word"
    by (simp_all add: FromString_store [OF assms(1)] ByteSize_simps)
  show ?thesis
  proof (cases "- (2 ^ (bs - 1)) \<le> n \<and> n < 2 ^ (bs - 1)")
    case True
    with bs have "ParseInt (show_int n) 10 bs = (n, None)" by (intro ParseInt_show_int) auto
    with True assms(2) store show ?thesis
      by (auto simp: FromString_def Let_def int_bytes_def simp flip: bs_def)
  next
    case False
    then have "n < - (2 ^ (bs - 1)) \<or> 2 ^ (bs - 1) \<le> n" by auto
    from ParseInt_out_of_range [OF bs this] obtain k where "ParseInt (show_int n) 10 bs = (k, Some ErrRange)" ..
    with False assms(2) show ?thesis by (auto simp: FromString_def Let_def simp flip: bs_def)
  qed
qed

lemma parse_printed_int:
  assumes "LENGTH('a) = 8 * n" "length d = n" "i = sint (le_word d :: 'a::len word)"
  shows "ParseInt (show_int i) 10 (8 * n) = (i, None) \<and> le_bytes n (of_int i :: 'a word) = d"
proof
  have "- (2 ^ (LENGTH('a) - 1)) \<le> i" "i < 2 ^ (LENGTH('a) - 1)"
    unfolding assms(3) by (rule sint_ge, rule sint_lt)
  then show "ParseInt (show_int i) 10 (8 * n) = (i, None)"
    unfolding assms(1) [symmetric] by (intro ParseInt_show_int) simp_all
  show "le_bytes n (of_int i :: 'a word) = d"
    using le_bytes_le_word [of d, where 'a = 'a] assms by simp
qed

lemma copy_at_replicate: "length d = n \<Longrightarrow> copy_at (replicate n 0) 0 d = d"
  by (simp add: copy_at_def)

lemma Format_int:
  assumes "wf_value v"
  shows "v_typ v = Int8 \<Longrightarrow> Format sf [] v = Some (show_int (sint (le_word (v_data v) :: 8 word)))"
    and "v_typ v = Int16 \<Longrightarrow> Format sf [] v = Some (show_int (sint (le_word (v_data v) :: 16 word)))"
    and "v_typ v = Int32 \<Longrightarrow> Format sf [] v = Some (show_int (sint (le_word (v_data v) :: 32 word)))"
    and "v_typ v = Int64 \<Longrightarrow> Format sf [] v = Some (show_int (sint (le_word (v_data v) :: 64 word)))"
  using assms by (auto simp: Format_def ToRaw_def Uint_def index_def wf_value_def ByteSize_simps
      copy_at_replicate copy_at_def Let_def length_Suc_conv)

lemma upper_hex_digit:
  assumes "d < 16"
  shows "hex_digit (to_lower (upper_hex d)) = Some d \<and> space_rune (upper_hex d # cs) = 0"
proof (cases "d < 10")
  case True
  then have "of_char (upper_hex d) = 48 + d"
    by (simp add: upper_hex_def of_char_of)
  with True show ?thesis
    by (simp add: hex_digit_def digit_value_def to_lower_def space_rune_def Let_def)
next
  case False
  with assms have "of_char (upper_hex d) = 55 + d"
    by (simp add: upper_hex_def of_char_of)
  with False assms show ?thesis
    by (simp add: hex_digit_def digit_value_def to_lower_def space_rune_def Let_def of_char_of)
qed

lemma join_fields_hex_byte: "join_fields (hex_byte b @ cs) = hex_byte b @ join_fields cs"
proof -
  have "unat b div 16 < 16" "unat b mod 16 < 16"
    using unsigned_less [of b, where 'a = nat] by (simp_all add: less_mult_imp_div_less)
  then show ?thesis by (simp add: hex_byte_def upper_hex_digit)
qed

lemma join_fields_blank: "join_fields (CHR '' '' # cs) = join_fields cs"
  by (simp add: space_rune_def)

lemma hex_decode_byte:
  "hex_decode (map to_lower (hex_byte b) @ cs) = (let (bs, err) = hex_decode cs in (b # bs, err))"
proof -
  have "unat b div 16 < 16" "unat b mod 16 < 16"
    using unsigned_less [of b, where 'a = nat] by (simp_all add: less_mult_imp_div_less)
  moreover have "(of_nat (16 * (unat b div 16) + unat b mod 16) :: u8) = b"
    by (simp only: mult_div_mod_eq) simp
  ultimately show ?thesis by (simp add: hex_byte_def upper_hex_digit)
qed

lemma hex_dump_parses:
  "let s = map to_lower (join_fields (hex_dump bs)) in even (length s) \<and> hex_decode s = (bs, None)"
proof (induction bs rule: hex_dump.induct)
  case (2 b)
  show ?case
    using join_fields_hex_byte [of b "[]"] hex_decode_byte [of b "[]"]
    by (simp add: Let_def) (simp add: hex_byte_def)
next
  case (3 b c bs)
  then show ?case
    by (simp add: join_fields_hex_byte join_fields_blank hex_decode_byte Let_def del: join_fields.simps)
      (simp add: hex_byte_def)
qed simp

text \<open>
  C33: printing an integer or a non-empty byte string and parsing the text back, into any well-formed value
  of the same type, stores the same bytes.
\<close>

theorem Format_FromString:
  assumes "wf_value v" "\<not> is_float_type (v_typ v)" "v_typ v \<le> Int64" "v_data v \<noteq> []"
    and "wf_value u" "v_typ u = v_typ v"
  shows "\<exists>s. Format sf [] v = Some s \<and> FromString s u = Some (None, u\<lparr>v_data := v_data v\<rparr>)"
proof -
  define d where "d = v_data v"
  note store = FromString_store [OF assms(5)]
  have "v_typ v = Bytes \<or> v_typ v = Int8 \<or> v_typ v = Int16 \<or> v_typ v = Int32 \<or> v_typ v = Int64"
    using assms(3) by (auto simp: word_le_nat_alt word_unat_eq_iff)
  then consider "v_typ v = Bytes" | "v_typ v = Int8" | "v_typ v = Int16" | "v_typ v = Int32" | "v_typ v = Int64"
    by blast
  then show ?thesis
  proof cases
    case 1
    then show ?thesis
      using assms(4,6) hex_dump_parses [of "v_data v"]
      by (simp add: Format_def FromString_def Value_String_def is_float_type_def Let_def)
  next
    case 2
    moreover from this assms have "length d = 1" by (simp add: d_def wf_value_def ByteSize_simps)
    ultimately show ?thesis
      using parse_printed_int [where 'a = 8, of 1 d, OF _ _ refl] assms(6) Format_int(1) [OF assms(1), of sf]
      by (simp add: FromString_def store ByteSize_simps BitSize_def flip: d_def)
  next
    case 3
    moreover from this assms have "length d = 2" by (simp add: d_def wf_value_def ByteSize_simps)
    ultimately show ?thesis
      using parse_printed_int [where 'a = 16, of 2 d, OF _ _ refl] assms(6) Format_int(2) [OF assms(1), of sf]
      by (simp add: FromString_def store ByteSize_simps BitSize_def flip: d_def)
  next
    case 4
    moreover from this assms have "length d = 4" by (simp add: d_def wf_value_def ByteSize_simps)
    ultimately show ?thesis
      using parse_printed_int [where 'a = 32, of 4 d, OF _ _ refl] assms(6) Format_int(3) [OF assms(1), of sf]
      by (simp add: FromString_def store ByteSize_simps BitSize_def flip: d_def)
  next
    case 5
    moreover from this assms have "length d = 8" by (simp add: d_def wf_value_def ByteSize_simps)
    ultimately show ?thesis
      using parse_printed_int [where 'a = 64, of 8 d, OF _ _ refl] assms(6) Format_int(4) [OF assms(1), of sf]
      by (simp add: FromString_def store ByteSize_simps BitSize_def flip: d_def)
  qed
qed

theorem Format_FromString_witness:
  "\<exists>s. Format (\<lambda>_ _. []) [] (NewBytes [0xDE, 0xAD]) = Some s \<and>
     FromString s (NewBytes []) = Some (None, NewBytes [0xDE, 0xAD])"
  using Format_FromString [of "NewBytes [0xDE, 0xAD]" "NewBytes []"]
  by (simp add: wf_value_constructors) (simp add: NewBytes_def is_float_type_def)

end
