(* ===== verification/Rounded_Float.thy ===== *)
theory Rounded_Float
  imports Value
begin

text \<open>
  Searching floats by interval (\<^verbatim>\<open>scanner/rounded_float.go\<close>) and the interface \<open>ValueComparable\<close> a scan
  compares memory through: its size, its test, and the byte that is to spoil a buffer that
  could not be read.
\<close>

definition float32Epsilon :: fl where
  "float32Epsilon = fconst F32 1 100000"

definition float64Epsilon :: fl where
  "float64Epsilon = fconst F64 1 1000000000"

text \<open>The constants 1 and 1/2.\<close>

definition fone :: "fmt \<Rightarrow> fl" where
  "fone f = Fin False (2 ^ scale f)"

definition fhalf :: "fmt \<Rightarrow> fl" where
  "fhalf f = Fin False (2 ^ (scale f - 1))"

record RoundedFloat32 =
  rf32_min :: fl
  rf32_max :: fl
  rf32_raw :: bytes

record RoundedFloat64 =
  rf64_min :: fl
  rf64_max :: fl
  rf64_raw :: bytes

definition rf32_EqualBytes :: "RoundedFloat32 \<Rightarrow> bytes \<Rightarrow> bool go" where
  "rf32_EqualBytes rf b =
     do { w \<leftarrow> Uint 4 b;
          let v = Float32frombits w;
          Some (fle (rf32_min rf) v \<and> flt v (rf32_max rf)) }"

definition rf64_EqualBytes :: "RoundedFloat64 \<Rightarrow> bytes \<Rightarrow> bool go" where
  "rf64_EqualBytes rf b =
     do { w \<leftarrow> Uint 8 b;
          let v = Float64frombits w;
          Some (fle (rf64_min rf) v \<and> flt v (rf64_max rf)) }"

definition rf32_DisturbingByte :: "RoundedFloat32 \<Rightarrow> u8 go" where
  "rf32_DisturbingByte rf = do { b \<leftarrow> index (rf32_raw rf) 0; Some (NOT b) }"

definition rf64_DisturbingByte :: "RoundedFloat64 \<Rightarrow> u8 go" where
  "rf64_DisturbingByte rf = do { b \<leftarrow> index (rf64_raw rf) 0; Some (NOT b) }"

text \<open>The interval of each option; without one both bounds keep their zero value.\<close>

definition rf32_bounds :: "Option \<Rightarrow> fl \<Rightarrow> fl \<times> fl" where
  "rf32_bounds opt i =
     (if opt = OptionFloatRounded then
        let r = to32 (math_Round (to64 i)) in (fsub F32 r (fhalf F32), fadd F32 r (fhalf F32))
      else if opt = OptionFloatExtreme then
        (fadd F32 (fsub F32 i (fone F32)) float32Epsilon, fadd F32 i (fone F32))
      else if opt = OptionFloatTruncated then
        let r = to32 (math_Trunc (to64 i)) in (r, fadd F32 r (fone F32))
      else (Fin False 0, Fin False 0))"

definition rf64_bounds :: "Option \<Rightarrow> fl \<Rightarrow> fl \<times> fl" where
  "rf64_bounds opt i =
     (if opt = OptionFloatRounded then
        let r = math_Round i in (fsub F64 r (fhalf F64), fadd F64 r (fhalf F64))
      else if opt = OptionFloatExtreme then
        (fadd F64 (fsub F64 i (fone F64)) float64Epsilon, fadd F64 i (fone F64))
      else if opt = OptionFloatTruncated then
        let r = math_Trunc i in (r, fadd F64 r (fone F64))
      else (Fin False 0, Fin False 0))"

definition newRoundedFloat32 :: "Value \<Rightarrow> RoundedFloat32 go" where
  "newRoundedFloat32 v =
     do { x \<leftarrow> ToRaw Float32 v;
          i \<leftarrow> (case x of RawFloat32 i \<Rightarrow> Some i | _ \<Rightarrow> None);
          let (lo, hi) = rf32_bounds (v_option v) i;
          Some \<lparr>rf32_min = lo, rf32_max = hi, rf32_raw = copy_at (replicate 4 0) 0 (v_data v)\<rparr> }"

definition newRoundedFloat64 :: "Value \<Rightarrow> RoundedFloat64 go" where
  "newRoundedFloat64 v =
     do { x \<leftarrow> ToRaw Float64 v;
          i \<leftarrow> (case x of RawFloat64 i \<Rightarrow> Some i | _ \<Rightarrow> None);
          let (lo, hi) = rf64_bounds (v_option v) i;
          Some \<lparr>rf64_min = lo, rf64_max = hi, rf64_raw = copy_at (replicate 8 0) 0 (v_data v)\<rparr> }"

section \<open>The interface\<close>

datatype ValueComparable = CmpValue Value | CmpRounded32 RoundedFloat32 | CmpRounded64 RoundedFloat64

fun comp_Size :: "ValueComparable \<Rightarrow> nat" where
  "comp_Size (CmpValue v) = Value_Size v"
| "comp_Size (CmpRounded32 rf) = 4"
| "comp_Size (CmpRounded64 rf) = 8"

fun comp_EqualBytes :: "ValueComparable \<Rightarrow> bytes \<Rightarrow> bool go" where
  "comp_EqualBytes (CmpValue v) b = Some (Value_EqualBytes v b)"
| "comp_EqualBytes (CmpRounded32 rf) b = rf32_EqualBytes rf b"
| "comp_EqualBytes (CmpRounded64 rf) b = rf64_EqualBytes rf b"

fun comp_DisturbingByte :: "ValueComparable \<Rightarrow> u8 go" where
  "comp_DisturbingByte (CmpValue v) = Value_DisturbingByte v"
| "comp_DisturbingByte (CmpRounded32 rf) = rf32_DisturbingByte rf"
| "comp_DisturbingByte (CmpRounded64 rf) = rf64_DisturbingByte rf"

definition Value_Comparable :: "Value \<Rightarrow> ValueComparable go" where
  "Value_Comparable v =
     (if HasOption v \<and> v_typ v = Float32 then map_option CmpRounded32 (newRoundedFloat32 v)
      else if HasOption v \<and> v_typ v = Float64 then map_option CmpRounded64 (newRoundedFloat64 v)
      else Some (CmpValue v))"

fun wf_comparable :: "ValueComparable \<Rightarrow> bool" where
  "wf_comparable (CmpValue v) \<longleftrightarrow> wf_value v \<and> v_data v \<noteq> []"
| "wf_comparable (CmpRounded32 rf) \<longleftrightarrow> length (rf32_raw rf) = 4"
| "wf_comparable (CmpRounded64 rf) \<longleftrightarrow> length (rf64_raw rf) = 8"

text \<open>What a scan relies on: the test and the disturbing byte never panic on a buffer of the size.\<close>

locale value_comparable =
  fixes wf :: "'c \<Rightarrow> bool" and size_of :: "'c \<Rightarrow> nat" and equal :: "'c \<Rightarrow> bytes \<Rightarrow> bool go"
    and disturb :: "'c \<Rightarrow> u8 go"
  assumes size_pos: "wf c \<Longrightarrow> 0 < size_of c"
    and equal_total: "wf c \<Longrightarrow> length b = size_of c \<Longrightarrow> \<exists>r. equal c b = Some r"
    and disturb_total: "wf c \<Longrightarrow> \<exists>d. disturb c = Some d"
begin

definition matches :: "'c \<Rightarrow> bytes \<Rightarrow> bool" where
  "matches c b \<longleftrightarrow> equal c b = Some True"

lemma equal_matches: "wf c \<Longrightarrow> length b = size_of c \<Longrightarrow> equal c b = Some (matches c b)"
  using equal_total [of c b] by (auto simp: matches_def)

end

text \<open>With this further law the disturbing byte rejects what could not be read.\<close>

locale disturbing_comparable = value_comparable wf size_of equal disturb
  for wf :: "'c \<Rightarrow> bool" and size_of equal disturb +
  assumes disturb_rejects: "wf c \<Longrightarrow> disturb c = Some d \<Longrightarrow> length (d # b) = size_of c \<Longrightarrow>
    equal c (d # b) = Some False"
begin

lemma disturbed_no_match: "wf c \<Longrightarrow> disturb c = Some d \<Longrightarrow> Suc (length b) = size_of c \<Longrightarrow> \<not> matches c (d # b)"
  using disturb_rejects [of c d b] by (simp add: matches_def)

end

lemma not_byte_neq: "NOT (x :: u8) \<noteq> x"
proof
  assume "NOT x = x"
  then have "bit (NOT x) 0 = bit x 0" by simp
  then show False by (simp add: bit_simps)
qed

interpretation cmp: value_comparable wf_comparable comp_Size comp_EqualBytes comp_DisturbingByte
proof
  fix c :: ValueComparable and b :: bytes
  assume wf: "wf_comparable c"
  show "0 < comp_Size c"
    using wf by (cases c) (auto simp: wf_value_Size)
  show "\<exists>r. comp_EqualBytes c b = Some r" if "length b = comp_Size c"
    using that by (cases c) (auto simp: rf32_EqualBytes_def rf64_EqualBytes_def Uint_def Let_def)
  show "\<exists>d. comp_DisturbingByte c = Some d"
    using wf by (cases c) (auto simp: Value_DisturbingByte_def rf32_DisturbingByte_def
        rf64_DisturbingByte_def index_def)
qed

interpretation val: disturbing_comparable "\<lambda>v. wf_value v \<and> v_data v \<noteq> []" Value_Size
  "\<lambda>v b. Some (Value_EqualBytes v b)" Value_DisturbingByte
proof
  fix v :: Value and b :: bytes and d :: u8
  assume wf: "wf_value v \<and> v_data v \<noteq> []"
  then show "0 < Value_Size v" "\<exists>d. Value_DisturbingByte v = Some d"
    by (auto simp: wf_value_Size Value_DisturbingByte_def index_def)
  show "\<exists>r. Some (Value_EqualBytes v b) = Some r" by simp
  show "Some (Value_EqualBytes v (d # b)) = Some False" if "Value_DisturbingByte v = Some d"
    using that wf not_byte_neq not_byte_neq [symmetric]
    by (cases "v_data v") (auto simp: Value_DisturbingByte_def Value_EqualBytes_def index_def)
qed

section \<open>The intervals\<close>

text \<open>The float a buffer of the format's size holds.\<close>

definition float_at :: "fmt \<Rightarrow> bytes \<Rightarrow> fl" where
  "float_at f b = (case f of F32 \<Rightarrow> Float32frombits (le_word b) | F64 \<Rightarrow> Float64frombits (le_word b))"

definition float_type :: "fmt \<Rightarrow> Type" where
  "float_type f = (case f of F32 \<Rightarrow> Float32 | F64 \<Rightarrow> Float64)"

text \<open>A finite float is its units; a float lies in an interval of units or is no number.\<close>

definition within :: "fl \<Rightarrow> int \<Rightarrow> int \<Rightarrow> bool" where
  "within x lo hi \<longleftrightarrow> (case x of Fin t n \<Rightarrow> lo \<le> units t n \<and> units t n < hi | _ \<Rightarrow> False)"

lemma between_within:
  "(fle (Fin s m) x \<and> flt x (Fin t n)) = within x (units s m) (units t n)"
  by (cases x) (auto simp: within_def)

definition float_bounds :: "fmt \<Rightarrow> Option \<Rightarrow> fl \<Rightarrow> fl \<times> fl" where
  "float_bounds f = (case f of F32 \<Rightarrow> rf32_bounds | F64 \<Rightarrow> rf64_bounds)"

lemma Value_Comparable_float:
  assumes "wf_value v" "v_typ v = float_type f" "HasOption v"
    and "float_bounds f (v_option v) (float_at f (v_data v)) = (lo, hi)"
  shows "\<exists>c. Value_Comparable v = Some c \<and> wf_comparable c \<and> comp_Size c = ByteSize (float_type f) \<and>
    (\<forall>b. length b = ByteSize (float_type f) \<longrightarrow>
      comp_EqualBytes c b = Some (fle lo (float_at f b) \<and> flt (float_at f b) hi))"
proof (cases f)
  case F32
  with assms show ?thesis
    by (auto simp: Value_Comparable_def newRoundedFloat32_def ToRaw_def Uint_def wf_value_def float_type_def
        float_at_def float_bounds_def rf32_EqualBytes_def ByteSize_simps length_copy_at Let_def)
next
  case F64
  with assms show ?thesis
    by (auto simp: Value_Comparable_def newRoundedFloat64_def ToRaw_def Uint_def wf_value_def float_type_def
        float_at_def float_bounds_def rf64_EqualBytes_def ByteSize_simps length_copy_at Let_def)
qed

lemma fadd_units:
  assumes "units s m + units t n = v" "fits f (nat \<bar>v\<bar>)"
  shows "\<exists>s' m'. fadd f (Fin s m) (Fin t n) = Fin s' m' \<and> units s' m' = v"
  using fadd_exact [of f s m t n] assms by simp

lemma fits_half: "n < 2 ^ prec f \<Longrightarrow> fits f (n * 2 ^ (scale f - 1))"
  by (rule fits_mult_pow) (cases f; simp)+

lemma scale_Suc: "scale f = Suc (scale f - 1)"
  by (cases f) simp_all

lemma nat_abs_mult_pow: "nat \<bar>k * 2 ^ j\<bar> = nat \<bar>k\<bar> * 2 ^ j"
  by (simp add: abs_mult nat_mult_distrib nat_power_eq)

text \<open>Half-integers below \<open>2 ^ (p - 1)\<close> have no rounding error.\<close>

lemma half_step:
  assumes "\<bar>k + j\<bar> < 2 ^ prec f"
    and "units s m = k * 2 ^ (scale f - 1)" "units t n = j * 2 ^ (scale f - 1)"
  shows "\<exists>s' m'. fadd f (Fin s m) (Fin t n) = Fin s' m' \<and> units s' m' = (k + j) * 2 ^ (scale f - 1)"
proof (rule fadd_units)
  have "nat \<bar>k + j\<bar> < 2 ^ prec f"
    using assms(1) by (simp add: nat_less_iff)
  then show "fits f (nat \<bar>(k + j) * 2 ^ (scale f - 1)\<bar>)"
    unfolding nat_abs_mult_pow by (rule fits_half)
qed (simp add: assms(2,3) distrib_right)

section \<open>What the options match\<close>

text \<open>The magnitudes \<open>Round\<close> and \<open>Trunc\<close> give, as whole numbers, and the floor of a finite float.\<close>

definition round_mag :: "fmt \<Rightarrow> nat \<Rightarrow> nat" where
  "round_mag f m = (m + 2 ^ (scale f - 1)) div 2 ^ scale f"

definition trunc_mag :: "fmt \<Rightarrow> nat \<Rightarrow> nat" where
  "trunc_mag f m = m div 2 ^ scale f"

definition floor_units :: "fmt \<Rightarrow> int \<Rightarrow> int" where
  "floor_units f u = u div 2 ^ scale f"

lemma fits_whole: "k < 2 ^ prec f \<Longrightarrow> fits f (k * 2 ^ scale f)"
  by (rule fits_mult_pow) (cases f; simp)+

lemma to32_whole:
  assumes "k < 2 ^ 24"
  shows "to32 (Fin s (k * 2 ^ 1074)) = Fin s (k * 2 ^ 149)"
proof -
  have "k * 2 ^ 1074 = k * 2 ^ 149 * 2 ^ 925" by simp
  then show ?thesis
    using round_fl_exact [of F32 "k * 2 ^ 149" "2 ^ 925" s] fits_whole [of k F32] assms
    by (simp only: to32.simps scale.simps prec.simps) simp
qed

lemma Round32:
  assumes "round_mag F32 m < 2 ^ 24"
  shows "to32 (math_Round (to64 (Fin s m))) = Fin s (round_mag F32 m * 2 ^ 149)"
proof -
  have "m * 2 ^ 925 + 2 ^ 1073 = (m + 2 ^ 148) * (2 ^ 925 :: nat)" "(2 :: nat) ^ 1074 = 2 ^ 149 * 2 ^ 925"
    by simp_all
  then have "(m * 2 ^ 925 + 2 ^ 1073) div 2 ^ 1074 = round_mag F32 m"
    by (simp only: round_mag_def scale.simps div_mult_mult2 [OF power_not_zero [OF numeral_neq_zero]]) simp
  with to32_whole [OF assms, of s] show ?thesis
    by (simp only: to64.simps math_Round.simps)
qed

lemma Trunc32:
  assumes "trunc_mag F32 m < 2 ^ 24"
  shows "to32 (math_Trunc (to64 (Fin s m))) = Fin s (trunc_mag F32 m * 2 ^ 149)"
proof -
  have "(2 :: nat) ^ 1074 = 2 ^ 149 * 2 ^ 925" by simp
  then have "(m * 2 ^ 925) div 2 ^ 1074 = trunc_mag F32 m"
    by (simp only: trunc_mag_def scale.simps div_mult_mult2 [OF power_not_zero [OF numeral_neq_zero]])
  with to32_whole [OF assms, of s] show ?thesis
    by (simp only: to64.simps math_Trunc.simps)
qed

lemma float_bounds_Rounded:
  assumes "round_mag f m < 2 ^ prec f"
  shows "float_bounds f OptionFloatRounded (Fin s m) =
    (let r = Fin s (round_mag f m * 2 ^ scale f) in (fsub f r (fhalf f), fadd f r (fhalf f)))"
proof (cases f)
  case F32
  with assms show ?thesis
    by (simp only: float_bounds_def rf32_bounds_def fmt.case Round32 Let_def scale.simps prec.simps) simp
next
  case F64
  have "math_Round (Fin s m) = Fin s (round_mag F64 m * 2 ^ 1074)"
    by (simp only: math_Round.simps round_mag_def scale.simps) simp
  with F64 show ?thesis
    by (simp only: float_bounds_def rf64_bounds_def fmt.case Let_def scale.simps) simp
qed

lemma float_bounds_Truncated:
  assumes "trunc_mag f m < 2 ^ prec f"
  shows "float_bounds f OptionFloatTruncated (Fin s m) =
    (let r = Fin s (trunc_mag f m * 2 ^ scale f) in (r, fadd f r (fone f)))"
proof (cases f)
  case F32
  with assms show ?thesis
    by (simp only: float_bounds_def rf32_bounds_def fmt.case Trunc32 Let_def scale.simps prec.simps) simp
next
  case F64
  have "math_Trunc (Fin s m) = Fin s (trunc_mag F64 m * 2 ^ 1074)"
    by (simp only: math_Trunc.simps trunc_mag_def scale.simps)
  with F64 show ?thesis
    by (simp only: float_bounds_def rf64_bounds_def fmt.case Let_def scale.simps) simp
qed

lemma int_div_iff:
  fixes d :: int
  assumes "0 < d"
  shows "a div d = k \<longleftrightarrow> k * d \<le> a \<and> a < (k + 1) * d"
proof
  assume "a div d = k"
  with div_mult_mod_eq [of a d] pos_mod_bound [OF assms, of a] pos_mod_sign [OF assms, of a]
  show "k * d \<le> a \<and> a < (k + 1) * d" by (auto simp: distrib_right)
next
  assume "k * d \<le> a \<and> a < (k + 1) * d"
  then show "a div d = k"
    by (intro int_div_pos_eq [of a d k "a - k * d"]) (simp_all add: algebra_simps)
qed

lemma within_half_iff:
  fixes h :: int
  assumes "0 < h"
  shows "(2 * k - 1) * h \<le> u \<and> u < (2 * k + 1) * h \<longleftrightarrow> (u + h) div (2 * h) = k"
  using assms by (simp add: int_div_iff) (simp add: algebra_simps)

lemma two_half: "2 * 2 ^ (scale f - 1) = (2 :: 'a::semiring_1) ^ scale f"
  by (subst (2) scale_Suc) simp

lemma units_mult: "units s (k * 2 ^ j) = units s k * 2 ^ j"
  by (simp add: units_def)

lemma abs_units [simp]: "\<bar>units s k\<bar> = int k"
  by (simp add: units_def)

text \<open>
  C20: with the option \<open>Rounded\<close> a float matches exactly when it is finite and \<open>floor(x + 1/2)\<close> is the rounded
  target, for targets that round below \<open>2 ^ 23\<close> (single) or \<open>2 ^ 52\<close> (double).
\<close>

theorem Rounded_matches:
  assumes "wf_value v" "v_typ v = float_type f" "v_option v = OptionFloatRounded"
    and "float_at f (v_data v) = Fin s m" "round_mag f m < 2 ^ (prec f - 1)"
    and "length b = ByteSize (float_type f)"
  shows "\<exists>c. Value_Comparable v = Some c \<and>
    comp_EqualBytes c b = Some (case float_at f b of
        Fin t n \<Rightarrow> floor_units f (units t n + 2 ^ (scale f - 1)) = units s (round_mag f m)
      | _ \<Rightarrow> False)"
proof -
  define k where "k = units s (round_mag f m)"
  define h :: int where "h = 2 ^ (scale f - 1)"
  have p: "2 * (2 :: nat) ^ (prec f - 1) = 2 ^ prec f" "2 * (2 :: int) ^ (prec f - 1) = 2 ^ prec f"
    by (cases f; simp)+
  have k: "\<bar>k\<bar> < 2 ^ (prec f - 1)"
    using assms(5) by (simp add: k_def)
  have "round_mag f m < 2 ^ prec f"
    using assms(5) p(1) by linarith
  note bounds = float_bounds_Rounded [OF this, of s]
  have r: "units s (round_mag f m * 2 ^ scale f) = 2 * k * h"
    by (simp add: units_def k_def h_def flip: two_half)
  have lim: "\<bar>2 * k + - 1\<bar> < 2 ^ prec f" "\<bar>2 * k + 1\<bar> < 2 ^ prec f"
    using k p(2) by linarith+
  have half: "units True (2 ^ (scale f - 1)) = - 1 * h" "units False (2 ^ (scale f - 1)) = 1 * h"
    by (simp_all add: units_def h_def)
  obtain s1 m1 where lo: "fsub f (Fin s (round_mag f m * 2 ^ scale f)) (fhalf f) = Fin s1 m1"
    "units s1 m1 = (2 * k + - 1) * h"
    using half_step [OF lim(1) r [unfolded h_def] half(1) [unfolded h_def], folded h_def] by (auto simp: fsub_def fhalf_def)
  obtain s2 m2 where hi: "fadd f (Fin s (round_mag f m * 2 ^ scale f)) (fhalf f) = Fin s2 m2"
    "units s2 m2 = (2 * k + 1) * h"
    using half_step [OF lim(2) r [unfolded h_def] half(2) [unfolded h_def], folded h_def] by (auto simp: fhalf_def)
  have "HasOption v"
    using assms(2,3) by (cases f) (simp_all add: HasOption_def is_float_type_def float_type_def)
  from Value_Comparable_float [OF assms(1,2) this] assms(3,4,6) bounds lo(1) hi(1)
  obtain c where c: "Value_Comparable v = Some c"
    "comp_EqualBytes c b = Some (within (float_at f b) (units s1 m1) (units s2 m2))"
    by (auto simp: Let_def between_within)
  have "0 < h" by (simp add: h_def)
  then have w: "within x (units s1 m1) (units s2 m2) = (case x of
      Fin t n \<Rightarrow> floor_units f (units t n + h) = k | _ \<Rightarrow> False)" for x
    using within_half_iff [of h k] two_half [of f, where 'a = int]
    by (cases x) (simp_all add: within_def lo(2) hi(2) floor_units_def h_def)
  show ?thesis
    using c unfolding w k_def h_def by blast
qed

text \<open>A search for the target 100, single precision, and the bytes of two floats near it.\<close>

definition sample_float :: "Option \<Rightarrow> Value" where
  "sample_float opt = \<lparr>v_typ = Float32, v_data = [0, 0, 0xC8, 0x42], v_option = opt\<rparr>"

lemma sample_float_wf: "wf_value (sample_float opt)"
  by (simp add: wf_value_def sample_float_def ByteSize_simps)

lemma sample_float_at: "float_at F32 (v_data (sample_float opt)) = Fin False (100 * 2 ^ 149)"
  by (simp add: float_at_def Float32frombits_def sample_float_def decode_def)

theorem Rounded_matches_witness:
  "\<exists>c. Value_Comparable (sample_float OptionFloatRounded) = Some c \<and>
     comp_EqualBytes c [0, 0, 0xC8, 0x42] = Some True"
proof -
  have "float_at F32 [0, 0, 0xC8, 0x42] = Fin False (100 * 2 ^ 149)"
    using sample_float_at [of 0] by (simp add: sample_float_def)
  with Rounded_matches [of "sample_float OptionFloatRounded" F32 False "100 * 2 ^ 149" "[0, 0, 0xC8, 0x42]"]
  show ?thesis
    by (simp add: sample_float_wf sample_float_at)
      (simp add: sample_float_def float_type_def round_mag_def floor_units_def units_def ByteSize_simps)
qed

text \<open>
  C21: with the option \<open>Truncated\<close> a float matches exactly when it is finite and its floor is the truncated
  target, for targets below \<open>2 ^ 24 - 1\<close> (single) or \<open>2 ^ 53 - 1\<close> (double).
\<close>

theorem Truncated_matches:
  assumes "wf_value v" "v_typ v = float_type f" "v_option v = OptionFloatTruncated"
    and "float_at f (v_data v) = Fin s m" "trunc_mag f m + 1 < 2 ^ prec f"
    and "length b = ByteSize (float_type f)"
  shows "\<exists>c. Value_Comparable v = Some c \<and>
    comp_EqualBytes c b = Some (case float_at f b of
        Fin t n \<Rightarrow> floor_units f (units t n) = units s (trunc_mag f m)
      | _ \<Rightarrow> False)"
proof -
  define k where "k = units s (trunc_mag f m)"
  define d :: int where "d = 2 ^ scale f"
  have k: "nat \<bar>k + 1\<bar> < 2 ^ prec f"
  proof -
    have "int (trunc_mag f m + 1) < int (2 ^ prec f)"
      using assms(5) by (simp only: of_nat_less_iff)
    then have "\<bar>k + 1\<bar> < 2 ^ prec f"
      by (auto simp: k_def units_def)
    then show ?thesis by (simp add: nat_less_iff)
  qed
  have "trunc_mag f m < 2 ^ prec f"
    using assms(5) by simp
  note bounds = float_bounds_Truncated [OF this, of s]
  have r: "units s (trunc_mag f m * 2 ^ scale f) = k * d"
    by (simp add: units_mult k_def d_def)
  have sum: "units s (trunc_mag f m * 2 ^ scale f) + units False (2 ^ scale f) = (k + 1) * d"
    unfolding r by (simp add: units_def d_def distrib_right)
  have "fits f (nat \<bar>(k + 1) * d\<bar>)"
    unfolding d_def nat_abs_mult_pow by (rule fits_whole [OF k])
  from fadd_units [OF sum this] obtain s2 m2
    where hi: "fadd f (Fin s (trunc_mag f m * 2 ^ scale f)) (fone f) = Fin s2 m2"
    "units s2 m2 = (k + 1) * d" by (auto simp: fone_def)
  have "HasOption v"
    using assms(2,3) by (cases f) (simp_all add: HasOption_def is_float_type_def float_type_def)
  from Value_Comparable_float [OF assms(1,2) this] assms(3,4,6) bounds hi(1)
  obtain c where c: "Value_Comparable v = Some c"
    "comp_EqualBytes c b = Some (within (float_at f b) (k * d) (units s2 m2))"
    by (auto simp: Let_def between_within r)
  have w: "within x (k * d) (units s2 m2) = (case x of
      Fin t n \<Rightarrow> floor_units f (units t n) = k | _ \<Rightarrow> False)" for x
    using int_div_iff [of d] by (cases x) (simp_all add: within_def hi(2) floor_units_def d_def)
  show ?thesis
    using c unfolding w unfolding k_def by blast
qed

theorem Truncated_matches_witness:
  "\<exists>c. Value_Comparable (sample_float OptionFloatTruncated) = Some c \<and>
     comp_EqualBytes c [0, 0, 0xC8, 0x42] = Some True"
proof -
  have "float_at F32 [0, 0, 0xC8, 0x42] = Fin False (100 * 2 ^ 149)"
    using sample_float_at [of 0] by (simp add: sample_float_def)
  with Truncated_matches [of "sample_float OptionFloatTruncated" F32 False "100 * 2 ^ 149" "[0, 0, 0xC8, 0x42]"]
  show ?thesis
    by (simp add: sample_float_wf sample_float_at)
      (simp add: sample_float_def float_type_def trunc_mag_def floor_units_def units_def ByteSize_simps)
qed

section \<open>The option Extreme\<close>

definition epsilon :: "fmt \<Rightarrow> fl" where
  "epsilon f = (case f of F32 \<Rightarrow> float32Epsilon | F64 \<Rightarrow> float64Epsilon)"

lemma epsilon_Fin: "\<exists>e. epsilon f = Fin False e"
proof -
  have "fits f (1 * 2 ^ scale f)"
    by (rule fits_whole) (cases f; simp)
  then have "\<exists>e. round_fl f False (1 * 2 ^ scale f) den = Fin False e" if "0 < den" for den
    using round_fl_small [of f "1 * 2 ^ scale f" "1 * 2 ^ scale f" den False] that by auto
  from this [of 100000] this [of 1000000000] show ?thesis
    by (cases f) (simp_all add: epsilon_def float32Epsilon_def float64Epsilon_def fconst_def)
qed

lemma float_bounds_Extreme:
  "float_bounds f OptionFloatExtreme i = (fadd f (fsub f i (fone f)) (epsilon f), fadd f i (fone f))"
  by (cases f) (simp_all add: float_bounds_def rf32_bounds_def rf64_bounds_def epsilon_def)

lemma whole_step:
  assumes "\<bar>k + j\<bar> < 2 ^ prec f" "units s m = k * 2 ^ scale f" "units t n = j * 2 ^ scale f"
  shows "\<exists>s' m'. fadd f (Fin s m) (Fin t n) = Fin s' m' \<and> units s' m' = (k + j) * 2 ^ scale f"
proof (rule fadd_units)
  have "nat \<bar>k + j\<bar> < 2 ^ prec f"
    using assms(1) by (simp add: nat_less_iff)
  then show "fits f (nat \<bar>(k + j) * 2 ^ scale f\<bar>)"
    unfolding nat_abs_mult_pow by (rule fits_whole)
qed (simp add: assms(2,3) distrib_right)

text \<open>
  With the option \<open>Extreme\<close> and a whole target \<open>T\<close> below \<open>2 ^ 24 - 1\<close> (single) or \<open>2 ^ 53 - 1\<close> (double),
  every float that matches is finite and lies in the interval from \<open>T - 1\<close> to \<open>T + 1\<close>, its end excluded.
\<close>

lemma Extreme_sound:
  assumes "wf_value v" "v_typ v = float_type f" "v_option v = OptionFloatExtreme"
    and "float_at f (v_data v) = Fin s m" "units s m = T * 2 ^ scale f" "\<bar>T\<bar> + 1 < 2 ^ prec f"
    and "length b = ByteSize (float_type f)" "Value_Comparable v = Some c" "comp_EqualBytes c b = Some True"
  shows "\<exists>t n. float_at f b = Fin t n \<and> (T - 1) * 2 ^ scale f \<le> units t n \<and> units t n < (T + 1) * 2 ^ scale f"
proof -
  define x where "x = float_at f b"
  have lim: "\<bar>T + - 1\<bar> < 2 ^ prec f" "\<bar>T + 1\<bar> < 2 ^ prec f"
    using assms(6) by linarith+
  have one: "units True (2 ^ scale f) = - 1 * 2 ^ scale f" "units False (2 ^ scale f) = 1 * 2 ^ scale f"
    by (simp_all add: units_sign)
  obtain s1 m1 where lo: "fsub f (Fin s m) (fone f) = Fin s1 m1" "units s1 m1 = (T - 1) * 2 ^ scale f"
    using whole_step [OF lim(1) assms(5) one(1)] by (auto simp: fsub_def fone_def)
  obtain s2 m2 where hi: "fadd f (Fin s m) (fone f) = Fin s2 m2" "units s2 m2 = (T + 1) * 2 ^ scale f"
    using whole_step [OF lim(2) assms(5) one(2)] by (auto simp: fone_def)
  obtain e where e: "epsilon f = Fin False e"
    using epsilon_Fin by blast
  have "HasOption v"
    using assms(2,3) by (cases f) (simp_all add: HasOption_def is_float_type_def float_type_def)
  from Value_Comparable_float [OF assms(1,2) this] assms(3,4,7,8,9) lo(1) hi(1)
  have m: "fle (fadd f (Fin s1 m1) (epsilon f)) x" "flt x (Fin s2 m2)"
    by (auto simp: float_bounds_Extreme x_def)
  define w where "w = (T - 1) * 2 ^ scale f"
  have "nat \<bar>T - 1\<bar> < 2 ^ prec f"
    using lim(1) by (simp add: nat_less_iff)
  then have "fits f (nat \<bar>w\<bar>)"
    unfolding w_def nat_abs_mult_pow by (rule fits_whole)
  moreover have "w \<le> units s1 m1 + units False e"
    by (simp add: lo(2) w_def units_sign)
  ultimately have "fle (Fin (w < 0) (nat \<bar>w\<bar>)) (fadd f (Fin s1 m1) (epsilon f))"
    unfolding e by (rule fadd_lower)
  with m have "\<exists>t n. x = Fin t n \<and> w \<le> units t n \<and> units t n < units s2 m2"
    by (cases x; cases "fadd f (Fin s1 m1) (epsilon f)") (auto simp: units_of_int)
  then show ?thesis
    by (simp add: x_def w_def hi(2))
qed

lemmas float_eval = round_fl_def round_units_def rne_def bit_length.simps fsub_def fone_def fhalf_def units_def
  fconst_def rf32_bounds_def decode_def Float32frombits_def float32Epsilon_def Let_def

lemma le_word_le_bytes_32 [simp]: "le_word (le_bytes 4 w) = (w :: 32 word)"
  by (simp add: le_word_le_bytes take_bit_word_eq_self)

lemma NewFloat32_Comparable:
  assumes "0 < opt" "opt \<le> OptionFloatTruncated" "rf32_bounds opt (Float32frombits (Float32bits x)) = (lo, hi)"
  shows "Value_Comparable (NewFloat32 x [opt]) =
    Some (CmpRounded32 \<lparr>rf32_min = lo, rf32_max = hi, rf32_raw = le_bytes 4 (Float32bits x)\<rparr>)"
  using assms
  by (simp add: Value_Comparable_def HasOption_def is_float_type_def NewFloat32_def option_arg_def
      newRoundedFloat32_def ToRaw_def Uint_def copy_at_replicate)

lemma rf32_equal:
  "length b = 4 \<Longrightarrow> comp_EqualBytes (CmpRounded32 \<lparr>rf32_min = lo, rf32_max = hi, rf32_raw = raw\<rparr>) b =
    Some (fle lo (float_at F32 b) \<and> flt (float_at F32 b) hi)"
  by (simp add: rf32_EqualBytes_def Uint_def float_at_def Let_def)

lemma exact_targets:
  "Float32frombits (Float32bits (Fin False (100 * 2 ^ 149))) = Fin False (100 * 2 ^ 149)"
  "Float32frombits (Float32bits (Fin False (1000 * 2 ^ 149))) = Fin False (1000 * 2 ^ 149)"
  "Float32frombits (Float32bits (Fin False (2 ^ 24 * 2 ^ 149))) = Fin False (2 ^ 24 * 2 ^ 149)"
  by (simp_all add: Float32bits_def float_eval)

text \<open>
  The small constant that is to keep \<open>T - 1\<close> out of the interval of \<open>Extreme\<close> is lost in single
  precision above 256: a search for 1000 matches the bytes of 999, whose floor and ceiling are 999.
\<close>

lemma Extreme_matches_below:
  "float_at F32 [0, 0xC0, 0x79, 0x44] = Fin False (999 * 2 ^ 149) \<and>
   (\<exists>c. Value_Comparable (NewFloat32 (Fin False (1000 * 2 ^ 149)) [OptionFloatExtreme]) = Some c \<and>
        comp_EqualBytes c [0, 0xC0, 0x79, 0x44] = Some True)"
proof
  show x: "float_at F32 [0, 0xC0, 0x79, 0x44] = Fin False (999 * 2 ^ 149)"
    by (simp add: float_at_def float_eval)
  have b: "rf32_bounds OptionFloatExtreme (Fin False (1000 * 2 ^ 149)) =
      (Fin False (999 * 2 ^ 149), Fin False (1001 * 2 ^ 149))"
    by (simp add: float_eval)
  show "\<exists>c. Value_Comparable (NewFloat32 (Fin False (1000 * 2 ^ 149)) [OptionFloatExtreme]) = Some c \<and>
      comp_EqualBytes c [0, 0xC0, 0x79, 0x44] = Some True"
    using NewFloat32_Comparable [of OptionFloatExtreme "Fin False (1000 * 2 ^ 149)", unfolded exact_targets, OF _ _ b]
    by (simp add: rf32_equal x units_def del: comp_EqualBytes.simps)
qed

text \<open>
  From \<open>2 ^ 24\<close> on, adding or subtracting one half is lost in single precision, and a \<open>Rounded\<close> search for
  \<open>2 ^ 24\<close> matches nothing, the target's own bytes included.
\<close>

lemma Rounded_large_target:
  "\<exists>c. Value_Comparable (NewFloat32 (Fin False (2 ^ 24 * 2 ^ 149)) [OptionFloatRounded]) = Some c \<and>
     (\<forall>b0 b1 b2 b3. comp_EqualBytes c [b0, b1, b2, b3] = Some False)"
proof -
  have b: "rf32_bounds OptionFloatRounded (Fin False (2 ^ 24 * 2 ^ 149)) =
      (Fin False (2 ^ 24 * 2 ^ 149), Fin False (2 ^ 24 * 2 ^ 149))"
    by (simp add: float_eval)
  have no: "\<not> (fle (Fin s m) x \<and> flt x (Fin s m))" for s m x
    by (cases x) auto
  show ?thesis
    using NewFloat32_Comparable [of OptionFloatRounded "Fin False (2 ^ 24 * 2 ^ 149)", unfolded exact_targets, OF _ _ b]
      no [of False "2 ^ 24 * 2 ^ 149"]
    by (simp add: rf32_equal del: comp_EqualBytes.simps)
qed

text \<open>
  The disturbing byte does not reject what could not be read when a float is searched by interval: over
  a cleared buffer it makes a tiny number, which a \<open>Rounded\<close> search for 0 matches.
\<close>

lemma disturbing_byte_matches:
  "\<exists>c d. Value_Comparable (NewFloat32 (Fin False 0) [OptionFloatRounded]) = Some c \<and>
     comp_DisturbingByte c = Some d \<and> comp_EqualBytes c [d, 0, 0, 0] = Some True"
proof -
  have z: "Float32bits (Fin False 0) = 0" "Float32frombits 0 = Fin False 0"
    by (simp_all add: Float32bits_def float_eval)
  have b: "rf32_bounds OptionFloatRounded (Fin False 0) = (Fin True (2 ^ 148), Fin False (2 ^ 148))"
    by (simp add: float_eval)
  have "(ucast (- 1 :: u8) :: 32 word) = 255"
    by code_simp
  then have x: "float_at F32 [- 1, 0, 0, 0] = Fin False 255"
    by (simp add: float_at_def float_eval)
  have "index (le_bytes 4 (0 :: 32 word)) 0 = Some 0"
    by (simp add: index_def numeral_eq_Suc le_bytes.simps)
  then show ?thesis
    using NewFloat32_Comparable [of OptionFloatRounded "Fin False 0", unfolded z, OF _ _ b]
    by (simp add: rf32_equal x units_def rf32_DisturbingByte_def del: comp_EqualBytes.simps)
qed

end
