(* ===== verification/Region_Reader.thy ===== *)
theory Region_Reader
  imports GoStdlib
begin

text \<open>
  Reading the memory of another process (\<^verbatim>\<open>region_reader.go\<close>, \<^verbatim>\<open>pool.go\<close>) and \<^verbatim>\<open>io.ReadFull\<close> over it.
  The system call \<^verbatim>\<open>process_vm_readv\<close> is a parameter: from the process and the remote ranges it
  gives its return value, the error, and the bytes it stored in the local buffers.
\<close>

section \<open>The system call\<close>

datatype errno = EFAULT | ESRCH | EPERM | EINVAL

type_synonym iovec = "u64 \<times> nat"

type_synonym vm_readv = "int \<Rightarrow> iovec list \<Rightarrow> int \<times> errno option \<times> bytes"

type_synonym memory = "u64 \<Rightarrow> u8 option"

definition iov_addrs :: "iovec \<Rightarrow> u64 list" where
  "iov_addrs = (\<lambda>(a, k). map (\<lambda>i. a + of_nat i) [0..<k])"

definition readable :: "memory \<Rightarrow> u64 list \<Rightarrow> bool" where
  "readable mem addrs \<longleftrightarrow> list_all (\<lambda>a. mem a \<noteq> None) addrs"

definition contents_at :: "memory \<Rightarrow> u64 list \<Rightarrow> bytes" where
  "contents_at mem addrs = map (\<lambda>a. the (mem a)) addrs"

text \<open>The leading ranges that are readable as a whole.\<close>

definition whole_iovs :: "memory \<Rightarrow> iovec list \<Rightarrow> iovec list" where
  "whole_iovs mem iovs = takeWhile (\<lambda>iov. readable mem (iov_addrs iov)) iovs"

definition iovs_addrs :: "iovec list \<Rightarrow> u64 list" where
  "iovs_addrs iovs = concat (map iov_addrs iovs)"

text \<open>
  What the manual page of \<^verbatim>\<open>process_vm_readv(2)\<close> says of a call with at most 1024 ranges on a process whose
  memory is \<open>mem\<close>: the bytes come in the order of the ranges and the result is their number; everything
  readable is read; a transfer never passes an unreadable byte, and ends no earlier than the last
  of the leading ranges that are readable as a whole (a range is moved whole or not at all, so a
  count may stop before a range of which only a part is readable); and a call that moves nothing,
  which can happen only when the first range is not readable as a whole, returns \<open>-1\<close> with
  \<open>EFAULT\<close>.
\<close>

definition reads_memory :: "vm_readv \<Rightarrow> int \<Rightarrow> memory \<Rightarrow> bool" where
  "reads_memory vm pid mem \<longleftrightarrow>
     (\<forall>iovs. length iovs \<le> 1024 \<longrightarrow> iovs_addrs iovs \<noteq> [] \<longrightarrow>
        (case vm pid iovs of (n, err, data) \<Rightarrow>
           (n = -1 \<and> err = Some EFAULT \<and> data = [] \<and> iovs_addrs (whole_iovs mem iovs) = [] \<and>
            \<not> readable mem (iovs_addrs iovs)) \<or>
           (0 < n \<and> err = None \<and> n \<le> int (length (iovs_addrs iovs)) \<and>
            int (length (iovs_addrs (whole_iovs mem iovs))) \<le> n \<and>
            readable mem (take (nat n) (iovs_addrs iovs)) \<and>
            data = contents_at mem (take (nat n) (iovs_addrs iovs)))))"

text \<open>A kernel that transfers whole ranges only, as the manual page describes it.\<close>

definition sim_readv :: "memory \<Rightarrow> vm_readv" where
  "sim_readv mem pid iovs =
     (let addrs = iovs_addrs (whole_iovs mem iovs) in
      if addrs = [] then (-1, Some EFAULT, [])
      else (int (length addrs), None, contents_at mem addrs))"

lemma readable_whole: "readable mem (iovs_addrs (whole_iovs mem iovs))"
  by (induction iovs) (auto simp: whole_iovs_def iovs_addrs_def readable_def)

lemma whole_prefix: "\<exists>rest. iovs_addrs iovs = iovs_addrs (whole_iovs mem iovs) @ rest"
proof -
  have "iovs = whole_iovs mem iovs @ dropWhile (\<lambda>iov. readable mem (iov_addrs iov)) iovs"
    by (simp add: whole_iovs_def)
  then show ?thesis
    by (metis concat_append iovs_addrs_def map_append)
qed

lemma readable_all_whole:
  "readable mem (iovs_addrs iovs) \<Longrightarrow> whole_iovs mem iovs = iovs"
  by (simp add: whole_iovs_def takeWhile_eq_all_conv iovs_addrs_def readable_def list_all_iff)

lemma sim_readv_reads: "reads_memory (sim_readv mem) pid mem"
  unfolding reads_memory_def
proof (intro allI impI)
  fix iovs assume "iovs_addrs iovs \<noteq> []"
  define addrs where "addrs = iovs_addrs (whole_iovs mem iovs)"
  obtain rest where rest: "iovs_addrs iovs = addrs @ rest"
    using whole_prefix [of iovs mem] by (auto simp: addrs_def)
  have "readable mem addrs"
    using readable_whole [of mem iovs] by (simp add: addrs_def)
  moreover have "\<not> readable mem (iovs_addrs iovs)" if "addrs = []"
    using that readable_all_whole [of mem iovs] \<open>iovs_addrs iovs \<noteq> []\<close> by (auto simp: addrs_def)
  ultimately show "case sim_readv mem pid iovs of (n, err, data) \<Rightarrow>
      (n = -1 \<and> err = Some EFAULT \<and> data = [] \<and> iovs_addrs (whole_iovs mem iovs) = [] \<and>
       \<not> readable mem (iovs_addrs iovs)) \<or>
      (0 < n \<and> err = None \<and> n \<le> int (length (iovs_addrs iovs)) \<and>
       int (length (iovs_addrs (whole_iovs mem iovs))) \<le> n \<and>
       readable mem (take (nat n) (iovs_addrs iovs)) \<and>
       data = contents_at mem (take (nat n) (iovs_addrs iovs)))"
    by (auto simp: sim_readv_def rest Let_def simp flip: addrs_def)
qed

section \<open>The reader\<close>

datatype io_error = EOF | ErrUnexpectedEOF | Errno errno

record RegionReader =
  rr_start :: u64
  rr_end :: u64
  rr_size :: u64
  rr_off :: u64
  rr_pid :: int

definition getRegionReader :: "int \<Rightarrow> u64 \<Rightarrow> u64 \<Rightarrow> RegionReader \<Rightarrow> RegionReader" where
  "getRegionReader pid start end' pooled =
     pooled\<lparr>rr_pid := pid, rr_start := start, rr_end := end', rr_size := end' - start, rr_off := 0\<rparr>"

definition freeRegionReader :: "RegionReader \<Rightarrow> RegionReader" where
  "freeRegionReader r = r\<lparr>rr_pid := 0\<rparr>"

datatype seek_error = ErrInvalidWhence | ErrNegativePosition

text \<open>\<open>io.SeekStart\<close>, \<open>io.SeekCurrent\<close> and \<open>io.SeekEnd\<close> are 0, 1 and 2.\<close>

definition rr_Seek :: "64 word \<Rightarrow> int \<Rightarrow> RegionReader \<Rightarrow> (64 word \<times> seek_error option) \<times> RegionReader" where
  "rr_Seek offset whence r =
     (case (if whence = 0 then Some offset
            else if whence = 1 then Some (rr_off r + offset)
            else if whence = 2 then Some (rr_size r + offset)
            else None) of
        None \<Rightarrow> ((0, Some ErrInvalidWhence), r)
      | Some abs' \<Rightarrow>
          if abs' <s 0 then ((0, Some ErrNegativePosition), r)
          else ((abs', None), r\<lparr>rr_off := abs'\<rparr>))"

text \<open>\<open>Read(p)\<close> of a buffer of \<open>len\<close> bytes: the returned count and error with the bytes stored from \<open>p[0]\<close> on.\<close>

definition rr_Read :: "vm_readv \<Rightarrow> nat \<Rightarrow> RegionReader \<Rightarrow> (int \<times> io_error option \<times> bytes) \<times> RegionReader" where
  "rr_Read vm len r =
     (if rr_size r \<le> rr_off r then ((0, Some EOF, []), r)
      else if len = 0 then ((0, None, []), r)
      else
        let size = of_nat len :: u64;
            size = (if rr_size r - rr_off r < size then rr_size r - rr_off r else size);
            addr = rr_start r + rr_off r;
            (n, err, data) = vm (rr_pid r) [(addr, unat size)] in
        ((n, map_option Errno err, data),
         if 0 < n then r\<lparr>rr_off := rr_off r + of_int n\<rparr> else r))"

text \<open>A read buffer from the pool: reused and cleared when it is large enough.\<close>

definition getReadBuffer :: "bytes \<Rightarrow> nat \<Rightarrow> bytes" where
  "getReadBuffer pooled needed =
     (if length pooled < needed then replicate needed 0
      else map (\<lambda>_. 0) (take needed pooled))"

lemma getReadBuffer_clear: "getReadBuffer pooled needed = replicate needed 0"
  by (simp add: getReadBuffer_def map_replicate_const min_def)

section \<open>Filling a buffer\<close>

text \<open>
  \<^verbatim>\<open>io.ReadFull\<close>: read until the buffer is full or an error comes. The count of each \<open>Read\<close> is added as it is,
  a negative one included. The loop need not end when a reader keeps returning no bytes and no
  error.
\<close>

partial_function (option) ReadFull_loop ::
  "(nat \<Rightarrow> 'r \<Rightarrow> (int \<times> io_error option \<times> bytes) \<times> 'r) \<Rightarrow> bytes \<Rightarrow> int \<Rightarrow> 'r \<Rightarrow>
   (int \<times> io_error option \<times> bytes \<times> 'r) go" where
  "ReadFull_loop read buf n r =
     (if n < int (length buf) then do {
        tail \<leftarrow> slice buf n (int (length buf));
        let ((nn, err, data), r) = read (length tail) r;
        let buf = copy_at buf (nat n) data;
        if err = None then ReadFull_loop read buf (n + nn) r
        else Some (n + nn, err, buf, r)
      } else Some (n, None, buf, r))"

definition ReadFull ::
  "(nat \<Rightarrow> 'r \<Rightarrow> (int \<times> io_error option \<times> bytes) \<times> 'r) \<Rightarrow> bytes \<Rightarrow> 'r \<Rightarrow>
   (int \<times> io_error option \<times> bytes \<times> 'r) go" where
  "ReadFull read buf r =
     do { (n, err, buf, r) \<leftarrow> ReadFull_loop read buf 0 r;
          Some (n,
            (if int (length buf) \<le> n then None
             else if 0 < n \<and> err = Some EOF then Some ErrUnexpectedEOF
             else err),
            buf, r) }"

section \<open>What the scanner relies on\<close>

text \<open>
  A reader over the bytes \<open>byte_at 0\<close>, \<open>byte_at 1\<close> and so on, standing at a position: a read stores the next
  bytes and moves on, or reports an error, stores nothing and stays. The length of a Go slice is an \<open>int\<close>.
\<close>

locale byte_reader =
  fixes read :: "nat \<Rightarrow> 'r \<Rightarrow> (int \<times> io_error option \<times> bytes) \<times> 'r"
    and ok :: "'r \<Rightarrow> bool" and pos :: "'r \<Rightarrow> nat" and byte_at :: "nat \<Rightarrow> u8 option" and total :: nat
  assumes pos_total: "ok r \<Longrightarrow> pos r \<le> total"
    and read_cases: "ok r \<Longrightarrow> 0 < k \<Longrightarrow> k < 2 ^ 63 \<Longrightarrow>
    (\<exists>data r'. read k r = ((int (length data), None, data), r') \<and> data \<noteq> [] \<and> length data \<le> k \<and>
       (\<forall>i < length data. byte_at (pos r + i) = Some (data ! i)) \<and>
       ok r' \<and> pos r' = pos r + length data) \<or>
    (\<exists>n err r'. read k r = ((n, Some err, []), r') \<and> -1 \<le> n \<and> n \<le> 0 \<and> ok r' \<and> pos r' = pos r)"
begin

lemma nth_copy_at_old: "i < n \<Longrightarrow> n \<le> length buf \<Longrightarrow> copy_at buf n data ! i = buf ! i"
  by (simp add: copy_at_def nth_append)

lemma nth_copy_at_new: "i < length data \<Longrightarrow> n + length data \<le> length buf \<Longrightarrow> copy_at buf n data ! (n + i) = data ! i"
  by (simp add: copy_at_def nth_append)

lemma ReadFull_loop_reads:
  assumes "ok r" "length buf < 2 ^ 63" "n \<le> length buf" "\<forall>i < n. byte_at (p + i) = Some (buf ! i)" "pos r = p + n"
  shows "\<exists>m err buf' r'. ReadFull_loop read buf (int n) r = Some (m, err, buf', r') \<and>
    -1 \<le> m \<and> m \<le> int (length buf) \<and> length buf' = length buf \<and> ok r' \<and>
    (\<forall>i. int i < m \<longrightarrow> byte_at (p + i) = Some (buf' ! i)) \<and>
    (err = None \<longrightarrow> m = int (length buf)) \<and> (m = int (length buf) \<longrightarrow> pos r' = p + length buf) \<and>
    int p + m \<le> int (pos r')"
  using assms
proof (induction "length buf - n" arbitrary: n buf r rule: less_induct)
  case less
  show ?case
  proof (cases "n < length buf")
    case False
    with less.prems show ?thesis
      by (subst ReadFull_loop.simps) auto
  next
    case True
    have "0 < length buf - n" "length buf - n < 2 ^ 63" using True less.prems(2) by simp_all
    from read_cases [OF less.prems(1) this] show ?thesis
    proof (elim disjE exE conjE)
      fix data r'
      assume d: "read (length buf - n) r = ((int (length data), None, data), r')" "data \<noteq> []"
        "length data \<le> length buf - n" "\<forall>i < length data. byte_at (pos r + i) = Some (data ! i)"
        "ok r'" "pos r' = pos r + length data"
      define buf' where "buf' = copy_at buf n data"
      have len: "length buf' = length buf" "n + length data \<le> length buf" "0 < length data"
        using True d(2,3) by (simp_all add: buf'_def length_copy_at)
      have "byte_at (p + i) = Some (buf' ! i)" if "i < n + length data" for i
      proof (cases "i < n")
        case True
        then show ?thesis
          using less.prems(4) len(2) by (simp add: buf'_def nth_copy_at_old)
      next
        case False
        then obtain j where "i = n + j" by (auto dest: le_Suc_ex simp: not_less)
        with that show ?thesis
          using d(4) less.prems(5) len(2) by (simp add: buf'_def nth_copy_at_new add.assoc)
      qed
      moreover have "ReadFull_loop read buf (int n) r = ReadFull_loop read buf' (int (n + length data)) r'"
        using True d(1) by (subst ReadFull_loop.simps) (simp add: buf'_def)
      moreover have "length buf' - (n + length data) < length buf - n"
        using len True by arith
      ultimately show ?thesis
        using less.hyps [of buf' "n + length data" r'] len d(5,6) less.prems(2,5) by simp
    next
      fix e r' and m :: int
      assume d: "read (length buf - n) r = ((m, Some e, []), r')" "-1 \<le> m" "m \<le> 0" "ok r'" "pos r' = pos r"
      have "copy_at buf n [] = buf" by (simp add: copy_at_def)
      then have "ReadFull_loop read buf (int n) r = Some (int n + m, Some e, buf, r')"
        using True d(1) by (subst ReadFull_loop.simps) simp
      with True d less.prems show ?thesis by auto
    qed
  qed
qed

lemma ReadFull_reads:
  assumes "ok r" "length buf < 2 ^ 63"
  shows "\<exists>m err buf' r'. ReadFull read buf r = Some (m, err, buf', r') \<and>
    -1 \<le> m \<and> m \<le> int (length buf) \<and> length buf' = length buf \<and> ok r' \<and>
    (\<forall>i. int i < m \<longrightarrow> byte_at (pos r + i) = Some (buf' ! i)) \<and>
    (err = None \<longleftrightarrow> m = int (length buf)) \<and> (err = None \<longrightarrow> pos r' = pos r + length buf) \<and>
    int (pos r) + m \<le> int (pos r')"
  using ReadFull_loop_reads [OF assms, of 0 "pos r"]
  by (auto simp: ReadFull_def)

end

text \<open>A reader that can be placed: \<open>seek\<close> to a position inside.\<close>

locale seek_reader = byte_reader read ok pos byte_at total
  for read :: "nat \<Rightarrow> 'r \<Rightarrow> (int \<times> io_error option \<times> bytes) \<times> 'r" and ok pos byte_at total +
  fixes seek :: "u64 \<Rightarrow> 'r \<Rightarrow> 'r option"
  assumes seek_inside: "ok r \<Longrightarrow> unat off < total \<Longrightarrow> \<exists>r'. seek off r = Some r' \<and> ok r' \<and> pos r' = unat off"

text \<open>Where nothing fails before the end, a read stops short only there, with \<open>EOF\<close>.\<close>

locale full_reader = byte_reader read ok pos byte_at total
  for read :: "nat \<Rightarrow> 'r \<Rightarrow> (int \<times> io_error option \<times> bytes) \<times> 'r" and ok pos byte_at total +
  assumes read_inside: "ok r \<Longrightarrow> 0 < k \<Longrightarrow> k < 2 ^ 63 \<Longrightarrow> pos r < total \<Longrightarrow> fst (snd (fst (read k r))) = None"
    and read_end: "ok r \<Longrightarrow> 0 < k \<Longrightarrow> k < 2 ^ 63 \<Longrightarrow> pos r = total \<Longrightarrow> fst (read k r) = (0, Some EOF, [])"
begin

lemma read_full_cases:
  assumes "ok r" "0 < k" "k < 2 ^ 63"
  shows "(pos r = total \<and> fst (read k r) = (0, Some EOF, []) \<and> ok (snd (read k r)) \<and> pos (snd (read k r)) = total) \<or>
    (\<exists>data r'. read k r = ((int (length data), None, data), r') \<and> data \<noteq> [] \<and> length data \<le> k \<and>
       ok r' \<and> pos r' = pos r + length data \<and> pos r + length data \<le> total)"
proof (cases "pos r = total")
  case True
  from read_cases [OF assms] have "ok (snd (read k r)) \<and> pos (snd (read k r)) = pos r"
    using read_end [OF assms True] by auto
  with True read_end [OF assms True] show ?thesis by auto
next
  case False
  with pos_total [OF assms(1)] have "pos r < total" by simp
  from read_inside [OF assms this] read_cases [OF assms]
  obtain data r' where "read k r = ((int (length data), None, data), r')" "data \<noteq> []" "length data \<le> k"
    "ok r'" "pos r' = pos r + length data" by auto
  with pos_total [of r'] show ?thesis by auto
qed

lemma ReadFull_loop_full:
  assumes "ok r" "length buf < 2 ^ 63" "n \<le> length buf" "m = min (length buf - n) (total - pos r)"
  shows "\<exists>buf' r'. ReadFull_loop read buf (int n) r =
      Some (int (n + m), (if length buf - n \<le> total - pos r then None else Some EOF), buf', r') \<and>
    ok r' \<and> pos r' = pos r + m \<and> length buf' = length buf"
  using assms
proof (induction "length buf - n" arbitrary: n m buf r rule: less_induct)
  case less
  show ?case
  proof (cases "n < length buf")
    case False
    with less.prems show ?thesis
      by (subst ReadFull_loop.simps) auto
  next
    case True
    have "0 < length buf - n" "length buf - n < 2 ^ 63" using True less.prems(2) by simp_all
    from read_full_cases [OF less.prems(1) this] show ?thesis
    proof (elim disjE exE conjE)
      assume e: "pos r = total" "fst (read (length buf - n) r) = (0, Some EOF, [])"
        "ok (snd (read (length buf - n) r))" "pos (snd (read (length buf - n) r)) = total"
      obtain r' where "read (length buf - n) r = ((0, Some EOF, []), r')"
        using e(2) by (cases "read (length buf - n) r") simp
      moreover have "copy_at buf n [] = buf" by (simp add: copy_at_def)
      ultimately have "ReadFull_loop read buf (int n) r = Some (int n, Some EOF, buf, r')"
        using True by (subst ReadFull_loop.simps) simp
      with e \<open>read _ r = _\<close> True less.prems show ?thesis by simp
    next
      fix data r'
      assume d: "read (length buf - n) r = ((int (length data), None, data), r')" "data \<noteq> []"
        "length data \<le> length buf - n" "ok r'" "pos r' = pos r + length data" "pos r + length data \<le> total"
      define buf' where "buf' = copy_at buf n data"
      have len: "length buf' = length buf" "n + length data \<le> length buf" "0 < length data"
        using True d(2,3) by (simp_all add: buf'_def length_copy_at)
      have step: "ReadFull_loop read buf (int n) r = ReadFull_loop read buf' (int (n + length data)) r'"
        using True d(1) by (subst ReadFull_loop.simps) (simp add: buf'_def)
      have less': "length buf' - (n + length data) < length buf - n"
        using len True by arith
      have rem: "m - length data = min (length buf' - (n + length data)) (total - pos r')"
        "n + length data + (m - length data) = n + m" "pos r' + (m - length data) = pos r + m"
        "length buf' - (n + length data) \<le> total - pos r' \<longleftrightarrow> length buf - n \<le> total - pos r"
        using d(3,5,6) len less.prems(4) by (simp_all add: min_def) arith+
      from less.hyps [OF less' d(4) _ _ rem(1)] len(1,2) less.prems(2) step show ?thesis
        unfolding rem(2-4) by simp
    qed
  qed
qed

text \<open>The bytes still to come.\<close>

definition rest :: "'r \<Rightarrow> bytes" where
  "rest r = map (\<lambda>i. the (byte_at i)) [pos r..<total]"

lemma ReadFull_full:
  assumes "ok r" "length buf < 2 ^ 63" "m = min (length buf) (total - pos r)"
  shows "\<exists>err buf' r'. ReadFull read buf r = Some (int m, err, buf', r') \<and> ok r' \<and>
    pos r' = pos r + m \<and> length buf' = length buf \<and> take m buf' = take m (rest r) \<and>
    (\<forall>e. err \<noteq> Some (Errno e)) \<and> (err = None \<longleftrightarrow> m = length buf)"
proof -
  from ReadFull_loop_full [OF assms(1,2), of 0 m] assms(3) obtain buf' r' err where l:
    "ReadFull_loop read buf (int 0) r = Some (int m, err, buf', r')" "ok r'" "pos r' = pos r + m"
    "length buf' = length buf" "err = (if length buf \<le> total - pos r then None else Some EOF)"
    by auto
  then obtain err' where f: "ReadFull read buf r = Some (int m, err', buf', r')"
    "\<forall>e. err' \<noteq> Some (Errno e)" "err' = None \<longleftrightarrow> m = length buf"
    using assms(3) by (auto simp: ReadFull_def)
  from ReadFull_reads [OF assms(1,2)] f(1)
  have "\<forall>i < m. byte_at (pos r + i) = Some (buf' ! i)" by auto
  then have "take m buf' = take m (rest r)"
    using assms(3) l(4) by (intro nth_equalityI) (auto simp: rest_def)
  with f l show ?thesis by auto
qed

end

section \<open>The region reader is such a reader\<close>

lemma iovs_addrs_single: "iovs_addrs [iov] = iov_addrs iov"
  by (simp add: iovs_addrs_def)

lemma length_iov_addrs [simp]: "length (iov_addrs (a, k)) = k"
  by (simp add: iov_addrs_def)

lemma iov_addrs_empty [simp]: "iov_addrs (a, k) = [] \<longleftrightarrow> k = 0"
  by (simp add: iov_addrs_def)

lemma nth_iov_addrs [simp]: "i < k \<Longrightarrow> iov_addrs (a, k) ! i = a + of_nat i"
  by (simp add: iov_addrs_def)

lemma reads_single:
  assumes "reads_memory vm pid mem" "0 < k" "vm pid [(a, k)] = (n, err, data)"
  shows "(n = -1 \<and> err = Some EFAULT \<and> data = [] \<and> \<not> readable mem (iov_addrs (a, k))) \<or>
    (0 < n \<and> n \<le> int k \<and> err = None \<and> length data = nat n \<and>
     (\<forall>i < nat n. mem (a + of_nat i) = Some (data ! i)) \<and> (readable mem (iov_addrs (a, k)) \<longrightarrow> n = int k))"
proof -
  have ne: "iovs_addrs [(a, k)] \<noteq> []"
    using assms(2) by (metis iovs_addrs_single length_0_conv length_iov_addrs less_irrefl)
  have bytes: "mem (a + of_nat i) = Some (contents_at mem (take m (iov_addrs (a, k))) ! i)"
    if "readable mem (take m (iov_addrs (a, k)))" "i < m" "m \<le> k" for i m
  proof -
    have "take m (iov_addrs (a, k)) ! i \<in> set (take m (iov_addrs (a, k)))"
      using that by (intro nth_mem) simp
    with that show ?thesis
      by (auto simp: readable_def list_all_iff contents_at_def)
  qed
  have whole: "length (iov_addrs (a, k)) \<le> length (iovs_addrs (whole_iovs mem [(a, k)]))"
    if "readable mem (iov_addrs (a, k))"
    using that by (simp add: whole_iovs_def iovs_addrs_single)
  from assms(1) [unfolded reads_memory_def, rule_format, of "[(a, k)]"] ne show ?thesis
    unfolding assms(3) iovs_addrs_single
    by (auto simp: contents_at_def min_def intro!: bytes [unfolded contents_at_def] dest!: whole)
qed

definition rr_ok :: "vm_readv \<Rightarrow> memory \<Rightarrow> int \<Rightarrow> u64 \<Rightarrow> nat \<Rightarrow> RegionReader \<Rightarrow> bool" where
  "rr_ok vm mem pid s z r \<longleftrightarrow> reads_memory vm pid mem \<and> rr_pid r = pid \<and> rr_start r = s \<and>
     unat (rr_size r) = z \<and> unat (rr_off r) \<le> z \<and> z < 2 ^ 63"

definition rr_pos :: "RegionReader \<Rightarrow> nat" where
  "rr_pos r = unat (rr_off r)"

definition mem_from :: "memory \<Rightarrow> u64 \<Rightarrow> nat \<Rightarrow> u8 option" where
  "mem_from mem s i = mem (s + of_nat i)"

lemma rr_Read_inside:
  assumes "rr_ok vm mem pid s z r" "0 < k" "k < 2 ^ 63" "rr_pos r < z"
  shows "\<exists>q. q = min k (z - rr_pos r) \<and> 0 < q \<and> rr_Read vm k r =
    (case vm pid [(s + of_nat (rr_pos r), q)] of (n, err, data) \<Rightarrow>
      ((n, map_option Errno err, data), if 0 < n then r\<lparr>rr_off := rr_off r + of_int n\<rparr> else r))"
proof -
  have room: "unat (rr_size r - rr_off r) = z - rr_pos r" "\<not> rr_size r \<le> rr_off r"
    using assms(1,4) by (simp_all add: rr_ok_def rr_pos_def unat_sub word_le_nat_alt)
  define size where "size = (if rr_size r - rr_off r < of_nat k then rr_size r - rr_off r else (of_nat k :: u64))"
  have "rr_Read vm k r = (case vm pid [(s + of_nat (rr_pos r), unat size)] of (n, err, data) \<Rightarrow>
      ((n, map_option Errno err, data), if 0 < n then r\<lparr>rr_off := rr_off r + of_int n\<rparr> else r))"
    using room(2) assms(1,2) by (simp add: rr_Read_def size_def Let_def rr_ok_def rr_pos_def)
  moreover have "unat size = min k (z - rr_pos r)"
    using room(1) assms(3) by (auto simp: size_def word_less_nat_alt unat_of_nat)
  ultimately show ?thesis using assms(2,4) by simp
qed

lemma rr_Read_end: "rr_ok vm mem pid s z r \<Longrightarrow> rr_pos r = z \<Longrightarrow> rr_Read vm k r = ((0, Some EOF, []), r)"
  by (simp add: rr_ok_def rr_pos_def rr_Read_def word_le_nat_alt)

lemma rr_advance:
  assumes "rr_ok vm mem pid s z r" "n \<le> z - rr_pos r"
  shows "rr_ok vm mem pid s z (r\<lparr>rr_off := rr_off r + of_nat n\<rparr>) \<and>
    rr_pos (r\<lparr>rr_off := rr_off r + of_nat n\<rparr>) = rr_pos r + n"
proof -
  have "unat (rr_off r) \<le> z" "z < 2 ^ 63"
    using assms(1) by (simp_all add: rr_ok_def)
  with assms(2) have "unat (rr_off r) + n \<le> z" "unat (rr_off r) + n < 2 ^ 63"
    unfolding rr_pos_def by linarith+
  then have "unat (rr_off r + of_nat n) = unat (rr_off r) + n"
    by (simp add: unat_word_ariths unat_of_nat)
  with assms(1) \<open>unat (rr_off r) + n \<le> z\<close> show ?thesis by (simp add: rr_ok_def rr_pos_def)
qed

lemma rr_Read_cases:
  assumes "rr_ok vm mem pid s z r" "0 < k" "k < 2 ^ 63" "rr_pos r < z"
  shows "(\<exists>data r'. rr_Read vm k r = ((int (length data), None, data), r') \<and> data \<noteq> [] \<and> length data \<le> k \<and>
       (\<forall>i < length data. mem_from mem s (rr_pos r + i) = Some (data ! i)) \<and>
       rr_ok vm mem pid s z r' \<and> rr_pos r' = rr_pos r + length data) \<or>
    (rr_Read vm k r = ((-1, Some (Errno EFAULT), []), r) \<and> \<not> readable mem (iov_addrs (s, z)))"
proof -
  from rr_Read_inside [OF assms] obtain q where q: "q = min k (z - rr_pos r)" "0 < q"
    "rr_Read vm k r = (case vm pid [(s + of_nat (rr_pos r), q)] of (n, err, data) \<Rightarrow>
      ((n, map_option Errno err, data), if 0 < n then r\<lparr>rr_off := rr_off r + of_int n\<rparr> else r))"
    by blast
  obtain n err data where v: "vm pid [(s + of_nat (rr_pos r), q)] = (n, err, data)"
    by (cases "vm pid [(s + of_nat (rr_pos r), q)]")
  have vm: "reads_memory vm pid mem" using assms(1) by (simp add: rr_ok_def)
  from reads_single [OF vm q(2) v] show ?thesis
  proof (elim disjE conjE)
    assume f: "n = -1" "err = Some EFAULT" "data = []" "\<not> readable mem (iov_addrs (s + of_nat (rr_pos r), q))"
    then obtain i where "i < q" "mem (s + of_nat (rr_pos r) + of_nat i) = None"
      by (auto simp: readable_def list_all_iff iov_addrs_def)
    then have "rr_pos r + i < z" "mem (s + of_nat (rr_pos r + i)) = None"
      using q(1) by (simp_all add: ac_simps less_diff_conv)
    then have "\<exists>a \<in> {0..<z}. mem (s + of_nat a) = None"
      by (intro bexI [of _ "rr_pos r + i"]) simp_all
    then have "\<not> readable mem (iov_addrs (s, z))"
      by (auto simp: readable_def list_all_iff iov_addrs_def)
    with f q(3) v show ?thesis by simp
  next
    assume g: "0 < n" "n \<le> int q" "err = None" "length data = nat n"
      "\<forall>i < nat n. mem (s + of_nat (rr_pos r) + of_nat i) = Some (data ! i)"
    have n: "n = int (length data)" "data \<noteq> []" "length data \<le> k" "length data \<le> z - rr_pos r"
      using g(1,2,4) q(1) by auto
    moreover have "\<forall>i < length data. mem_from mem s (rr_pos r + i) = Some (data ! i)"
      using g(5) n(1) by (simp add: mem_from_def add.assoc)
    ultimately show ?thesis
      using rr_advance [OF assms(1) n(4)] g(1,3) q(3) v by simp
  qed
qed

text \<open>\<open>seeker.Seek(int64(off), io.SeekStart)\<close>, with the error as no result.\<close>

definition rr_seek_start :: "u64 \<Rightarrow> RegionReader \<Rightarrow> RegionReader option" where
  "rr_seek_start off r = (case rr_Seek off 0 r of ((abs', None), r) \<Rightarrow> Some r | ((abs', Some e), r) \<Rightarrow> None)"

interpretation rr: seek_reader "rr_Read vm" "rr_ok vm mem pid s z" rr_pos "mem_from mem s" z rr_seek_start
  for vm mem pid s z
proof
  fix r :: RegionReader and k :: nat and off :: u64
  assume ok: "rr_ok vm mem pid s z r"
  then show "rr_pos r \<le> z" by (simp add: rr_ok_def rr_pos_def)
  show "\<exists>r'. rr_seek_start off r = Some r' \<and> rr_ok vm mem pid s z r' \<and> rr_pos r' = unat off" if "unat off < z"
  proof -
    have "unat off < 2 ^ 63" using ok that by (simp add: rr_ok_def)
    then have "\<not> off <s 0"
      by (simp add: word_sless_alt sint_unat64)
    then show ?thesis
      using ok that by (simp add: rr_seek_start_def rr_Seek_def rr_ok_def rr_pos_def)
  qed
  assume k: "0 < k" "k < 2 ^ 63"
  note a = ok k
  show "(\<exists>data r'. rr_Read vm k r = ((int (length data), None, data), r') \<and> data \<noteq> [] \<and> length data \<le> k \<and>
      (\<forall>i < length data. mem_from mem s (rr_pos r + i) = Some (data ! i)) \<and>
      rr_ok vm mem pid s z r' \<and> rr_pos r' = rr_pos r + length data) \<or>
    (\<exists>n err r'. rr_Read vm k r = ((n, Some err, []), r') \<and> -1 \<le> n \<and> n \<le> 0 \<and>
      rr_ok vm mem pid s z r' \<and> rr_pos r' = rr_pos r)"
  proof (cases "rr_pos r < z")
    case True
    from rr_Read_cases [OF a True] a(1) show ?thesis by auto
  next
    case False
    with a(1) have "rr_pos r = z" by (simp add: rr_ok_def rr_pos_def)
    from rr_Read_end [OF a(1) this] a(1) show ?thesis by simp
  qed
qed

definition rr_full :: "vm_readv \<Rightarrow> memory \<Rightarrow> int \<Rightarrow> u64 \<Rightarrow> nat \<Rightarrow> RegionReader \<Rightarrow> bool" where
  "rr_full vm mem pid s z r \<longleftrightarrow> rr_ok vm mem pid s z r \<and> readable mem (iov_addrs (s, z))"

interpretation rrf: full_reader "rr_Read vm" "rr_full vm mem pid s z" rr_pos "mem_from mem s" z
  for vm mem pid s z
proof
  fix r :: RegionReader and k :: nat
  assume f: "rr_full vm mem pid s z r"
  then have ok: "rr_ok vm mem pid s z r" and all: "readable mem (iov_addrs (s, z))"
    by (simp_all add: rr_full_def)
  from rr.pos_total [OF ok] show "rr_pos r \<le> z" .
  assume k: "0 < k" "k < 2 ^ 63"
  show "fst (snd (fst (rr_Read vm k r))) = None" if "rr_pos r < z"
    using rr_Read_cases [OF ok k that] all by auto
  show "fst (rr_Read vm k r) = (0, Some EOF, [])" if "rr_pos r = z"
    using rr_Read_end [OF ok that] by simp
  from rr.read_cases [OF ok k] all
  show "(\<exists>data r'. rr_Read vm k r = ((int (length data), None, data), r') \<and> data \<noteq> [] \<and> length data \<le> k \<and>
      (\<forall>i < length data. mem_from mem s (rr_pos r + i) = Some (data ! i)) \<and>
      rr_full vm mem pid s z r' \<and> rr_pos r' = rr_pos r + length data) \<or>
    (\<exists>n err r'. rr_Read vm k r = ((n, Some err, []), r') \<and> -1 \<le> n \<and> n \<le> 0 \<and>
      rr_full vm mem pid s z r' \<and> rr_pos r' = rr_pos r)"
    by (auto simp: rr_full_def)
qed

section \<open>Reading a region\<close>

lemma getRegionReader_ok:
  assumes "reads_memory vm pid mem" "unat (e - s) < 2 ^ 63"
  shows "rr_ok vm mem pid s (unat (e - s)) (getRegionReader pid s e pooled) \<and>
    rr_pos (getRegionReader pid s e pooled) = 0"
  using assms by (simp add: rr_ok_def rr_pos_def getRegionReader_def)

text \<open>
  Filling a buffer from the start of a region returns whatever the kernel does; the count is at least \<open>-1\<close>,
  the bytes counted are the process's memory in order, there is no error exactly when the buffer is
  full, and over readable memory the count is as large as the region and the buffer allow.
\<close>

lemma ReadFull_region:
  assumes "reads_memory vm pid mem" "unat (e - s) < 2 ^ 63" "length buf < 2 ^ 63"
  shows "\<exists>n err buf' r'. ReadFull (rr_Read vm) buf (getRegionReader pid s e pooled) = Some (n, err, buf', r') \<and>
    -1 \<le> n \<and> (\<forall>i. int i < n \<longrightarrow> mem (s + of_nat i) = Some (buf' ! i)) \<and>
    (err = None \<longleftrightarrow> n = int (length buf)) \<and>
    (readable mem (iov_addrs (s, unat (e - s))) \<longrightarrow> n = int (min (length buf) (unat (e - s))))"
proof -
  note ok = getRegionReader_ok [OF assms(1,2), of pooled]
  from rr.ReadFull_reads [OF conjunct1 [OF ok] assms(3)]
  obtain n err buf' r' where f: "ReadFull (rr_Read vm) buf (getRegionReader pid s e pooled) = Some (n, err, buf', r')"
    "-1 \<le> n" "\<forall>i. int i < n \<longrightarrow> mem (s + of_nat i) = Some (buf' ! i)" "err = None \<longleftrightarrow> n = int (length buf)"
    using ok by (auto simp: mem_from_def)
  have "n = int (min (length buf) (unat (e - s)))" if "readable mem (iov_addrs (s, unat (e - s)))"
  proof -
    have "rr_full vm mem pid s (unat (e - s)) (getRegionReader pid s e pooled)"
      using ok that by (simp add: rr_full_def)
    from rrf.ReadFull_full [OF this assms(3) refl] f(1) ok show ?thesis by auto
  qed
  with f show ?thesis by blast
qed

text \<open>
  A buffer that reaches to an unreadable byte is filled up to some byte before it, by reads that the kernel may cut as it likes; the
  read after them fails.
\<close>

lemma ReadFull_loop_gap:
  assumes "rr_ok vm mem pid s z r" "rr_pos r = n" "n \<le> k" "k < z" "k < length buf" "length buf < 2 ^ 63" "mem (s + of_nat k) = None"
  shows "\<exists>j buf' r'. ReadFull_loop (rr_Read vm) buf (int n) r = Some (int j - 1, Some (Errno EFAULT), buf', r') \<and>
    j \<le> k \<and> length buf' = length buf \<and> rr_pos r' = j"
  using assms
proof (induction "k - n" arbitrary: n buf r rule: less_induct)
  case less
  have room: "0 < length buf - n" "length buf - n < 2 ^ 63" "rr_pos r < z" using less.prems by simp_all
  have tail: "slice buf (int n) (int (length buf)) = Some (drop n buf)" using less.prems(3,5) by (simp add: slice_def)
  from rr_Read_cases [OF less.prems(1) room] show ?case
  proof (elim disjE exE conjE)
    fix data r'
    assume d: "rr_Read vm (length buf - n) r = ((int (length data), None, data), r')" "data \<noteq> []" "length data \<le> length buf - n"
      "\<forall>i < length data. mem_from mem s (rr_pos r + i) = Some (data ! i)" "rr_ok vm mem pid s z r'" "rr_pos r' = rr_pos r + length data"
    have "\<not> k < n + length data"
    proof
      assume "k < n + length data"
      then have "k - n < length data" using less.prems(3) by simp
      with d(4) have "mem_from mem s (rr_pos r + (k - n)) = Some (data ! (k - n))" by blast
      then show False using less.prems(2,3,7) by (simp add: mem_from_def)
    qed
    then have le: "n + length data \<le> k" by simp
    define buf' where "buf' = copy_at buf n data"
    have len: "length buf' = length buf" using d(3) less.prems(3,5) by (simp add: buf'_def length_copy_at)
    have "ReadFull_loop (rr_Read vm) buf (int n) r = ReadFull_loop (rr_Read vm) buf' (int (n + length data)) r'"
      using room(1) d(1) by (subst ReadFull_loop.simps) (simp add: tail buf'_def)
    moreover have "k - (n + length data) < k - n" using le d(2) by (cases data) auto
    ultimately show ?thesis
      using less.hyps [of "n + length data" r' buf'] d(5,6) le less.prems len by simp
  next
    assume d: "rr_Read vm (length buf - n) r = ((- 1, Some (Errno EFAULT), []), r)"
    have "copy_at buf n [] = buf" by (simp add: copy_at_def)
    then have "ReadFull_loop (rr_Read vm) buf (int n) r = Some (int n - 1, Some (Errno EFAULT), buf, r)"
      using room(1) d by (subst ReadFull_loop.simps) (simp add: tail)
    with less.prems show ?thesis by blast
  qed
qed

text \<open>
  C40: when a byte of the range that the buffer reaches to cannot be read (range and buffer are below 2^63 bytes), \<open>ReadFull\<close> fails, whether the kernel transfers whole ranges only or
  parts of them too, with a count one less than the number of bytes it has read and moved past: the \<open>-1\<close> of the failing call
  is added to it. So it reports \<open>-1\<close> when nothing was read, and otherwise the last byte read is not counted, and lost to the search.
\<close>

theorem ReadFull_loses_byte:
  assumes "reads_memory vm pid mem" "unat (e - s) < 2 ^ 63" "length buf < 2 ^ 63" "k < unat (e - s)" "k < length buf"
    and "mem (s + of_nat k) = None"
  shows "\<exists>n buf' r'. ReadFull (rr_Read vm) buf (getRegionReader pid s e pooled) = Some (n, Some (Errno EFAULT), buf', r') \<and>
    int (rr_pos r') = n + 1 \<and> rr_pos r' \<le> k"
proof -
  note ok = getRegionReader_ok [OF assms(1,2), of pooled]
  from ReadFull_loop_gap [OF conjunct1 [OF ok] conjunct2 [OF ok] _ assms(4,5,3,6)] obtain j buf' r' where
    "ReadFull_loop (rr_Read vm) buf 0 (getRegionReader pid s e pooled) = Some (int j - 1, Some (Errno EFAULT), buf', r')"
    "j \<le> k" "length buf' = length buf" "rr_pos r' = j" by auto
  with assms(5) show ?thesis by (auto simp: ReadFull_def)
qed

theorem ReadFull_loses_byte_witness:
  "\<exists>n buf' r'. ReadFull (rr_Read (sim_readv (\<lambda>a. if a < 0x1002 then Some 7 else None))) [0, 0, 0, 0]
     (getRegionReader 1 0x1000 0x2000 \<lparr>rr_start = 0, rr_end = 0, rr_size = 0, rr_off = 0, rr_pid = 0\<rparr>) =
     Some (n, Some (Errno EFAULT), buf', r') \<and> n < 2"
  using ReadFull_loses_byte [where e = "0x2000" and s = "0x1000" and buf = "[0, 0, 0, 0]" and k = 2 and pid = 1
      and mem = "\<lambda>a. if a < 0x1002 then Some 7 else None" and vm = "sim_readv (\<lambda>a. if a < 0x1002 then Some 7 else None)"
      and pooled = "\<lparr>rr_start = 0, rr_end = 0, rr_size = 0, rr_off = 0, rr_pid = 0\<rparr>"]
  by (fastforce simp: sim_readv_reads)

end
