(* ===== verification/Scanner.thy ===== *)
theory Scanner
  imports Rounded_Float Region_Reader
begin

text \<open>
  Scanning a stream for a value (\<^verbatim>\<open>scanner/scanner.go\<close>, \<^verbatim>\<open>scanner/options.go\<close>). A scan reads through an arbitrary
  reader and hands the offsets it finds to a collector, a state transformer that may stop it. Whether the
  context is cancelled is asked once per chunk: \<open>ctx i\<close> is the answer at the \<open>i\<close>-th asking.
\<close>

section \<open>Options\<close>

record Options =
  ExpectedSize :: u64

text \<open>The seeker is absent for a reader that cannot seek; a failed seek gives no reader.\<close>

definition alignNextPage ::
  "Options \<Rightarrow> (u64 \<Rightarrow> 'r \<Rightarrow> 'r option) option \<Rightarrow> u64 \<Rightarrow> 'r \<Rightarrow> (u64 \<times> 'r) option" where
  "alignNextPage options seeker offset r =
     (case seeker of
        None \<Rightarrow> None
      | Some seek \<Rightarrow>
          if ExpectedSize options = 0 then None
          else
            let nextOffset = page_floor (offset + 0xFFF);
                nextOffset = (if nextOffset \<le> offset then nextOffset + 0x1000 else nextOffset) in
            if ExpectedSize options \<le> nextOffset then None
            else map_option (Pair nextOffset) (seek nextOffset r))"

section \<open>The scanner\<close>

record Scanner =
  sc_value :: Value
  sc_bufSize :: int
  sc_rf32 :: "RoundedFloat32 option"
  sc_rf64 :: "RoundedFloat64 option"

abbreviation defScanBufferSize :: int where "defScanBufferSize \<equiv> 65536"
abbreviation vectorFloat32Size :: int where "vectorFloat32Size \<equiv> 4 * 8"
abbreviation vectorFloat64Size :: int where "vectorFloat64Size \<equiv> 8 * 8"

text \<open>Rounding a buffer size up to a multiple of \<open>step\<close>.\<close>

definition round_size :: "int \<Rightarrow> int \<Rightarrow> int" where
  "round_size step bufSize =
     (if go_rem bufSize step \<noteq> 0 then go_div (bufSize + step - 1) step * step else bufSize)"

definition NewScannerBuffer :: "Value \<Rightarrow> int \<Rightarrow> Scanner go" where
  "NewScannerBuffer value bufSize =
     (let size = int (Value_Size value);
          bufSize = (if bufSize < size then size + 1 else bufSize) in
      if HasOption value then
        if v_typ value = Float32 then do {
          rf \<leftarrow> newRoundedFloat32 value;
          Some \<lparr>sc_value = value,
                sc_bufSize = (if bufSize < vectorFloat32Size then vectorFloat32Size
                              else round_size vectorFloat32Size bufSize),
                sc_rf32 = Some rf, sc_rf64 = None\<rparr>
        }
        else if v_typ value = Float64 then do {
          rf \<leftarrow> newRoundedFloat64 value;
          Some \<lparr>sc_value = value,
                sc_bufSize = (if bufSize < vectorFloat64Size then vectorFloat64Size
                              else round_size vectorFloat64Size bufSize),
                sc_rf32 = None, sc_rf64 = Some rf\<rparr>
        }
        else Some \<lparr>sc_value = value, sc_bufSize = bufSize, sc_rf32 = None, sc_rf64 = None\<rparr>
      else
        Some \<lparr>sc_value = value,
              sc_bufSize = (if bufSize < size then size else round_size 4 bufSize),
              sc_rf32 = None, sc_rf64 = None\<rparr>)"

definition NewScanner :: "Value \<Rightarrow> Scanner go" where
  "NewScanner value = NewScannerBuffer value defScanBufferSize"

section \<open>Searching bytes\<close>

text \<open>\<^verbatim>\<open>bytes.Index\<close>: the first position of a pattern, or \<open>-1\<close>.\<close>

fun bytes_Index :: "bytes \<Rightarrow> bytes \<Rightarrow> int" where
  "bytes_Index [] sep = (if sep = [] then 0 else -1)"
| "bytes_Index (x # xs) sep =
     (if prefix sep (x # xs) then 0
      else (let r = bytes_Index xs sep in if r < 0 then -1 else r + 1))"

type_synonym 'c collector = "int \<Rightarrow> 'c \<Rightarrow> (bool \<times> 'c) go"

text \<open>The search in one chunk: \<open>False\<close> when the collector has stopped the scan.\<close>

partial_function (option) scan_chunk ::
  "bool \<Rightarrow> int \<Rightarrow> bytes \<Rightarrow> 'c collector \<Rightarrow> bytes \<Rightarrow> int \<Rightarrow> int \<Rightarrow> 'c \<Rightarrow> (bool \<times> 'c) go" where
  "scan_chunk isAligned sz pattern collector currentChunk chunkOffset i c = do {
     tail \<leftarrow> slice currentChunk i (int (length currentChunk));
     let n = bytes_Index tail pattern;
     if n < 0 then Some (True, c)
     else do {
       let pos = i + n;
       let finalIndex = chunkOffset + pos;
       if \<not> isAligned \<or> go_rem finalIndex sz = 0 then do {
         (continue, c) \<leftarrow> collector finalIndex c;
         if \<not> continue then Some (False, c)
         else scan_chunk isAligned sz pattern collector currentChunk chunkOffset (pos + sz) c
       }
       else scan_chunk isAligned sz pattern collector currentChunk chunkOffset
              (pos + (sz - go_rem finalIndex sz)) c
     }
   }"

text \<open>The closure \<open>tryAlignNextPage\<close>: the next offset and the reader placed there.\<close>

definition tryAlignNextPage ::
  "io_error option \<Rightarrow> Options option \<Rightarrow> (u64 \<Rightarrow> 'r \<Rightarrow> 'r option) option \<Rightarrow> int \<Rightarrow> 'r \<Rightarrow> (int \<times> 'r) option" where
  "tryAlignNextPage err options seeker at r =
     (case (err, options) of
        (Some e, Some options) \<Rightarrow>
          if e = EOF then None
          else (case alignNextPage options seeker (of_int at) r of
                  None \<Rightarrow> None
                | Some (nextOffset, r) \<Rightarrow> Some (sint nextOffset, r))
      | _ \<Rightarrow> None)"

text \<open>
  The loop of \<open>scanBytes\<close> over the buffer \<open>chunk\<close>, the bytes \<open>truncated[:truncLen]\<close> kept from the last chunk, the
  \<open>offset\<close>, and the states of reader and collector.
\<close>

partial_function (option) scanBytes_loop ::
  "(nat \<Rightarrow> bool) \<Rightarrow> (nat \<Rightarrow> 'r \<Rightarrow> (int \<times> io_error option \<times> bytes) \<times> 'r) \<Rightarrow>
   (u64 \<Rightarrow> 'r \<Rightarrow> 'r option) option \<Rightarrow> Options option \<Rightarrow> Scanner \<Rightarrow> 'c collector \<Rightarrow>
   nat \<Rightarrow> bytes \<Rightarrow> bytes \<Rightarrow> int \<Rightarrow> 'r \<Rightarrow> 'c \<Rightarrow> ('r \<times> 'c) go" where
  "scanBytes_loop ctx read seeker options s collector k chunk truncated offset r c =
     (if ctx k then Some (r, c)
      else do {
        let sz = int (Value_Size (sc_value s));
        let forward = int (length truncated);
        let chunk = copy_at chunk 0 truncated;
        window \<leftarrow> slice chunk forward (forward + sc_bufSize s);
        (n, err, window, r) \<leftarrow> ReadFull read window r;
        let chunk = copy_at chunk (nat forward) window;
        let backward = (if n < 0 then 0 else n);
        if forward + backward < sz then
          (case tryAlignNextPage err options seeker (offset + backward) r of
             Some (nextOffset, r) \<Rightarrow>
               scanBytes_loop ctx read seeker options s collector (k + 1) chunk [] nextOffset r c
           | None \<Rightarrow> Some (r, c))
        else do {
          currentChunk \<leftarrow> slice chunk 0 (forward + backward);
          (continue, c) \<leftarrow> scan_chunk (Aligned (sc_value s)) sz (v_data (sc_value s)) collector
                               currentChunk (offset - forward) 0 c;
          if \<not> continue then Some (r, c)
          else do {
            let truncated = (if sz \<le> int (length currentChunk)
                             then drop (length currentChunk - Value_Size (sc_value s) + 1) currentChunk
                             else currentChunk);
            if err \<noteq> None \<or> backward < sc_bufSize s then
              (case tryAlignNextPage err options seeker (offset + backward) r of
                 Some (nextOffset, r) \<Rightarrow>
                   scanBytes_loop ctx read seeker options s collector (k + 1) chunk [] nextOffset r c
               | None \<Rightarrow> Some (r, c))
            else scanBytes_loop ctx read seeker options s collector (k + 1) chunk truncated
                   (offset + backward) r c
          }
        }
      })"

text \<open>A value of size 0 has \<open>make\<close> panic on a negative length.\<close>

definition scanBytes ::
  "(nat \<Rightarrow> bool) \<Rightarrow> (nat \<Rightarrow> 'r \<Rightarrow> (int \<times> io_error option \<times> bytes) \<times> 'r) \<Rightarrow>
   (u64 \<Rightarrow> 'r \<Rightarrow> 'r option) option \<Rightarrow> Options option \<Rightarrow> Scanner \<Rightarrow> 'c collector \<Rightarrow> 'r \<Rightarrow> 'c \<Rightarrow>
   ('r \<times> 'c) go" where
  "scanBytes ctx read seeker options s collector r c =
     (let sz = Value_Size (sc_value s) in
      if sz = 0 \<or> sc_bufSize s + int sz < 0 then None
      else scanBytes_loop ctx read seeker options s collector 0
             (replicate (nat (sc_bufSize s + int sz)) 0) [] 0 r c)"

section \<open>Occurrences\<close>

definition occurs :: "bytes \<Rightarrow> bytes \<Rightarrow> nat \<Rightarrow> bool" where
  "occurs xs pat p \<longleftrightarrow> take (length pat) (drop p xs) = pat"

lemma occurs_bound:
  assumes "occurs xs pat p" "pat \<noteq> []"
  shows "p + length pat \<le> length xs"
proof -
  have "length (take (length pat) (drop p xs)) = length pat"
    using assms(1) by (simp add: occurs_def)
  then have "length pat \<le> length xs - p" by simp
  moreover have "0 < length pat" using assms(2) by simp
  ultimately show ?thesis by arith
qed

lemma prefix_take: "prefix pat xs \<longleftrightarrow> take (length pat) xs = pat"
  by (metis append_eq_conv_conj prefix_def take_is_prefix)

lemma occurs_Cons_0: "occurs xs pat 0 \<longleftrightarrow> prefix pat xs"
  by (simp add: occurs_def prefix_take)

lemma occurs_Cons_Suc: "occurs (x # xs) pat (Suc p) \<longleftrightarrow> occurs xs pat p"
  by (simp add: occurs_def)

lemma bytes_Index_none: "bytes_Index xs pat < 0 \<Longrightarrow> pat \<noteq> [] \<Longrightarrow> \<not> occurs xs pat p"
proof (induction xs arbitrary: p)
  case (Cons x xs)
  then show ?case
    by (cases p) (auto simp: Let_def occurs_Cons_0 occurs_Cons_Suc split: if_splits)
qed (simp add: occurs_def)

lemma bytes_Index_first:
  assumes "0 \<le> bytes_Index xs pat" "pat \<noteq> []"
  shows "\<exists>p. bytes_Index xs pat = int p \<and> occurs xs pat p \<and> (\<forall>q < p. \<not> occurs xs pat q)"
  using assms
proof (induction xs)
  case (Cons x xs)
  show ?case
  proof (cases "prefix pat (x # xs)")
    case True
    then show ?thesis by (auto simp: occurs_Cons_0)
  next
    case False
    with Cons obtain p where p: "bytes_Index xs pat = int p" "occurs xs pat p" "\<forall>q < p. \<not> occurs xs pat q"
      by (auto simp: Let_def split: if_splits)
    have "\<not> occurs (x # xs) pat q" if "q < Suc p" for q
      using that p(3) False by (cases q) (auto simp: occurs_Cons_0 occurs_Cons_Suc)
    with p False show ?thesis
      by (intro exI [of _ "Suc p"]) (auto simp: occurs_Cons_Suc)
  qed
qed simp

lemma occurs_drop: "occurs (drop i xs) pat p \<longleftrightarrow> occurs xs pat (i + p)"
  by (simp add: occurs_def add.commute)

text \<open>Searching from position \<open>i\<close> on.\<close>

lemma Index_from:
  assumes "pat \<noteq> []" "i \<le> length xs"
  obtains "bytes_Index (drop i xs) pat < 0" "\<forall>p \<ge> i. \<not> occurs xs pat p"
  | q where "bytes_Index (drop i xs) pat = int q" "occurs xs pat (i + q)" "i + q + length pat \<le> length xs"
      "\<forall>p. i \<le> p \<longrightarrow> p < i + q \<longrightarrow> \<not> occurs xs pat p"
proof (cases "bytes_Index (drop i xs) pat < 0")
  case True
  then have "\<not> occurs xs pat p" if "i \<le> p" for p
    using bytes_Index_none [OF True assms(1), of "p - i"] that by (simp add: occurs_drop)
  with True show thesis using that(1) by blast
next
  case False
  with bytes_Index_first [of "drop i xs" pat] assms(1) obtain q
    where q: "bytes_Index (drop i xs) pat = int q" "occurs xs pat (i + q)" "\<forall>k < q. \<not> occurs xs pat (i + k)"
    by (auto simp: occurs_drop)
  have "\<not> occurs xs pat p" if "i \<le> p" "p < i + q" for p
    using q(3) that by (auto dest!: spec [of _ "p - i"])
  with q occurs_bound [OF q(2) assms(1)] show thesis using that(2) [of q] by simp
qed

section \<open>Feeding a collector\<close>

fun feed :: "'c collector \<Rightarrow> int list \<Rightarrow> 'c \<Rightarrow> (bool \<times> 'c) go" where
  "feed f [] c = Some (True, c)"
| "feed f (x # xs) c = do { (continue, c) \<leftarrow> f x c; if continue then feed f xs c else Some (False, c) }"

lemma feed_append:
  "feed f (xs @ ys) c = do { (continue, c) \<leftarrow> feed f xs c; if continue then feed f ys c else Some (False, c) }"
  by (induction xs arbitrary: c) (auto split: Option.bind_splits prod.splits)

section \<open>One chunk\<close>

text \<open>The aligned occurrences of a pattern of \<open>sz\<close> bytes in a stream, from position \<open>lo\<close> on.\<close>

definition aligned_hits :: "nat \<Rightarrow> bytes \<Rightarrow> nat \<Rightarrow> bytes \<Rightarrow> nat \<Rightarrow> nat list" where
  "aligned_hits b pat lo xs hi = filter (\<lambda>p. (b + p) mod length pat = 0 \<and> occurs xs pat p) [lo..<hi]"

lemma aligned_hits_skip:
  assumes "lo \<le> mid" "\<forall>p. lo \<le> p \<longrightarrow> p < mid \<longrightarrow> (b + p) mod length pat \<noteq> 0 \<or> \<not> occurs xs pat p"
  shows "aligned_hits b pat lo xs hi = aligned_hits b pat mid xs hi"
proof -
  have "[lo..<hi] = [lo..<min mid hi] @ [mid..<hi]"
    using assms(1) upt_add_eq_append [of lo mid "hi - mid"] by (cases "mid \<le> hi") (simp_all add: min_def)
  moreover have "filter (\<lambda>p. (b + p) mod length pat = 0 \<and> occurs xs pat p) [lo..<min mid hi] = []"
    using assms(2) by (auto simp: filter_empty_conv)
  ultimately show ?thesis by (simp add: aligned_hits_def)
qed

lemma aligned_hits_Cons:
  "lo < hi \<Longrightarrow> (b + lo) mod length pat = 0 \<Longrightarrow> occurs xs pat lo \<Longrightarrow>
   aligned_hits b pat lo xs hi = lo # aligned_hits b pat (Suc lo) xs hi"
  by (simp add: aligned_hits_def upt_conv_Cons)

lemma aligned_hits_none: "\<forall>p \<ge> lo. \<not> occurs xs pat p \<Longrightarrow> aligned_hits b pat lo xs hi = []"
  by (auto simp: aligned_hits_def filter_empty_conv)

text \<open>Between two multiples of \<open>n\<close> there is none.\<close>

lemma no_multiple_between:
  fixes a n :: nat
  assumes "a < m" "m < a - a mod n + n"
  shows "m mod n \<noteq> 0"
proof
  assume "m mod n = 0"
  then obtain k where k: "m = n * k" by (auto simp: mod_eq_0_iff_dvd elim: dvdE)
  have "n * (a div n) \<le> a" by (simp add: times_div_less_eq_dividend)
  with assms(1) k have "n * (a div n) < n * k" by linarith
  moreover have "n * k < n * Suc (a div n)"
    using assms(2) k by (simp add: minus_mod_eq_mult_div)
  ultimately have "a div n < k" "k < Suc (a div n)"
    by (simp_all only: mult_less_cancel1)
  then show False by simp
qed

lemma slice_from: "i \<le> length xs \<Longrightarrow> slice xs (int i) (int (length xs)) = Some (drop i xs)"
  by simp

lemma scan_chunk_hits:
  assumes "pat \<noteq> []" "i \<le> length cur"
  shows "scan_chunk True (int (length pat)) pat f cur (int b) (int i) c =
    feed f (map (\<lambda>p. int (b + p)) (aligned_hits b pat i cur (length cur + 1 - length pat))) c"
  using assms(2)
proof (induction "length cur - i" arbitrary: i c rule: less_induct)
  case less
  define sz where "sz = length pat"
  have sz: "0 < sz" using assms(1) by (simp add: sz_def)
  from assms(1) less.prems show ?case
  proof (cases rule: Index_from)
    case 1
    then show ?thesis
      using less.prems by (subst scan_chunk.simps) (simp add: slice_from aligned_hits_none)
  next
    case (2 q)
    define pos where "pos = i + q"
    have pos: "pos + sz \<le> length cur" "pos < length cur + 1 - sz" "occurs cur pat pos"
      using 2 sz by (simp_all add: pos_def sz_def)
    have rem: "go_rem (int b + int pos) (int sz) = int ((b + pos) mod sz)"
      using sz by (simp add: go_rem_nonneg zmod_int)
    have skip: "aligned_hits b pat i cur hi = aligned_hits b pat pos cur hi" for hi
      using 2(4) by (intro aligned_hits_skip) (auto simp: pos_def)
    show ?thesis
    proof (cases "(b + pos) mod sz = 0")
      case True
      have "aligned_hits b pat (Suc pos) cur hi = aligned_hits b pat (pos + sz) cur hi" for hi
      proof (rule aligned_hits_skip)
        show "\<forall>p. Suc pos \<le> p \<longrightarrow> p < pos + sz \<longrightarrow> (b + p) mod length pat \<noteq> 0 \<or> \<not> occurs cur pat p"
          using no_multiple_between [of "b + pos" _ sz] True by (auto simp: sz_def [symmetric])
      qed (use sz in simp)
      with skip aligned_hits_Cons [of pos _ b pat cur] pos(2,3) True
      have hits: "aligned_hits b pat i cur (length cur + 1 - sz) =
          pos # aligned_hits b pat (pos + sz) cur (length cur + 1 - sz)"
        by (simp add: sz_def)
      have "scan_chunk True (int sz) pat f cur (int b) (int (pos + sz)) c' =
          feed f (map (\<lambda>p. int (b + p)) (aligned_hits b pat (pos + sz) cur (length cur + 1 - sz))) c'" for c'
      proof -
        have "length cur - (pos + sz) < length cur - i"
          using pos(1) sz unfolding pos_def by arith
        from less.hyps [OF this pos(1)] show ?thesis by (simp add: sz_def)
      qed
      then show ?thesis
        using 2(1) less.prems rem True hits
        by (subst scan_chunk.simps)
          (auto simp: slice_from pos_def sz_def Let_def algebra_simps intro!: Option.bind_cong)
    next
      case False
      define next' where "next' = pos + (sz - (b + pos) mod sz)"
      have m: "(b + pos) mod sz < sz" using sz by simp
      have nx: "pos < next'" "next' \<le> length cur"
        using m pos(1) by (simp_all add: next'_def)
      have "aligned_hits b pat pos cur hi = aligned_hits b pat next' cur hi" for hi
      proof (rule aligned_hits_skip)
        show "\<forall>p. pos \<le> p \<longrightarrow> p < next' \<longrightarrow> (b + p) mod length pat \<noteq> 0 \<or> \<not> occurs cur pat p"
        proof (intro allI impI)
          fix p assume "pos \<le> p" "p < next'"
          then show "(b + p) mod length pat \<noteq> 0 \<or> \<not> occurs cur pat p"
            using False no_multiple_between [of "b + pos" "b + p" sz] m
            by (cases "p = pos") (auto simp: next'_def sz_def)
        qed
      qed (use nx in simp)
      with skip have hits: "aligned_hits b pat i cur hi = aligned_hits b pat next' cur hi" for hi by simp
      have "scan_chunk True (int sz) pat f cur (int b) (int next') c =
          feed f (map (\<lambda>p. int (b + p)) (aligned_hits b pat next' cur (length cur + 1 - sz))) c"
        unfolding sz_def by (rule less.hyps) (use nx in \<open>auto simp: pos_def\<close>)
      moreover have "int next' = int i + int q + (int sz - int ((b + pos) mod sz))"
        using m by (simp add: next'_def pos_def)
      ultimately show ?thesis
        using 2(1) less.prems rem False hits
        by (subst scan_chunk.simps)
          (simp add: slice_from pos_def sz_def Let_def algebra_simps)
    qed
  qed
qed

section \<open>The whole stream\<close>

lemma take_two_copies:
  assumes "length a + length w \<le> length xs" "m \<le> length w"
  shows "take (length a + m) (copy_at (copy_at xs 0 a) (length a) w) = a @ take m w"
  using assms by (simp add: copy_at_def)

lemma length_two_copies: "length a \<le> length xs \<Longrightarrow> length (copy_at (copy_at xs 0 a) (length a) w) = length xs"
  by (simp add: length_copy_at)

lemma occurs_window:
  "a + p + length pat \<le> e \<Longrightarrow> occurs (drop a (take e xs)) pat p \<longleftrightarrow> occurs xs pat (a + p)"
  by (simp add: occurs_def drop_take add.commute min_def)

lemma aligned_hits_window:
  assumes "length pat \<le> e - a" "pat \<noteq> []"
  shows "map (\<lambda>p. a + p) (aligned_hits a pat 0 (drop a (take e xs)) (e - a + 1 - length pat)) =
    aligned_hits 0 pat a xs (e + 1 - length pat)"
proof -
  have "e + 1 - length pat = (e - a + 1 - length pat) + a"
    using assms by (cases "length pat") simp_all
  then have "[a..<e + 1 - length pat] = map (\<lambda>p. p + a) [0..<e - a + 1 - length pat]"
    by (simp add: map_add_upt)
  moreover have "filter (\<lambda>p. (a + p) mod length pat = 0 \<and> occurs (drop a (take e xs)) pat p) [0..<e - a + 1 - length pat] =
      filter (\<lambda>p. (a + p) mod length pat = 0 \<and> occurs xs pat (a + p)) [0..<e - a + 1 - length pat]"
  proof (intro filter_cong refl conj_cong)
    fix p assume "p \<in> set [0..<e - a + 1 - length pat]"
    moreover have "0 < length pat" using assms(2) by simp
    ultimately have "a + p + length pat \<le> e" using assms(1) by simp
    then show "occurs (drop a (take e xs)) pat p = occurs xs pat (a + p)" by (rule occurs_window)
  qed
  ultimately show ?thesis
    by (simp add: aligned_hits_def filter_map comp_def add.commute)
qed

lemma aligned_hits_append:
  "lo \<le> mid \<Longrightarrow> mid \<le> hi \<Longrightarrow> aligned_hits b pat lo xs hi = aligned_hits b pat lo xs mid @ aligned_hits b pat mid xs hi"
  using upt_add_eq_append [of lo mid "hi - mid"] by (simp add: aligned_hits_def)

lemma aligned_hits_empty: "hi \<le> lo \<Longrightarrow> aligned_hits b pat lo xs hi = []"
  by (simp add: aligned_hits_def)

text \<open>A scanner fit for an aligned value: pattern and size agree and the buffer holds a value.\<close>

definition fit_scanner :: "Scanner \<Rightarrow> nat \<Rightarrow> bool" where
  "fit_scanner s B \<longleftrightarrow> wf_value (sc_value s) \<and> v_data (sc_value s) \<noteq> [] \<and> sc_bufSize s = int B \<and>
     length (v_data (sc_value s)) \<le> B \<and> B < 2 ^ 62"

lemma fit_scanner_size: "fit_scanner s B \<Longrightarrow> Value_Size (sc_value s) = length (v_data (sc_value s))"
  by (simp add: fit_scanner_def wf_value_Size)

text \<open>One iteration of the loop, its window and its read given.\<close>

lemma scanBytes_step:
  assumes "\<not> ctx k" "chunk1 = copy_at chunk 0 truncated"
    and "slice chunk1 (int (length truncated)) (int (length truncated) + sc_bufSize s) = Some window"
    and "ReadFull read window r = Some (n, err, window', r')"
    and "chunk2 = copy_at chunk1 (length truncated) window'"
    and "backward = (if n < 0 then 0 else n)" "total_len = int (length truncated) + backward"
    and "sz = int (Value_Size (sc_value s))"
  shows "scanBytes_loop ctx read seeker options s f k chunk truncated offset r c =
    (if total_len < sz then
       (case tryAlignNextPage err options seeker (offset + backward) r' of
          Some (nextOffset, r) \<Rightarrow> scanBytes_loop ctx read seeker options s f (k + 1) chunk2 [] nextOffset r c
        | None \<Rightarrow> Some (r', c))
     else do {
       cur \<leftarrow> slice chunk2 0 total_len;
       (continue, c) \<leftarrow> scan_chunk (Aligned (sc_value s)) sz (v_data (sc_value s)) f cur
                            (offset - int (length truncated)) 0 c;
       if \<not> continue then Some (r', c)
       else if err \<noteq> None \<or> backward < sc_bufSize s then
         (case tryAlignNextPage err options seeker (offset + backward) r' of
            Some (nextOffset, r) \<Rightarrow> scanBytes_loop ctx read seeker options s f (k + 1) chunk2 [] nextOffset r c
          | None \<Rightarrow> Some (r', c))
       else scanBytes_loop ctx read seeker options s f (k + 1) chunk2
         (if sz \<le> int (length cur) then drop (length cur - Value_Size (sc_value s) + 1) cur else cur)
         (offset + backward) r' c
     })"
  unfolding assms(5-8)
  apply (subst scanBytes_loop.simps)
  using assms(1,3,4) unfolding assms(2)
  apply (simp only: Let_def if_False bind.bind_lunit prod.case nat_int)
  done

context full_reader
begin

definition stream :: bytes where
  "stream = map (\<lambda>i. the (byte_at i)) [0..<total]"

lemma rest_stream: "rest r = drop (pos r) stream"
  by (simp add: rest_def stream_def drop_map)

lemma length_stream [simp]: "length stream = total"
  by (simp add: stream_def)

text \<open>At the end of the stream the options find no further page.\<close>

definition no_page_after :: "Options option \<Rightarrow> (u64 \<Rightarrow> 'r \<Rightarrow> 'r option) option \<Rightarrow> bool" where
  "no_page_after options seeker \<longleftrightarrow>
     (\<forall>err r. (\<forall>e. err \<noteq> Some (Errno e)) \<longrightarrow> tryAlignNextPage err options seeker (int total) r = None)"

lemma scanBytes_loop_full:
  assumes "fit_scanner s B" "Aligned (sc_value s)" "pat = v_data (sc_value s)" "no_page_after options seeker"
    and "ok r" "length truncated \<le> pos r" "length truncated < length pat"
    and "truncated = drop (pos r - length truncated) (take (pos r) stream)"
    and "length chunk = B + length pat"
  shows "map_option snd (scanBytes_loop (\<lambda>_. False) read seeker options s f k chunk truncated (int (pos r)) r c) =
    map_option snd (feed f (map int
      (aligned_hits 0 pat (pos r - length truncated) stream (total + 1 - length pat))) c)"
  using assms(5-)
proof (induction "total - pos r" arbitrary: k chunk truncated r c rule: less_induct)
  case less
  define o' where "o' = pos r"
  define fw where "fw = length truncated"
  define sz where "sz = length pat"
  have sz: "0 < sz" "sz \<le> B" "Value_Size (sc_value s) = sz" "B < 2 ^ 62" "sc_bufSize s = int B" "length pat = sz"
    using assms(1,3) fit_scanner_size [OF assms(1)] by (simp_all add: fit_scanner_def sz_def)
  define chunk1 where "chunk1 = copy_at chunk 0 truncated"
  define win where "win = take B (drop fw chunk1)"
  have len: "length chunk1 = B + sz" "fw < sz" "fw \<le> o'"
    using less.prems by (simp_all add: chunk1_def length_copy_at sz_def fw_def o'_def)
  then have win: "length win = B" "slice chunk1 (int fw) (int fw + int B) = Some win"
    by (simp_all add: win_def)
  define m where "m = min B (total - o')"
  from ReadFull_full [OF less.prems(1), of win m] win(1) sz(4) obtain err win' r'
    where rd: "ReadFull read win r = Some (int m, err, win', r')" "ok r'" "pos r' = o' + m" "length win' = B"
      "take m win' = take m (rest r)" "err = None \<longleftrightarrow> m = B" "\<forall>e. err \<noteq> Some (Errno e)"
    by (auto simp: m_def o'_def)
  have "o' \<le> total" using pos_total [OF less.prems(1)] by (simp add: o'_def)
  then have m: "m \<le> B" "o' + m \<le> total" "m < B \<Longrightarrow> o' + m = total"
    by (auto simp: m_def)
  define chunk2 where "chunk2 = copy_at chunk1 fw win'"
  define cur where "cur = drop (o' - fw) (take (o' + m) stream)"
  have "take (fw + m) chunk2 = truncated @ take m win'"
    unfolding chunk2_def chunk1_def fw_def
    using rd(4) m(1) less.prems(5) len(2) by (intro take_two_copies) (simp_all add: fw_def sz_def)
  also have "take m win' = take m (drop o' stream)"
    by (simp add: rd(5) rest_stream o'_def)
  also have "truncated @ take m (drop o' stream) = cur"
  proof -
    have "take (o' + m) stream = take o' stream @ take m (drop o' stream)"
      by (simp add: take_add)
    moreover have "length (take o' stream) = o'"
      using \<open>o' \<le> total\<close> by simp
    ultimately show ?thesis
      using less.prems(4) by (simp add: cur_def fw_def o'_def)
  qed
  finally have cur: "take (fw + m) chunk2 = cur" .
  have clen: "length cur = fw + m" "length chunk2 = B + sz"
    using m(2) len by (simp_all add: cur_def chunk2_def length_copy_at)
  define loop where "loop = scanBytes_loop (\<lambda>_. False) read seeker options s f"
  have cut: "slice chunk2 0 (int fw + int m) = Some cur"
    using cur clen(2) len(2) m(1) by (simp add: nat_add_distrib)
  have al: "Aligned (sc_value s)" "v_data (sc_value s) = pat"
    using assms(2,3) by simp_all
  have bw: "int m = (if int m < 0 then 0 else int m)" by simp
  have err: "(\<exists>e. err = Some e) \<or> int m < sc_bufSize s \<longleftrightarrow> m < B"
    using rd(6) m(1) sz(5) by auto
  have ints: "int fw + int m < int sz \<longleftrightarrow> fw + m < sz" "int o' - int fw = int (o' - fw)"
    using len(3) by auto
  have no: "tryAlignNextPage err options seeker (int o' + int m) r' = None" if "m < B"
  proof -
    have "int o' + int m = int total" using m(3) [OF that] by simp
    then show ?thesis using assms(4) rd(7) by (simp add: no_page_after_def)
  qed
  have small: "fw + m < sz \<Longrightarrow> m < B" using sz(2) by simp
  note unfold = scanBytes_step [OF _ chunk1_def win(2) [folded sz(5), unfolded fw_def] rd(1)
      chunk2_def [unfolded fw_def] bw refl refl, of "\<lambda>_. False" k seeker options f "int o'" c]
  have step: "loop k chunk truncated (int o') r c =
    (if fw + m < sz then Some (r', c)
     else do {
       (continue, c) \<leftarrow> scan_chunk True (int sz) pat f cur (int (o' - fw)) 0 c;
       if \<not> continue then Some (r', c)
       else if m < B then Some (r', c)
       else loop (k + 1) chunk2 (drop (length cur - sz + 1) cur) (int (o' + m)) r' c
     })"
    unfolding loop_def using unfold clen(1)
    by (cases "m < B") (auto simp: no small al err ints cut sz(3) simp flip: fw_def cong: if_cong)
  define hits where "hits lo hi = map int (aligned_hits 0 pat lo stream hi)" for lo hi
  show ?case
  proof (cases "fw + m < sz")
    case True
    with sz(2) m(3) have "o' + m = total" by simp
    with True len(3) sz(6) have "aligned_hits 0 pat (o' - fw) stream (total + 1 - length pat) = []"
      by (intro aligned_hits_empty) simp
    with step True show ?thesis
      by (simp add: loop_def o'_def fw_def)
  next
    case False
    have ne: "pat \<noteq> []" using sz(1,6) by auto
    have "scan_chunk True (int sz) pat f cur (int (o' - fw)) 0 c =
        feed f (map (\<lambda>p. int (o' - fw + p)) (aligned_hits (o' - fw) pat 0 cur (length cur + 1 - sz))) c"
      using scan_chunk_hits [OF ne, of 0 cur f "o' - fw" c] by (simp add: sz(6))
    also have "map (\<lambda>p. int (o' - fw + p)) (aligned_hits (o' - fw) pat 0 cur (length cur + 1 - sz)) =
        hits (o' - fw) (o' + m + 1 - sz)"
    proof -
      have e: "o' + m - (o' - fw) = length cur" using len(3) clen(1) by simp
      have "length pat \<le> o' + m - (o' - fw)" using False sz(6) clen(1) e by linarith
      from aligned_hits_window [OF this ne, of stream, unfolded e, folded cur_def]
      have "map ((+) (o' - fw)) (aligned_hits (o' - fw) pat 0 cur (length cur + 1 - sz)) =
          aligned_hits 0 pat (o' - fw) stream (o' + m + 1 - sz)"
        unfolding sz(6) .
      then show ?thesis
        unfolding hits_def by (metis (no_types, lifting) map_eq_conv comp_apply map_map)
    qed
    finally have chunk: "scan_chunk True (int sz) pat f cur (int (o' - fw)) 0 c =
        feed f (hits (o' - fw) (o' + m + 1 - sz)) c" .
    have split: "hits (o' - fw) (total + 1 - sz) =
        hits (o' - fw) (o' + m + 1 - sz) @ hits (o' + m + 1 - sz) (total + 1 - sz)"
      using m(2) False len(3) aligned_hits_append [of "o' - fw" "o' + m + 1 - sz" "total + 1 - sz" 0 pat stream]
      by (simp add: hits_def)
    have goal: "map_option snd (loop k chunk truncated (int o') r c) =
        map_option snd (feed f (hits (o' - fw) (total + 1 - sz)) c)"
    proof (cases "m < B")
      case True
      then have "hits (o' + m + 1 - sz) (total + 1 - sz) = []"
        using m(3) by (simp add: hits_def aligned_hits_empty)
      with True step False chunk split show ?thesis
        by (cases "feed f (hits (o' - fw) (o' + m + 1 - sz)) c") auto
    next
      case mB: False
      define t2 where "t2 = drop (length cur - sz + 1) cur"
      have t2: "length t2 = sz - 1" "length t2 < length pat" "length t2 \<le> pos r'"
        "t2 = drop (pos r' - length t2) (take (pos r') stream)" "pos r' - length t2 = o' + m + 1 - sz"
      proof -
        have "Suc (m + o' - sz) = Suc (m + o') - sz"
          using False len(3) by (simp add: Suc_diff_le)
        then show "length t2 = sz - 1" "length t2 < length pat" "length t2 \<le> pos r'"
          "t2 = drop (pos r' - length t2) (take (pos r') stream)" "pos r' - length t2 = o' + m + 1 - sz"
          using False sz(1,6) len(3) clen(1) rd(3) by (auto simp: t2_def cur_def add.commute)
      qed
      have "map_option snd (loop (k + 1) chunk2 t2 (int (pos r')) r' c') =
          map_option snd (feed f (hits (o' + m + 1 - sz) (total + 1 - sz)) c')" for c'
      proof -
        have "total - pos r' < total - pos r"
          using mB m(1,2) sz rd(3) by (simp add: o'_def)
        from less.hyps [OF this rd(2) t2(3,2,4)] clen(2) sz(6) show ?thesis
          by (simp add: loop_def hits_def t2(5))
      qed
      with step False chunk split mB rd(3) show ?thesis
        by (cases "feed f (hits (o' - fw) (o' + m + 1 - sz)) c") (auto simp: feed_append t2_def)
    qed
    then show ?thesis
      by (simp add: loop_def hits_def o'_def fw_def sz(6))
  qed
qed

end

section \<open>Any reader\<close>

text \<open>The search in a chunk keeps an invariant the collector keeps on every occurrence it is given.\<close>

lemma scan_chunk_safe:
  assumes mono: "\<And>k k' c. J k c \<Longrightarrow> k \<le> k' \<Longrightarrow> J k' c"
    and "pat \<noteq> []" "i \<le> length cur" "J k c" "k \<le> b + i" "k \<le> b + (length cur + 1 - length pat)"
    and step: "\<And>k p c. J k c \<Longrightarrow> k \<le> b + p \<Longrightarrow> p + length pat \<le> length cur \<Longrightarrow> occurs cur pat p \<Longrightarrow>
      (al \<longrightarrow> (b + p) mod length pat = 0) \<Longrightarrow> \<exists>continue c'. f (int (b + p)) c = Some (continue, c') \<and> J (Suc (b + p)) c'"
  shows "\<exists>continue c'. scan_chunk al (int (length pat)) pat f cur (int b) (int i) c = Some (continue, c') \<and>
    J (b + (length cur + 1 - length pat)) c'"
  using assms(3-6)
proof (induction "length cur - i" arbitrary: i k c rule: less_induct)
  case less
  note last = mono [where k' = "b + (length cur + 1 - length pat)"]
  define sz where "sz = length pat"
  have sz: "0 < sz" using assms(2) by (simp add: sz_def)
  from assms(2) less.prems(1) show ?case
  proof (cases rule: Index_from)
    case 1
    with less.prems(1) last [OF less.prems(2,4)] show ?thesis
      by (subst scan_chunk.simps) (auto simp: slice_from)
  next
    case (2 q)
    define pos where "pos = i + q"
    have pos: "pos + sz \<le> length cur" "occurs cur pat pos"
      using 2 by (simp_all add: pos_def sz_def)
    have rem: "go_rem (int b + int pos) (int sz) = int ((b + pos) mod sz)"
      using sz by (simp add: go_rem_nonneg zmod_int)
    have IH: "\<exists>continue c''. scan_chunk al (int sz) pat f cur (int b) (int j) c' = Some (continue, c'') \<and>
        J (b + (length cur + 1 - sz)) c''"
      if "i < j" "j \<le> length cur" "J k' c'" "k' \<le> b + j" "k' \<le> b + (length cur + 1 - sz)" for j k' c'
    proof -
      have "length cur - j < length cur - i" using that by arith
      from less.hyps [OF this that(2,3,4)] that(5) show ?thesis by (simp add: sz_def)
    qed
    have unfold: "scan_chunk al (int sz) pat f cur (int b) (int i) c =
      (if \<not> al \<or> (b + pos) mod sz = 0 then do {
         (continue, c) \<leftarrow> f (int (b + pos)) c;
         if \<not> continue then Some (False, c)
         else scan_chunk al (int sz) pat f cur (int b) (int (pos + sz)) c }
       else scan_chunk al (int sz) pat f cur (int b) (int (pos + (sz - (b + pos) mod sz))) c)"
      using 2(1) less.prems(1) rem mod_less_divisor [OF sz, of "b + pos"]
      by (subst scan_chunk.simps) (simp add: slice_from pos_def Let_def algebra_simps of_nat_diff cong: if_cong)
    show ?thesis
    proof (cases "\<not> al \<or> (b + pos) mod sz = 0")
      case True
      moreover have "k \<le> b + pos" using less.prems(3) by (simp add: pos_def)
      ultimately obtain continue c' where c': "f (int (b + pos)) c = Some (continue, c')" "J (Suc (b + pos)) c'"
        using step [OF less.prems(2) _ _ pos(2)] pos(1) by (auto simp: sz_def)
      have k': "Suc (b + pos) \<le> b + (length cur + 1 - sz)" "Suc (b + pos) \<le> b + (pos + sz)"
        using pos(1) sz by linarith+
      have i: "i < pos + sz" using sz by (simp add: pos_def)
      show ?thesis
      proof (cases continue)
        case True
        have "scan_chunk al (int sz) pat f cur (int b) (int i) c = scan_chunk al (int sz) pat f cur (int b) (int (pos + sz)) c'"
          unfolding unfold using \<open>\<not> al \<or> (b + pos) mod sz = 0\<close> c'(1) True by simp
        with IH [OF i pos(1) c'(2) k'(2,1)] show ?thesis by (simp add: sz_def)
      next
        case False
        have "scan_chunk al (int sz) pat f cur (int b) (int i) c = Some (False, c')"
          unfolding unfold using \<open>\<not> al \<or> (b + pos) mod sz = 0\<close> c'(1) False by simp
        with last [OF c'(2)] k'(1) show ?thesis by (auto simp: sz_def)
      qed
    next
      case False
      define j where "j = pos + (sz - (b + pos) mod sz)"
      have j: "i < j" "j \<le> length cur"
        using mod_less_divisor [OF sz, of "b + pos"] pos(1) by (simp_all add: j_def pos_def)
      have "scan_chunk al (int sz) pat f cur (int b) (int i) c =
          scan_chunk al (int sz) pat f cur (int b) (int j) c"
        using False unfolding unfold j_def by (simp only: if_False)
      with IH [OF j less.prems(2)] less.prems(3,4) j(1) show ?thesis by (simp add: sz_def)
    qed
  qed
qed

text \<open>The next page lies behind the offset asked about.\<close>

lemma next_page:
  assumes "unat x < 2 ^ 63" "y = page_floor (x + 0xFFF)" "z = (if y \<le> x then y + 0x1000 else y)"
  shows "unat x < unat z \<and> unat z mod 4096 = 0"
proof -
  have al: "page_aligned y" by (simp add: assms(2))
  have "unat x + 4095 < 2 ^ 64" using assms(1) by simp
  from page_ceil_bounds [OF this] have y: "unat x \<le> unat y" "unat y < unat x + 4096"
    by (simp_all add: assms(2) page_ceil_def)
  show ?thesis
  proof (cases "y \<le> x")
    case True
    with y have "unat y = unat x" by (simp add: word_le_nat_alt)
    moreover have "unat (y + 0x1000) = unat y + 4096"
      using y assms(1) by (subst unat_add_lem [THEN iffD1]) simp_all
    ultimately show ?thesis using True al by (simp add: assms(3) page_aligned_def)
  next
    case False
    then have "z = y" by (simp add: assms(3))
    with False al show ?thesis by (simp add: word_less_nat_alt not_le page_aligned_def)
  qed
qed

context seek_reader
begin

lemma tryAlign_next:
  assumes "tryAlignNextPage err options (Some seek) (int x) r = Some (next', r2)"
    and "ok r" "x < 2 ^ 63" "total < 2 ^ 62" "\<And>opts. options = Some opts \<Longrightarrow> unat (ExpectedSize opts) \<le> total"
  shows "\<exists>n. next' = int n \<and> ok r2 \<and> pos r2 = n \<and> x < n \<and> n < total \<and> n mod 4096 = 0"
proof -
  from assms(1) obtain e opts w where o: "options = Some opts" "alignNextPage opts (Some seek) (of_int (int x)) r = Some (w, r2)"
    "next' = sint w"
    by (auto simp: tryAlignNextPage_def split: option.splits if_splits prod.splits)
  have x: "unat (of_int (int x) :: u64) = x"
    using assms(3) by (simp add: unat_of_nat)
  from o(2) have w: "w < ExpectedSize opts" "seek w r = Some r2"
    "w = (let y = page_floor (of_int (int x) + 0xFFF) in if y \<le> of_int (int x) then y + 0x1000 else y)"
    by (auto simp: alignNextPage_def Let_def not_le split: if_splits)
  have "unat w < unat (ExpectedSize opts)" using w(1) by (simp add: word_less_nat_alt)
  with assms(5) [OF o(1)] have "unat w < total" by simp
  moreover from seek_inside [OF assms(2) this] w(2) have "ok r2" "pos r2 = unat w" by auto
  moreover have "x < unat w \<and> unat w mod 4096 = 0"
    using next_page [OF _ refl w(3) [unfolded Let_def]] x assms(3) by simp
  moreover have "next' = int (unat w)"
    using \<open>unat w < total\<close> assms(4) o(3) by (simp add: sint_unat64)
  ultimately show ?thesis by (intro exI [of _ "unat w"]) simp
qed

definition hit_at :: "bytes \<Rightarrow> nat \<Rightarrow> bool" where
  "hit_at pat p \<longleftrightarrow> (\<forall>i < length pat. byte_at (p + i) = Some (pat ! i))"

lemma occurs_hit:
  assumes "occurs cur pat p" "pat \<noteq> []" "\<forall>i < length cur. byte_at (a + i) = Some (cur ! i)"
  shows "hit_at pat (a + p)"
  unfolding hit_at_def
proof (intro allI impI)
  fix i assume i: "i < length pat"
  from occurs_bound [OF assms(1,2)] i have "p + i < length cur" by simp
  moreover have "cur ! (p + i) = pat ! i"
    using assms(1) i nth_take [OF i, of "drop p cur"] occurs_bound [OF assms(1,2)]
    by (simp add: occurs_def)
  ultimately show "byte_at (a + p + i) = Some (pat ! i)"
    using assms(3) by (simp add: add.assoc)
qed

lemma scanBytes_loop_safe:
  assumes "fit_scanner s B" "pat = v_data (sc_value s)" "total < 2 ^ 62"
    and "\<And>opts. options = Some opts \<Longrightarrow> unat (ExpectedSize opts) \<le> total"
    and mono: "\<And>k k' c. J k c \<Longrightarrow> k \<le> k' \<Longrightarrow> J k' c"
    and step: "\<And>k p c. J k c \<Longrightarrow> k \<le> p \<Longrightarrow> p + length pat \<le> total \<Longrightarrow> hit_at pat p \<Longrightarrow>
      (Aligned (sc_value s) \<longrightarrow> p mod length pat = 0) \<Longrightarrow> \<exists>continue c'. f (int p) c = Some (continue, c') \<and> J (Suc p) c'"
    and "ok r" "length truncated \<le> pos r" "length truncated < length pat"
    and "\<forall>i < length truncated. byte_at (pos r - length truncated + i) = Some (truncated ! i)"
    and "length chunk = B + length pat" "J (pos r - length truncated) c"
  shows "\<exists>r' c' k'. scanBytes_loop ctx read (Some seek) options s f k chunk truncated (int (pos r)) r c = Some (r', c') \<and>
    ok r' \<and> J k' c'"
  using assms(7-)
proof (induction "total - pos r" arbitrary: k chunk truncated r c rule: less_induct)
  case less
  define p where "p = pos r"
  define fw where "fw = length truncated"
  define sz where "sz = length pat"
  have sz: "0 < sz" "sz \<le> B" "Value_Size (sc_value s) = sz" "B < 2 ^ 62" "sc_bufSize s = int B" "length pat = sz"
    using assms(1,2) fit_scanner_size [OF assms(1)] by (simp_all add: fit_scanner_def sz_def)
  define chunk1 where "chunk1 = copy_at chunk 0 truncated"
  define win where "win = take B (drop fw chunk1)"
  have len: "length chunk1 = B + sz" "fw < sz" "fw \<le> p"
    using less.prems by (simp_all add: chunk1_def length_copy_at sz_def fw_def p_def)
  then have win: "length win = B" "slice chunk1 (int fw) (int fw + int B) = Some win"
    by (simp_all add: win_def)
  from ReadFull_reads [OF less.prems(1), of win] win(1) sz(4) obtain n err win' r'
    where rd: "ReadFull read win r = Some (n, err, win', r')" "-1 \<le> n" "n \<le> int B" "length win' = B" "ok r'"
      "\<forall>i. int i < n \<longrightarrow> byte_at (p + i) = Some (win' ! i)" "err = None \<longleftrightarrow> n = int B"
      "err = None \<longrightarrow> pos r' = p + B" "int p + n \<le> int (pos r')"
    by (auto simp: p_def)
  define bw where "bw = nat n"
  have bw: "int bw = (if n < 0 then 0 else n)" "bw \<le> B" "\<forall>i < bw. byte_at (p + i) = Some (win' ! i)"
    using rd(3,6) by (auto simp: bw_def)
  have end': "p + bw \<le> total"
    using pos_total [OF less.prems(1)] pos_total [OF rd(5)] rd(9) by (simp add: bw_def p_def)
  define chunk2 where "chunk2 = copy_at chunk1 fw win'"
  define cur where "cur = truncated @ take bw win'"
  have "take (fw + bw) chunk2 = cur"
    unfolding chunk2_def chunk1_def fw_def cur_def
    using rd(4) bw(2) less.prems(5) len(2) by (intro take_two_copies) (simp_all add: fw_def sz_def)
  moreover have clen: "length cur = fw + bw" "length chunk2 = B + sz"
    using bw(2) rd(4) len by (simp_all add: cur_def fw_def chunk2_def length_copy_at)
  ultimately have cut: "slice chunk2 0 (int fw + int bw) = Some cur"
    using bw(2) len(2) by (simp add: nat_add_distrib)
  have valid: "\<forall>i < length cur. byte_at (p - fw + i) = Some (cur ! i)"
  proof (intro allI impI)
    fix i assume i: "i < length cur"
    show "byte_at (p - fw + i) = Some (cur ! i)"
    proof (cases "i < fw")
      case True
      then show ?thesis
        using less.prems(4) by (simp add: cur_def fw_def p_def nth_append)
    next
      case False
      then have e: "p - fw + i = p + (i - fw)" "i - fw < bw" using len(3) i clen(1) by auto
      have "cur ! i = win' ! (i - fw)"
        using False e(2) by (simp add: cur_def fw_def nth_append)
      with bw(3) e(2) show ?thesis unfolding e(1) by simp
    qed
  qed
  define loop where "loop = scanBytes_loop ctx read (Some seek) options s f"
  have align: "\<exists>r2 c2. (case tryAlignNextPage err options (Some seek) (int p + int bw) r' of
        Some (nextOffset, r) \<Rightarrow> loop (k + 1) chunk2 [] nextOffset r c'
      | None \<Rightarrow> Some (r', c')) = Some (r2, c2) \<and> ok r2 \<and> (\<exists>k2. J k2 c2)" if "J k' c'" "k' \<le> p + bw" for k' c'
  proof (cases "tryAlignNextPage err options (Some seek) (int p + int bw) r'")
    case None
    with rd(5) that show ?thesis by auto
  next
    case (Some a)
    have "p + bw < 2 ^ 63"
      using pos_total [OF less.prems(1)] assms(3) bw(2) sz(4) by (simp add: p_def)
    with tryAlign_next [of err options "p + bw" r' _ _, OF _ rd(5) _ assms(3,4)] Some obtain q
      where q: "fst a = int q" "ok (snd a)" "pos (snd a) = q" "p + bw < q" "q < total"
      by (cases a) auto
    have less': "total - pos (snd a) < total - pos r"
      using q(3-5) by (simp add: p_def)
    have "J q c'" using mono [OF that(1), of q] that(2) q(4) by simp
    with less.hyps [OF less' q(2), of "[]" chunk2 c' "k + 1"] sz(1,6) clen(2) Some q(1,3) show ?thesis
      by (cases a) (simp add: loop_def)
  qed
  have "int fw + int bw < int sz \<longleftrightarrow> fw + bw < sz" "int p - int fw = int (p - fw)"
    using len(3) by auto
  note ints = this
  show ?case
  proof (cases "ctx k")
    case True
    with less.prems show ?thesis by (subst scanBytes_loop.simps) auto
  next
    case nctx: False
    note unfold = scanBytes_step [where ctx = ctx and k = k, OF nctx chunk1_def win(2) [folded sz(5), unfolded fw_def] rd(1)
        chunk2_def [unfolded fw_def] bw(1) refl refl, of "Some seek" options f "int p" c,
        folded loop_def fw_def, unfolded ints sz(3) assms(2) [symmetric] cut bind.bind_lunit]
    show ?thesis
    proof (cases "fw + bw < sz")
      case True
      with unfold align [OF less.prems(6)] show ?thesis by (simp add: loop_def p_def fw_def)
    next
      case False
      define e where "e = p - fw + (length cur + 1 - sz)"
      have e: "e + (sz - 1) = p + bw" "e \<le> p + bw" using False clen(1) len(3) sz(1) by (simp_all add: e_def)
      have "\<exists>continue c'. scan_chunk (Aligned (sc_value s)) (int sz) pat f cur (int (p - fw)) (int 0) c =
          Some (continue, c') \<and> J e c'"
        unfolding sz_def e_def
      proof (rule scan_chunk_safe [where J = J, OF mono])
        fix k q c assume "J k c" "k \<le> p - fw + q" "q + length pat \<le> length cur" "occurs cur pat q"
          "Aligned (sc_value s) \<longrightarrow> (p - fw + q) mod length pat = 0"
        moreover have "p - fw + q + length pat \<le> total"
          using \<open>q + length pat \<le> length cur\<close> clen(1) len(3) end' by simp
        ultimately show "\<exists>continue c'. f (int (p - fw + q)) c = Some (continue, c') \<and> J (Suc (p - fw + q)) c'"
          using step [of k c "p - fw + q"] occurs_hit [of cur pat q "p - fw"] valid sz(1,6) by auto
      qed (use sz less.prems(6) in \<open>auto simp: p_def fw_def\<close>)
      then obtain continue c' where sc:
        "scan_chunk (Aligned (sc_value s)) (int sz) pat f cur (int (p - fw)) 0 c = Some (continue, c')" "J e c'"
        by auto
      define t2 where "t2 = drop (length cur - sz + 1) cur"
      have next': "\<exists>r2 c2 k2. loop (k + 1) chunk2 t2 (int p + int bw) r' c' = Some (r2, c2) \<and> ok r2 \<and> J k2 c2"
        if "err = None"
      proof -
        have nB: "n = int B" "pos r' = p + bw" "bw = B"
          using that rd(7,8) by (simp_all add: bw_def)
        have t2: "length t2 = sz - 1" using False sz(1) clen(1) by (simp add: t2_def)
        have "\<forall>i < length t2. byte_at (e + i) = Some (t2 ! i)"
        proof (intro allI impI)
          fix i assume i: "i < length t2"
          define j where "j = length cur - sz + 1 + i"
          have "j < length cur" "t2 ! i = cur ! j" "p - fw + j = e + i"
            using i t2 False sz(1) clen(1) len(3) by (auto simp: j_def t2_def e_def)
          with valid show "byte_at (e + i) = Some (t2 ! i)" by metis
        qed
        moreover have "total - pos r' < total - pos r"
          using pos_total [OF rd(5)] nB sz(1,2) by (simp add: p_def)
        moreover have "length t2 \<le> pos r'" "length t2 < length pat"
          using t2 nB(2,3) sz by auto
        moreover have "pos r' - length t2 = e" using e(1) nB(2) t2 by simp
        ultimately show ?thesis
          using less.hyps [of r' t2 chunk2 c' "k + 1"] rd(5) clen(2) sz(6) sc(2) nB(2) by (simp add: loop_def)
      qed
      show ?thesis
        using unfold False sc align [OF sc(2) e(2)] next' rd(5) clen(1)
        by (cases "err = None") (auto simp: loop_def p_def t2_def)
    qed
  qed
qed

lemma scanBytes_safe:
  assumes "fit_scanner s B" "pat = v_data (sc_value s)" "total < 2 ^ 62"
    and "\<And>opts. options = Some opts \<Longrightarrow> unat (ExpectedSize opts) \<le> total"
    and "\<And>k k' c. J k c \<Longrightarrow> k \<le> k' \<Longrightarrow> J k' c"
    and "\<And>k p c. J k c \<Longrightarrow> k \<le> p \<Longrightarrow> p + length pat \<le> total \<Longrightarrow> hit_at pat p \<Longrightarrow>
      (Aligned (sc_value s) \<longrightarrow> p mod length pat = 0) \<Longrightarrow> \<exists>continue c'. f (int p) c = Some (continue, c') \<and> J (Suc p) c'"
    and "ok r" "pos r = 0" "J 0 c"
  shows "\<exists>r' c' k'. scanBytes ctx read (Some seek) options s f r c = Some (r', c') \<and> ok r' \<and> J k' c'"
proof -
  have "0 < length pat" "Value_Size (sc_value s) = length pat" "sc_bufSize s = int B"
    using assms(1,2) fit_scanner_size [OF assms(1)] by (simp_all add: fit_scanner_def)
  then have start: "scanBytes ctx read (Some seek) options s f r c =
      scanBytes_loop ctx read (Some seek) options s f 0 (replicate (B + length pat) 0) [] (int (pos r)) r c"
    by (simp add: scanBytes_def nat_add_distrib assms(8))
  show ?thesis
    unfolding start
    by (rule scanBytes_loop_safe [where J = J and f = f, OF assms(1-7)])
      (use \<open>0 < length pat\<close> assms(8,9) in simp_all)
qed

end

context full_reader
begin

lemma scanBytes_full:
  assumes "fit_scanner s B" "Aligned (sc_value s)" "no_page_after options seeker" "ok r" "pos r = 0"
  shows "map_option snd (scanBytes (\<lambda>_. False) read seeker options s f r c) =
    map_option snd (feed f (map int
      (aligned_hits 0 (v_data (sc_value s)) 0 stream (total + 1 - length (v_data (sc_value s))))) c)"
proof -
  define pat where "pat = v_data (sc_value s)"
  have "0 < length pat" "Value_Size (sc_value s) = length pat" "sc_bufSize s = int B"
    using assms(1) fit_scanner_size [OF assms(1)] by (simp_all add: fit_scanner_def pat_def)
  with scanBytes_loop_full [OF assms(1,2) pat_def assms(3,4), of "[]" "replicate (B + length pat) 0"] assms(5)
  show ?thesis
    by (simp add: scanBytes_def nat_add_distrib flip: pat_def)
qed

end

section \<open>The constructor\<close>

lemma round_size_bounds:
  assumes "0 < step" "0 \<le> b"
  shows "b \<le> round_size step b \<and> round_size step b < b + step \<and> round_size step b mod step = 0"
proof (cases "go_rem b step = 0")
  case True
  then show ?thesis
    using assms by (simp add: round_size_def go_rem_nonneg)
next
  case False
  define e where "e = (b + step - 1) mod step"
  have "round_size step b = (b + step - 1) - e"
    using False assms by (simp add: round_size_def go_div_nonneg e_def minus_mod_eq_div_mult)
  moreover have "0 \<le> e" "e < step"
    using assms by (simp_all add: e_def)
  moreover have "((b + step - 1) - e) mod step = 0"
    by (simp add: e_def minus_mod_eq_mult_div)
  ultimately show ?thesis by simp
qed

lemma NewScannerBuffer_plain:
  assumes "\<not> HasOption v"
  shows "\<exists>s. NewScannerBuffer v bufSize = Some s \<and> sc_value s = v \<and> sc_rf32 s = None \<and> sc_rf64 s = None \<and>
    int (Value_Size v) \<le> sc_bufSize s \<and> bufSize \<le> sc_bufSize s \<and>
    sc_bufSize s < max bufSize (int (Value_Size v)) + 5 \<and> sc_bufSize s mod 4 = 0"
proof -
  define b where "b = (if bufSize < int (Value_Size v) then int (Value_Size v) + 1 else bufSize)"
  have b: "0 \<le> b" "int (Value_Size v) \<le> b" "bufSize \<le> b" "b \<le> max bufSize (int (Value_Size v)) + 1"
    by (auto simp: b_def)
  from round_size_bounds [of 4 b] b(1)
  have "b \<le> round_size 4 b" "round_size 4 b < b + 4" "round_size 4 b mod 4 = 0" by auto
  with b assms show ?thesis
    by (auto simp: NewScannerBuffer_def Let_def simp flip: b_def)
qed

end
