(* ===== verification/Scan_Float.thy ===== *)
theory Scan_Float
  imports Scanner
begin

text \<open>
  Scanning for floats in an interval (\<^verbatim>\<open>scanner/scan_float32_rounded.go\<close>,
  \<^verbatim>\<open>scanner/scan_float32_vectorized.go\<close> and their 64-bit twins, generated from one template each): eight
  loads at a time, then the rest one by one. The format is a parameter of the shared definitions.
\<close>

definition width :: "fmt \<Rightarrow> nat" where
  "width f = (case f of F32 \<Rightarrow> 4 | F64 \<Rightarrow> 8)"

lemma width_pos [simp]: "0 < width f"
  by (cases f) (simp_all add: width_def)

lemma step_less: "i + k \<le> (n :: nat) \<Longrightarrow> 0 < k \<Longrightarrow> n - (i + k) < n - i"
  by arith

section \<open>One buffer\<close>

text \<open>The load at position \<open>i\<close>, its comparison, and the call of the collector, whose answer is not looked at.\<close>

definition lane :: "fmt \<Rightarrow> bytes \<Rightarrow> fl \<Rightarrow> fl \<Rightarrow> int \<Rightarrow> 'c collector \<Rightarrow> nat \<Rightarrow> 'c \<Rightarrow> 'c go" where
  "lane f data lo hi offset collector i c =
     (let v = float_at f (take (width f) (drop i data)) in
      if fle lo v \<and> flt v hi then map_option snd (collector (offset + int i) c) else Some c)"

function vector_tail :: "fmt \<Rightarrow> bytes \<Rightarrow> fl \<Rightarrow> fl \<Rightarrow> int \<Rightarrow> 'c collector \<Rightarrow> nat \<Rightarrow> 'c \<Rightarrow> 'c go" where
  "vector_tail f data lo hi offset collector i c =
     (if i + width f \<le> length data then do {
        c \<leftarrow> lane f data lo hi offset collector i c;
        vector_tail f data lo hi offset collector (i + width f) c
      } else Some c)"
  by pat_completeness auto
termination
  by (relation "measure (\<lambda>(f, data, lo, hi, offset, collector, i, c). length data - i)")
    (auto intro: step_less)

function vector_main :: "fmt \<Rightarrow> bytes \<Rightarrow> fl \<Rightarrow> fl \<Rightarrow> int \<Rightarrow> 'c collector \<Rightarrow> nat \<Rightarrow> 'c \<Rightarrow> 'c go" where
  "vector_main f data lo hi offset collector i c =
     (if i + 8 * width f \<le> length data then do {
        c \<leftarrow> go_fold (\<lambda>k. lane f data lo hi offset collector (i + k * width f)) [0, 1, 2, 3, 4, 5, 6, 7] c;
        vector_main f data lo hi offset collector (i + 8 * width f) c
      } else vector_tail f data lo hi offset collector i c)"
  by pat_completeness auto
termination
  by (relation "measure (\<lambda>(f, data, lo, hi, offset, collector, i, c). length data - i)")
    (auto intro: step_less)

declare vector_tail.simps [simp del] vector_main.simps [simp del]

definition scan_vectorized :: "fmt \<Rightarrow> bytes \<Rightarrow> fl \<Rightarrow> fl \<Rightarrow> int \<Rightarrow> 'c collector \<Rightarrow> 'c \<Rightarrow> 'c go" where
  "scan_vectorized f data lo hi offset collector c =
     (if length data < width f then Some c else vector_main f data lo hi offset collector 0 c)"

definition scanFloat32Vectorized :: "bytes \<Rightarrow> fl \<Rightarrow> fl \<Rightarrow> int \<Rightarrow> 'c collector \<Rightarrow> 'c \<Rightarrow> 'c go" where
  "scanFloat32Vectorized = scan_vectorized F32"

definition scanFloat64Vectorized :: "bytes \<Rightarrow> fl \<Rightarrow> fl \<Rightarrow> int \<Rightarrow> 'c collector \<Rightarrow> 'c \<Rightarrow> 'c go" where
  "scanFloat64Vectorized = scan_vectorized F64"

section \<open>The stream\<close>

partial_function (option) scan_rounded_loop ::
  "fmt \<Rightarrow> (nat \<Rightarrow> bool) \<Rightarrow> (nat \<Rightarrow> 'r \<Rightarrow> (int \<times> io_error option \<times> bytes) \<times> 'r) \<Rightarrow>
   (u64 \<Rightarrow> 'r \<Rightarrow> 'r option) option \<Rightarrow> Options option \<Rightarrow> fl \<Rightarrow> fl \<Rightarrow> 'c collector \<Rightarrow>
   nat \<Rightarrow> bytes \<Rightarrow> int \<Rightarrow> 'r \<Rightarrow> 'c \<Rightarrow> ('r \<times> 'c) go" where
  "scan_rounded_loop f ctx read seeker options lo hi collector k chunk offset r c =
     (if ctx k then Some (r, c)
      else do {
        (n, err, chunk, r) \<leftarrow> ReadFull read chunk r;
        let n = (if n < 0 then 0 else n);
        c \<leftarrow> (if int (width f) \<le> n then do {
                  let processable = go_div n (int (width f)) * int (width f);
                  data \<leftarrow> slice chunk 0 processable;
                  scan_vectorized f data lo hi offset collector c
                } else Some c);
        let offset = offset + n;
        if err \<noteq> None then
          (case tryAlignNextPage err options seeker offset r of
             Some (nextOffset, r) \<Rightarrow>
               scan_rounded_loop f ctx read seeker options lo hi collector (k + 1) chunk nextOffset r c
           | None \<Rightarrow> Some (r, c))
        else scan_rounded_loop f ctx read seeker options lo hi collector (k + 1) chunk offset r c
      })"

definition scan_rounded ::
  "fmt \<Rightarrow> (nat \<Rightarrow> bool) \<Rightarrow> (nat \<Rightarrow> 'r \<Rightarrow> (int \<times> io_error option \<times> bytes) \<times> 'r) \<Rightarrow>
   (u64 \<Rightarrow> 'r \<Rightarrow> 'r option) option \<Rightarrow> Options option \<Rightarrow> int \<Rightarrow> fl \<Rightarrow> fl \<Rightarrow> 'c collector \<Rightarrow>
   'r \<Rightarrow> 'c \<Rightarrow> ('r \<times> 'c) go" where
  "scan_rounded f ctx read seeker options bufSize lo hi collector r c =
     (if bufSize < 0 then None
      else scan_rounded_loop f ctx read seeker options lo hi collector 0 (replicate (nat bufSize) 0) 0 r c)"

definition scanFloat32Rounded where
  "scanFloat32Rounded = scan_rounded F32"

definition scanFloat64Rounded where
  "scanFloat64Rounded = scan_rounded F64"

section \<open>The vector loop is the simple loop\<close>

text \<open>The multiples of the width at which a float fits.\<close>

definition lanes :: "fmt \<Rightarrow> nat \<Rightarrow> nat \<Rightarrow> nat list" where
  "lanes f i n = map (\<lambda>k. i + k * width f) [0..<(n - i) div width f]"

lemma lanes_none:
  assumes "n < i + width f"
  shows "lanes f i n = []"
proof -
  have "n - i < width f" using assms width_pos [of f] by arith
  then show ?thesis by (simp add: lanes_def)
qed

lemma lanes_step:
  assumes "i + j * width f \<le> n"
  shows "lanes f i n = map (\<lambda>k. i + k * width f) [0..<j] @ lanes f (i + j * width f) n"
proof -
  define q where "q = (n - (i + j * width f)) div width f"
  have "n - i = (n - (i + j * width f)) + j * width f" using assms by simp
  then have "(n - i) div width f = j + q"
    using width_pos [of f] by (metis q_def add.commute div_mult_self1 less_not_refl)
  then have "lanes f i n = map (\<lambda>k. i + k * width f) [0..<j + q]"
    by (simp only: lanes_def)
  also have "[0..<j + q] = [0..<j] @ map (\<lambda>k. k + j) [0..<q]"
    by (simp only: upt_add_eq_append [OF le0] map_add_upt add.commute [of q j] add_0)
  also have "map (\<lambda>k. i + k * width f) \<dots> =
      map (\<lambda>k. i + k * width f) [0..<j] @ map (\<lambda>k. i + j * width f + k * width f) [0..<q]"
    by (simp add: algebra_simps)
  finally show ?thesis by (simp only: lanes_def q_def)
qed

lemma vector_tail_lanes:
  "vector_tail f data lo hi offset g i c = go_fold (lane f data lo hi offset g) (lanes f i (length data)) c"
proof (induction f data lo hi offset g i c rule: vector_tail.induct)
  case (1 f data lo hi offset g i c)
  show ?case
  proof (cases "i + width f \<le> length data")
    case True
    with 1 lanes_step [of i 1 f "length data"] show ?thesis
      by (subst vector_tail.simps) (auto intro!: Option.bind_cong)
  next
    case False
    then show ?thesis
      by (subst vector_tail.simps) (simp add: lanes_none)
  qed
qed

lemma vector_main_lanes:
  "vector_main f data lo hi offset g i c = go_fold (lane f data lo hi offset g) (lanes f i (length data)) c"
proof (induction f data lo hi offset g i c rule: vector_main.induct)
  case (1 f data lo hi offset g i c)
  show ?case
  proof (cases "i + 8 * width f \<le> length data")
    case True
    have "[0..<8] = [0, 1, 2, 3, 4, 5, 6, 7 :: nat]"
      by (simp add: upt_rec)
    with lanes_step [OF True]
    have l: "lanes f i (length data) =
        map (\<lambda>k. i + k * width f) [0, 1, 2, 3, 4, 5, 6, 7] @ lanes f (i + 8 * width f) (length data)"
      by simp
    have "go_fold (\<lambda>k. lane f data lo hi offset g (i + k * width f)) ks c' =
        go_fold (lane f data lo hi offset g) (map (\<lambda>k. i + k * width f) ks) c'" for ks c'
      by (induction ks arbitrary: c') (auto intro!: Option.bind_cong)
    with True 1 show ?thesis
      unfolding l go_fold_append by (subst vector_main.simps) (auto intro!: Option.bind_cong)
  next
    case False
    then show ?thesis
      by (subst vector_main.simps) (simp add: vector_tail_lanes)
  qed
qed

lemma scan_vectorized_lanes:
  "scan_vectorized f data lo hi offset g c = go_fold (lane f data lo hi offset g) (lanes f 0 (length data)) c"
  by (simp add: scan_vectorized_def vector_main_lanes lanes_none)

text \<open>
  C29: the vectorised scan of a buffer, eight loads per round and a tail, calls the collector like the plain loop
  over the multiples of the width: in ascending order, exactly at the floats in the interval.
\<close>

theorem vectorized_is_loop:
  "scanFloat32Vectorized data lo hi offset g c =
     go_fold (\<lambda>i c. if fle lo (float_at F32 (take 4 (drop i data))) \<and> flt (float_at F32 (take 4 (drop i data))) hi
                    then map_option snd (g (offset + int i) c) else Some c)
       (map (\<lambda>k. k * 4) [0..<length data div 4]) c \<and>
   scanFloat64Vectorized data lo hi offset g c =
     go_fold (\<lambda>i c. if fle lo (float_at F64 (take 8 (drop i data))) \<and> flt (float_at F64 (take 8 (drop i data))) hi
                    then map_option snd (g (offset + int i) c) else Some c)
       (map (\<lambda>k. k * 8) [0..<length data div 8]) c"
proof -
  have "lane f data lo hi offset g =
      (\<lambda>i c. if fle lo (float_at f (take (width f) (drop i data))) \<and> flt (float_at f (take (width f) (drop i data))) hi
             then map_option snd (g (offset + int i) c) else Some c)" for f
    by (intro ext) (simp add: lane_def Let_def)
  then show ?thesis
    by (simp add: scanFloat32Vectorized_def scanFloat64Vectorized_def scan_vectorized_lanes lanes_def width_def)
qed

section \<open>The whole stream\<close>

definition in_interval :: "fmt \<Rightarrow> fl \<Rightarrow> fl \<Rightarrow> bytes \<Rightarrow> bool" where
  "in_interval f lo hi b \<longleftrightarrow> fle lo (float_at f b) \<and> flt (float_at f b) hi"

text \<open>The positions of the floats in the interval, from a multiple of the width on.\<close>

definition float_hits :: "fmt \<Rightarrow> fl \<Rightarrow> fl \<Rightarrow> nat \<Rightarrow> bytes \<Rightarrow> nat list" where
  "float_hits f lo hi p xs = filter (\<lambda>i. in_interval f lo hi (take (width f) (drop i xs))) (lanes f p (length xs))"

definition feed_all :: "'c collector \<Rightarrow> nat list \<Rightarrow> 'c \<Rightarrow> 'c go" where
  "feed_all g = go_fold (\<lambda>p c. map_option snd (g (int p) c))"

lemma feed_all_append: "feed_all g (xs @ ys) c = do { c \<leftarrow> feed_all g xs c; feed_all g ys c }"
  by (simp add: feed_all_def go_fold_append)

lemma go_fold_lane:
  assumes "\<forall>i \<in> set is. i + width f \<le> n"
  shows "go_fold (lane f (take n (drop p xs)) lo hi (int p) g) is c =
    feed_all g (filter (\<lambda>i. in_interval f lo hi (take (width f) (drop i xs))) (map ((+) p) is)) c"
  using assms
proof (induction "is" arbitrary: c)
  case (Cons i is')
  have "i + width f \<le> n" using Cons.prems by simp
  then have "width f \<le> n - i" by arith
  then have "take (width f) (drop i (take n (drop p xs))) = take (width f) (drop (p + i) xs)"
    by (simp add: drop_take add.commute min_def)
  then have "lane f (take n (drop p xs)) lo hi (int p) g i c =
      (if in_interval f lo hi (take (width f) (drop (p + i) xs)) then map_option snd (g (int (p + i)) c) else Some c)" for c
    by (simp add: lane_def in_interval_def Let_def)
  with Cons show ?case
    by (auto simp: feed_all_def intro!: Option.bind_cong)
qed (simp add: feed_all_def)

lemma lanes_bound: "i \<in> set (lanes f 0 n) \<Longrightarrow> i + width f \<le> n"
proof -
  assume "i \<in> set (lanes f 0 n)"
  then obtain k where "k \<in> set [0..<(n - 0) div width f]" "i = 0 + k * width f"
    unfolding lanes_def set_map by (elim imageE)
  then have k: "i = k * width f" "k < n div width f" by simp_all
  from Suc_leI [OF k(2)] have "Suc k * width f \<le> n"
    by (simp only: less_eq_div_iff_mult_less_eq [OF width_pos])
  with k(1) show ?thesis by simp
qed

lemma lanes_shift: "map ((+) p) (lanes f 0 n) = lanes f p (p + n)"
  by (simp add: lanes_def comp_def)

lemma lanes_sorted: "sorted_wrt (<) (lanes f i n)"
  using width_pos [of f] by (simp add: lanes_def sorted_wrt_map sorted_wrt_iff_nth_less)

lemma lanes_whole: "lanes f 0 (n div width f * width f) = lanes f 0 n"
  by (simp add: lanes_def)

text \<open>One buffer of the stream, cut down to whole floats.\<close>

lemma scan_buffer:
  assumes "length chunk = B" "m \<le> B" "take m chunk = take m (drop p xs)" "p + m \<le> length xs"
  shows "(if int (width f) \<le> int m then do {
      data \<leftarrow> slice chunk 0 (go_div (int m) (int (width f)) * int (width f));
      scan_vectorized f data lo hi (int p) g c } else Some c) =
    feed_all g (filter (\<lambda>i. in_interval f lo hi (take (width f) (drop i xs))) (lanes f p (p + m))) c"
proof (cases "width f \<le> m")
  case True
  define n where "n = m div width f * width f"
  have n: "n \<le> m" by (simp add: n_def)
  have "go_div (int m) (int (width f)) * int (width f) = int n"
    by (simp add: go_div_nonneg n_def zdiv_int)
  moreover have "slice chunk 0 (int n) = Some (take n chunk)"
    using n assms(1,2) by simp
  moreover have "take n chunk = take n (drop p xs)"
    using n assms(3) by (metis min.absorb1 take_take)
  moreover have "lanes f 0 (length (take n (drop p xs))) = lanes f 0 n"
  proof -
    have "n \<le> length xs - p" using n assms(4) by arith
    then show ?thesis by (simp add: min_def)
  qed
  moreover have "go_fold (lane f (take n (drop p xs)) lo hi (int p) g) (lanes f 0 n) c =
      feed_all g (filter (\<lambda>i. in_interval f lo hi (take (width f) (drop i xs))) (lanes f p (p + m))) c"
    using go_fold_lane [of "lanes f 0 n" f n p xs] lanes_bound [of _ f n]
    by (simp add: lanes_shift [symmetric] n_def lanes_whole)
  ultimately show ?thesis
    using True by (simp add: scan_vectorized_lanes)
next
  case False
  then show ?thesis by (simp add: lanes_none feed_all_def)
qed

text \<open>One iteration, its read given.\<close>

lemma scan_rounded_step:
  assumes "\<not> ctx k" "ReadFull read chunk r = Some (n, err, chunk', r')" "m = (if n < 0 then 0 else n)"
    and "(if int (width f) \<le> m then do {
            data \<leftarrow> slice chunk' 0 (go_div m (int (width f)) * int (width f));
            scan_vectorized f data lo hi offset g c } else Some c) = found"
  shows "scan_rounded_loop f ctx read seeker options lo hi g k chunk offset r c = do {
      c \<leftarrow> found;
      if err \<noteq> None then
        (case tryAlignNextPage err options seeker (offset + m) r' of
           Some (nextOffset, r) \<Rightarrow>
             scan_rounded_loop f ctx read seeker options lo hi g (k + 1) chunk' nextOffset r c
         | None \<Rightarrow> Some (r', c))
      else scan_rounded_loop f ctx read seeker options lo hi g (k + 1) chunk' (offset + m) r' c }"
  unfolding assms(4) [symmetric] assms(3)
  by (subst scan_rounded_loop.simps) (simp only: assms(1,2) Let_def if_False bind.bind_lunit prod.case)

context full_reader
begin

lemma scan_rounded_full:
  assumes "no_page_after options seeker" "ok r" "pos r mod width f = 0" "length chunk = B" "0 < B"
    "B mod width f = 0" "B < 2 ^ 63"
  shows "map_option snd (scan_rounded_loop f (\<lambda>_. False) read seeker options lo hi g k chunk (int (pos r)) r c) =
    feed_all g (float_hits f lo hi (pos r) stream) c"
  using assms(2-4)
proof (induction "total - pos r" arbitrary: k chunk r c rule: less_induct)
  case less
  define p where "p = pos r"
  define m where "m = min B (total - p)"
  from ReadFull_full [OF less.prems(1), of chunk m] less.prems(3) assms(7) obtain err chunk' r'
    where rd: "ReadFull read chunk r = Some (int m, err, chunk', r')" "ok r'" "pos r' = p + m" "length chunk' = B"
      "take m chunk' = take m (rest r)" "err = None \<longleftrightarrow> m = B" "\<forall>e. err \<noteq> Some (Errno e)"
    by (auto simp: m_def p_def)
  have "p \<le> total" using pos_total [OF less.prems(1)] by (simp add: p_def)
  then have m: "m \<le> B" "p + m \<le> total" "m < B \<Longrightarrow> p + m = total"
    by (auto simp: m_def)
  define found where "found = filter (\<lambda>i. in_interval f lo hi (take (width f) (drop i stream))) (lanes f p (p + m))"
  note buf = scan_buffer [OF rd(4) m(1), of p stream f lo hi g c, folded found_def]
  have bw: "int m = (if int m < 0 then 0 else int m)" by simp
  define loop where "loop = scan_rounded_loop f (\<lambda>_. False) read seeker options lo hi g"
  have "(if int (width f) \<le> int m then do {
      data \<leftarrow> slice chunk' 0 (go_div (int m) (int (width f)) * int (width f));
      scan_vectorized f data lo hi (int p) g c } else Some c) = feed_all g found c"
    using buf m(2) rd(5) by (simp add: rest_stream p_def)
  from scan_rounded_step [where ctx = "\<lambda>_. False" and k = k and seeker = seeker and options = options, OF _ rd(1) bw this, folded loop_def of_nat_add]
  have step: "loop k chunk (int p) r c = do {
      c \<leftarrow> feed_all g found c;
      if err \<noteq> None then
        (case tryAlignNextPage err options seeker (int (p + m)) r' of
           Some (nextOffset, r) \<Rightarrow> loop (k + 1) chunk' nextOffset r c
         | None \<Rightarrow> Some (r', c))
      else loop (k + 1) chunk' (int (p + m)) r' c }"
    by simp
  have "map_option snd (loop k chunk (int p) r c) = feed_all g (float_hits f lo hi p stream) c"
  proof (cases "m = B")
    case True
    define j where "j = B div width f"
    have B: "j * width f = B" using assms(6) by (simp add: j_def mult.commute[of _ "width f"] minus_mod_eq_mult_div [symmetric])
    have "lanes f p total = lanes f p (p + m) @ lanes f (p + m) total"
      using lanes_step [of p j f total] lanes_step [of p j f "p + m"] m(2) True
      by (simp add: B lanes_none)
    then have hits: "float_hits f lo hi p stream = found @ float_hits f lo hi (p + m) stream"
      by (simp add: float_hits_def found_def)
    have "map_option snd (loop (k + 1) chunk' (int (p + m)) r' c') =
        feed_all g (float_hits f lo hi (p + m) stream) c'" for c'
    proof -
      have "total - pos r' < total - pos r"
        using True m(2) assms(5) rd(3) by (simp add: p_def)
      moreover have "pos r' mod width f = 0"
        using less.prems(2) assms(6) rd(3) True by (metis mod_add_eq add_0 mod_0 p_def)
      ultimately show ?thesis
        using less.hyps [of r' chunk' "k + 1" c'] rd(2,3,4) by (simp add: loop_def)
    qed
    with step True rd(6) show ?thesis
      by (cases "feed_all g found c") (simp_all add: hits feed_all_append)
  next
    case False
    with m have e: "p + m = total" by simp
    then have "float_hits f lo hi p stream = found"
      by (simp add: float_hits_def found_def)
    moreover have "tryAlignNextPage err options seeker (int (p + m)) r' = None"
      using assms(1) rd(7) by (simp add: no_page_after_def e)
    ultimately show ?thesis
      using step False rd(6) by (cases "feed_all g found c") auto
  qed
  then show ?case by (simp add: loop_def p_def)
qed

end

section \<open>Any reader\<close>

lemma go_fold_safe:
  assumes mono: "\<And>k k' c. J k c \<Longrightarrow> k \<le> k' \<Longrightarrow> J k' c"
    and "\<And>k x c. x \<in> set xs \<Longrightarrow> k \<le> x \<Longrightarrow> J k c \<Longrightarrow> \<exists>c'. h x c = Some c' \<and> J (Suc x) c'"
    and "J k c" "sorted_wrt (<) xs" "\<forall>x \<in> set xs. k \<le> x \<and> x < n" "k \<le> n"
  shows "\<exists>c'. go_fold h xs c = Some c' \<and> J n c'"
  using assms(2-)
proof (induction xs arbitrary: k c)
  case Nil
  with mono [of k c n] show ?case by simp
next
  case (Cons x xs)
  from Cons.prems(1) [of x k c] Cons.prems(2,4) obtain c1 where c1: "h x c = Some c1" "J (Suc x) c1" by auto
  have "\<exists>c'. go_fold h xs c1 = Some c' \<and> J n c'"
  proof (rule Cons.IH [OF _ c1(2)])
    show "\<exists>c'. h y c = Some c' \<and> J (Suc y) c'" if "y \<in> set xs" "j \<le> y" "J j c" for j y c
      using Cons.prems(1) [of y j c] that by simp
  qed (use Cons.prems(3,4) in \<open>auto simp: Suc_le_eq\<close>)
  with c1(1) show ?case by simp
qed

context seek_reader
begin

text \<open>The bytes at a position, when all of them can be read.\<close>

definition bytes_at :: "nat \<Rightarrow> bytes \<Rightarrow> bool" where
  "bytes_at p b \<longleftrightarrow> (\<forall>i < length b. byte_at (p + i) = Some (b ! i))"

lemma scan_buffer_safe:
  assumes "length chunk = B" "m \<le> B" "\<forall>i < m. byte_at (p + i) = Some (chunk ! i)" "J p c" "p mod width f = 0"
    and "p + m \<le> total" and mono: "\<And>k k' c. J k c \<Longrightarrow> k \<le> k' \<Longrightarrow> J k' c"
    and step: "\<And>k q b c. J k c \<Longrightarrow> k \<le> q \<Longrightarrow> q + width f \<le> total \<Longrightarrow> length b = width f \<Longrightarrow> bytes_at q b \<Longrightarrow>
      in_interval f lo hi b \<Longrightarrow> q mod width f = 0 \<Longrightarrow> \<exists>continue c'. g (int q) c = Some (continue, c') \<and> J (Suc q) c'"
  shows "\<exists>c'. (if int (width f) \<le> int m then do {
      data \<leftarrow> slice chunk 0 (go_div (int m) (int (width f)) * int (width f));
      scan_vectorized f data lo hi (int p) g c } else Some c) = Some c' \<and> J (p + m) c'"
proof -
  define xs where "xs = replicate p 0 @ take m chunk"
  have "(if int (width f) \<le> int m then do {
      data \<leftarrow> slice chunk 0 (go_div (int m) (int (width f)) * int (width f));
      scan_vectorized f data lo hi (int p) g c } else Some c) =
    feed_all g (filter (\<lambda>i. in_interval f lo hi (take (width f) (drop i xs))) (lanes f p (p + m))) c"
    using assms(1,2) by (intro scan_buffer) (simp_all add: xs_def)
  moreover have "\<exists>c'. feed_all g (filter (\<lambda>i. in_interval f lo hi (take (width f) (drop i xs))) (lanes f p (p + m))) c =
      Some c' \<and> J (p + m) c'"
    unfolding feed_all_def
  proof (rule go_fold_safe [where J = J, OF _ _ assms(4)])
    fix k q c assume q: "q \<in> set (filter (\<lambda>i. in_interval f lo hi (take (width f) (drop i xs))) (lanes f p (p + m)))" "k \<le> q" "J k c"
    define b where "b = take (width f) (drop q xs)"
    have "q \<in> set (map ((+) p) (lanes f 0 m))"
      using q(1) by (simp add: lanes_shift)
    then obtain i where i: "i \<in> set (lanes f 0 m)" "q = p + i" by auto
    note bound = lanes_bound [OF i(1)]
    have "i mod width f = 0" using i(1) by (auto simp: lanes_def)
    with assms(5) i(2) have "q mod width f = 0" by (metis add_0 mod_0 mod_add_eq)
    moreover have b: "b = take (width f) (drop i (take m chunk))"
      by (simp add: b_def xs_def i(2))
    then have "length b = width f"
      using bound assms(1,2) by simp
    moreover have "bytes_at q b"
      unfolding bytes_at_def
    proof (intro allI impI)
      fix j assume "j < length b"
      with b bound assms(1,2) have "b ! j = chunk ! (i + j)" "i + j < m" by simp_all
      with assms(3) show "byte_at (q + j) = Some (b ! j)" by (simp add: i(2) add.assoc)
    qed
    moreover have "q + width f \<le> total" using bound i(2) assms(6) by simp
    ultimately show "\<exists>c'. map_option snd (g (int q) c) = Some c' \<and> J (Suc q) c'"
      using step [OF q(3,2), of b] q(1) by (auto simp: b_def)
  next
    show "sorted_wrt (<) (filter (\<lambda>i. in_interval f lo hi (take (width f) (drop i xs))) (lanes f p (p + m)))"
      by (intro sorted_wrt_filter lanes_sorted)
    show "\<forall>q \<in> set (filter (\<lambda>i. in_interval f lo hi (take (width f) (drop i xs))) (lanes f p (p + m))). p \<le> q \<and> q < p + m"
    proof
      fix q assume "q \<in> set (filter (\<lambda>i. in_interval f lo hi (take (width f) (drop i xs))) (lanes f p (p + m)))"
      then have "q \<in> set (map ((+) p) (lanes f 0 m))" by (simp add: lanes_shift)
      then obtain i where i: "i \<in> set (lanes f 0 m)" "q = p + i" by auto
      from lanes_bound [OF i(1)] i(2) width_pos [of f] show "p \<le> q \<and> q < p + m" by linarith
    qed
    show "p \<le> p + m" by simp
  qed (rule mono; assumption)
  ultimately show ?thesis by simp
qed

lemma scan_rounded_safe:
  assumes "total < 2 ^ 62" "\<And>opts. options = Some opts \<Longrightarrow> unat (ExpectedSize opts) \<le> total"
    and step: "\<And>k q b c. J k c \<Longrightarrow> k \<le> q \<Longrightarrow> q + width f \<le> total \<Longrightarrow> length b = width f \<Longrightarrow> bytes_at q b \<Longrightarrow>
      in_interval f lo hi b \<Longrightarrow> q mod width f = 0 \<Longrightarrow> \<exists>continue c'. g (int q) c = Some (continue, c') \<and> J (Suc q) c'"
    and "0 < B" "B mod width f = 0" "B < 2 ^ 62" and mono: "\<And>k k' c. J k c \<Longrightarrow> k \<le> k' \<Longrightarrow> J k' c"
    and "ok r" "pos r mod width f = 0" "length chunk = B" "J (pos r) c"
  shows "\<exists>r' c' k'. scan_rounded_loop f ctx read (Some seek) options lo hi g k chunk (int (pos r)) r c = Some (r', c') \<and>
    ok r' \<and> J k' c'"
  using assms(8-)
proof (induction "total - pos r" arbitrary: k chunk r c rule: less_induct)
  case less
  define p where "p = pos r"
  from ReadFull_reads [OF less.prems(1), of chunk] less.prems(3) assms(6) obtain n err chunk' r'
    where rd: "ReadFull read chunk r = Some (n, err, chunk', r')" "n \<le> int B" "length chunk' = B" "ok r'"
      "\<forall>i. int i < n \<longrightarrow> byte_at (p + i) = Some (chunk' ! i)" "err = None \<longleftrightarrow> n = int B"
      "err = None \<longrightarrow> pos r' = p + B" "int p + n \<le> int (pos r')"
    by (auto simp: p_def)
  define m where "m = nat n"
  have m: "int m = (if n < 0 then 0 else n)" "m \<le> B" "\<forall>i < m. byte_at (p + i) = Some (chunk' ! i)"
    using rd(2,5) by (auto simp: m_def)
  have mod: "p mod width f = 0" "J p c" using less.prems(2,4) by (simp_all add: p_def)
  have end': "p + m \<le> total"
    using pos_total [OF less.prems(1)] pos_total [OF rd(4)] rd(8) by (simp add: m_def p_def)
  have "\<exists>c1. (if int (width f) \<le> int m then do {
      data \<leftarrow> slice chunk' 0 (go_div (int m) (int (width f)) * int (width f));
      scan_vectorized f data lo hi (int p) g c } else Some c) = Some c1 \<and> J (p + m) c1"
    by (rule scan_buffer_safe [where J = J, OF rd(3) m(2,3) mod(2,1) end']) (rule mono step; assumption)+
  then obtain c1
    where found: "(if int (width f) \<le> int m then do {
      data \<leftarrow> slice chunk' 0 (go_div (int m) (int (width f)) * int (width f));
      scan_vectorized f data lo hi (int p) g c } else Some c) = Some c1" "J (p + m) c1"
    by (elim exE conjE)
  define loop where "loop = scan_rounded_loop f ctx read (Some seek) options lo hi g"
  show ?case
  proof (cases "ctx k")
    case True
    with less.prems show ?thesis by (subst scan_rounded_loop.simps) auto
  next
    case False
    from scan_rounded_step [where ctx = ctx and k = k and seeker = "Some seek" and options = options,
        OF False rd(1) m(1) found(1), folded loop_def]
    have unfold: "loop k chunk (int p) r c =
      (if err \<noteq> None then
         (case tryAlignNextPage err options (Some seek) (int (p + m)) r' of
            Some (nextOffset, r) \<Rightarrow> loop (k + 1) chunk' nextOffset r c1
          | None \<Rightarrow> Some (r', c1))
       else loop (k + 1) chunk' (int (p + m)) r' c1)"
      by simp
    show ?thesis
    proof (cases "err = None")
      case True
      with rd(6,7) have B: "pos r' = p + B" "m = B" by (simp_all add: m_def)
      have "total - pos r' < total - pos r"
        using pos_total [OF rd(4)] B assms(4) by (simp add: p_def)
      moreover have "pos r' mod width f = 0"
        using less.prems(2) assms(5) B(1) by (metis mod_add_eq add_0 mod_0 p_def)
      ultimately show ?thesis
        using less.hyps [of r' chunk' c1 "k + 1"] rd(3,4) found(2) unfold True B
        by (simp add: loop_def p_def)
    next
      case err: False
      show ?thesis
      proof (cases "tryAlignNextPage err options (Some seek) (int (p + m)) r'")
        case None
        with unfold err rd(4) found(2) show ?thesis by (auto simp: loop_def p_def)
      next
        case (Some a)
        have "p + m < 2 ^ 63"
          using pos_total [OF less.prems(1)] assms(1,6) m(2) by (simp add: p_def)
        with tryAlign_next [of err options "p + m" r' _ _, OF _ rd(4) _ assms(1,2)] Some obtain q
          where q: "fst a = int q" "ok (snd a)" "pos (snd a) = q" "p + m < q" "q < total" "q mod 4096 = 0"
          by (cases a) auto
        have "width f dvd 4096" by (cases f) (simp_all add: width_def)
        with q(6) have "q mod width f = 0" by (metis dvd_trans mod_eq_0_iff_dvd)
        moreover have "total - pos (snd a) < total - pos r"
          using q(3-5) by (simp add: p_def)
        ultimately show ?thesis
          using less.hyps [of "snd a" chunk' c1 "k + 1"] q(1-3) rd(3) mono [OF found(2), of q] q(4) unfold err Some
          by (cases a) (simp add: loop_def p_def)
      qed
    qed
  qed
qed

end

end
