(* ===== verification/Scan_Collector.thy ===== *)
theory Scan_Collector
  imports Scan_Float
begin

text \<open>
  The scan of a reader as the program starts it (\<^verbatim>\<open>Scanner.ScanCollector\<close>): which of the three scans runs is decided
  by the value's option, but all three find the same thing, the aligned positions that the value's
  \<open>ValueComparable\<close> accepts. First for a reader over readable memory, then for any reader that keeps the
  contract of \<open>seek_reader\<close>, and then for the reader of a process's region.
\<close>

text \<open>\<open>ScanCollector\<close>: the scan the value's option asks for. Closing the reader afterwards only recycles it.\<close>

definition ScanCollector ::
  "(nat \<Rightarrow> bool) \<Rightarrow> (nat \<Rightarrow> 'r \<Rightarrow> (int \<times> io_error option \<times> bytes) \<times> 'r) \<Rightarrow>
   (u64 \<Rightarrow> 'r \<Rightarrow> 'r option) option \<Rightarrow> Options option \<Rightarrow> Scanner \<Rightarrow> 'c collector option \<Rightarrow> 'r \<Rightarrow> 'c \<Rightarrow>
   ('r \<times> 'c) go" where
  "ScanCollector ctx read seeker options s collector r c =
     (case collector of
        None \<Rightarrow> Some (r, c)
      | Some collector \<Rightarrow>
          (case (sc_rf32 s, sc_rf64 s) of
             (Some rf, _) \<Rightarrow>
               scanFloat32Rounded ctx read seeker options (sc_bufSize s) (rf32_min rf) (rf32_max rf) collector r c
           | (None, Some rf) \<Rightarrow>
               scanFloat64Rounded ctx read seeker options (sc_bufSize s) (rf64_min rf) (rf64_max rf) collector r c
           | (None, None) \<Rightarrow> scanBytes ctx read seeker options s collector r c))"

section \<open>What a scan is to find\<close>

text \<open>The aligned positions of a stream at which a comparable matches.\<close>

definition matching :: "ValueComparable \<Rightarrow> bytes \<Rightarrow> nat list" where
  "matching c xs =
     filter (\<lambda>p. p mod comp_Size c = 0 \<and> comp_EqualBytes c (take (comp_Size c) (drop p xs)) = Some True)
       [0..<length xs + 1 - comp_Size c]"

text \<open>
  A collector that may stop the scan, but only in a state in which it takes no notice of anything more:
  then it does not matter that the byte scan heeds its answer and the float scans do not.
\<close>

definition idle_after :: "'c collector \<Rightarrow> ('c \<Rightarrow> bool) \<Rightarrow> bool" where
  "idle_after g idle \<longleftrightarrow>
     (\<forall>i c c'. g i c = Some (False, c') \<longrightarrow> idle c') \<and> (\<forall>i c. idle c \<longrightarrow> map_option snd (g i c) = Some c)"

definition collect :: "'c collector \<Rightarrow> int \<Rightarrow> 'c \<Rightarrow> 'c go" where
  "collect g i c = map_option snd (g i c)"

lemma collect_idle:
  assumes "idle_after g idle" "idle c"
  shows "go_fold (collect g) xs c = Some c"
proof (induction xs)
  case (Cons x xs)
  have "collect g x c = Some c" using assms by (simp add: idle_after_def collect_def)
  with Cons show ?case by simp
qed simp

lemma feed_collect: "idle_after g idle \<Longrightarrow> map_option snd (feed g xs c) = go_fold (collect g) xs c"
proof (induction xs arbitrary: c)
  case (Cons x xs)
  show ?case
  proof (cases "g x c")
    case (Some a)
    obtain continue c1 where a: "a = (continue, c1)" by (cases a)
    show ?thesis
    proof (cases continue)
      case True
      with Cons Some a show ?thesis by (simp add: collect_def)
    next
      case False
      with Cons.prems Some a have "idle c1" by (auto simp: idle_after_def)
      with False Cons.prems Some a show ?thesis
        by (simp add: collect_def [of g x] collect_idle)
    qed
  qed (simp add: collect_def)
qed simp

lemma feed_all_collect: "feed_all g xs c = go_fold (collect g) (map int xs) c"
  by (induction xs arbitrary: c) (auto simp: feed_all_def collect_def intro!: Option.bind_cong)

text \<open>A collector that never stops the scan.\<close>

definition steady :: "(int \<Rightarrow> 'c \<Rightarrow> 'c go) \<Rightarrow> 'c collector" where
  "steady h i c = map_option (Pair True) (h i c)"

lemma steady_idle: "idle_after (steady h) (\<lambda>_. False)"
  by (auto simp: idle_after_def steady_def)

lemma collect_steady: "collect (steady h) = h"
  by (simp add: fun_eq_iff collect_def steady_def option.map_comp comp_def option.map_ident)

lemma aligned_hits_matching:
  assumes "wf_value v"
  shows "aligned_hits 0 (v_data v) 0 xs (length xs + 1 - length (v_data v)) = matching (CmpValue v) xs"
  using assms
  by (auto simp: aligned_hits_def matching_def wf_value_Size occurs_def Value_EqualBytes_def intro!: filter_cong)

lemma multiples_filter:
  assumes "0 < w"
  shows "map (\<lambda>k. k * w) [0..<n div w] = filter (\<lambda>p. p mod w = 0) [0..<n + 1 - w]"
proof (rule strict_sorted_equal)
  show "sorted_wrt (<) (map (\<lambda>k. k * w) [0..<n div w])"
    using assms by (simp add: sorted_wrt_map sorted_wrt_iff_nth_less)
  show "sorted_wrt (<) (filter (\<lambda>p. p mod w = 0) [0..<n + 1 - w])"
    by (intro sorted_wrt_filter) simp
  have in_range: "k < n div w \<longleftrightarrow> k * w < n + 1 - w" for k
    using less_eq_div_iff_mult_less_eq [OF assms, of "Suc k" n] assms by auto
  have "set (filter (\<lambda>p. p mod w = 0) [0..<n + 1 - w]) = set (map (\<lambda>k. k * w) [0..<n div w])"
  proof (intro equalityI subsetI)
    fix p assume p: "p \<in> set (filter (\<lambda>p. p mod w = 0) [0..<n + 1 - w])"
    then have e: "p div w * w = p" by auto
    from p in_range [of "p div w"] have "p div w < n div w" unfolding e by simp
    with e show "p \<in> set (map (\<lambda>k. k * w) [0..<n div w])"
      by (auto intro!: image_eqI [of _ _ "p div w"])
  next
    fix p assume "p \<in> set (map (\<lambda>k. k * w) [0..<n div w])"
    then obtain k where k: "p = k * w" "k < n div w" by (metis atLeastLessThan_iff image_iff set_map set_upt)
    have "p < n + 1 - w" unfolding k(1) by (rule in_range [THEN iffD1, OF k(2)])
    then show "p \<in> set (filter (\<lambda>p. p mod w = 0) [0..<n + 1 - w])" by (simp add: k(1))
  qed
  then show "set (map (\<lambda>k. k * w) [0..<n div w]) = set (filter (\<lambda>p. p mod w = 0) [0..<n + 1 - w])"
    by (rule sym)
qed

lemma float_hits_matching:
  assumes "comp_Size cmp = width f"
    and "\<And>b. length b = width f \<Longrightarrow> comp_EqualBytes cmp b = Some (in_interval f lo hi b)"
  shows "float_hits f lo hi 0 xs = matching cmp xs"
proof -
  have "lanes f 0 (length xs) = filter (\<lambda>p. p mod width f = 0) [0..<length xs + 1 - width f]"
    using multiples_filter [OF width_pos, of f "length xs"] by (simp add: lanes_def)
  then show ?thesis
    using assms width_pos [of f]
    by (auto simp: float_hits_def matching_def intro!: filter_cong)
qed

section \<open>The scanner of a value\<close>

lemma float_buffer:
  assumes "0 < step" "0 \<le> b" "int w dvd step" "n = (if b < step then step else round_size step b)"
  shows "\<exists>B. n = int B \<and> 0 < B \<and> B mod w = 0 \<and> n < max b step + step"
proof -
  from round_size_bounds [OF assms(1,2)] have n: "0 < n" "n mod step = 0" "n < max b step + step"
    using assms(1,4) by (auto split: if_splits)
  from n(2) assms(3) have "int w dvd n" by (meson dvd_trans mod_0_imp_dvd)
  moreover obtain B where "n = int B" using n(1) by (metis zero_le_imp_eq_int less_imp_le)
  ultimately show ?thesis using n(1,3) by auto
qed

text \<open>
  What the scan of a float with an option does: the loop over an interval that is also the test of its
  \<open>ValueComparable\<close>, with a buffer of whole floats.
\<close>

definition scans_interval :: "fmt \<Rightarrow> Scanner \<Rightarrow> ValueComparable \<Rightarrow> nat \<Rightarrow> fl \<Rightarrow> fl \<Rightarrow> bool" where
  "scans_interval f s cmp B lo hi \<longleftrightarrow>
     comp_Size cmp = width f \<and> (\<forall>b. length b = width f \<longrightarrow> comp_EqualBytes cmp b = Some (in_interval f lo hi b)) \<and>
     0 < B \<and> B mod width f = 0 \<and> sc_bufSize s = int B \<and>
     (case f of F32 \<Rightarrow> \<exists>rf. sc_rf32 s = Some rf \<and> rf32_min rf = lo \<and> rf32_max rf = hi
      | F64 \<Rightarrow> sc_rf32 s = None \<and> (\<exists>rf. sc_rf64 s = Some rf \<and> rf64_min rf = lo \<and> rf64_max rf = hi))"

lemma ScanCollector_interval:
  assumes "scans_interval f s cmp B lo hi"
  shows "ScanCollector ctx read seeker options s (Some g) r c =
    scan_rounded_loop f ctx read seeker options lo hi g 0 (replicate B 0) 0 r c"
  using assms
  by (cases f) (auto simp: scans_interval_def ScanCollector_def scanFloat32Rounded_def scanFloat64Rounded_def
      scan_rounded_def)

lemma NewScannerBuffer_float:
  assumes "wf_value v" "v_typ v = float_type f" "HasOption v"
  shows "\<exists>s lo hi cmp B. NewScannerBuffer v bufSize = Some s \<and> Value_Comparable v = Some cmp \<and>
    scans_interval f s cmp B lo hi \<and> int B < max bufSize 64 + 64"
proof (cases f)
  case F32
  define b where "b = (if bufSize < 4 then 5 else bufSize)"
  have "0 \<le> b" "b \<le> max bufSize 64" by (auto simp: b_def)
  with float_buffer [OF _ _ _ refl, of 32 b 4] obtain B
    where B: "(if b < 32 then 32 else round_size 32 b) = int B" "0 < B" "B mod 4 = 0" "int B < max bufSize 64 + 64"
    by auto
  from assms F32 obtain rf where rf: "newRoundedFloat32 v = Some rf"
    by (cases "rf32_bounds (v_option v) (Float32frombits (le_word (v_data v)))") (auto simp: newRoundedFloat32_def ToRaw_def Uint_def wf_value_def float_type_def ByteSize_simps)
  have "rf32_EqualBytes rf x = Some (in_interval F32 (rf32_min rf) (rf32_max rf) x)" if "length x = 4" for x
    using that by (simp add: rf32_EqualBytes_def Uint_def in_interval_def float_at_def Let_def)
  then have "scans_interval F32 \<lparr>sc_value = v, sc_bufSize = int B, sc_rf32 = Some rf, sc_rf64 = None\<rparr>
      (CmpRounded32 rf) B (rf32_min rf) (rf32_max rf)"
    using B by (simp add: scans_interval_def width_def)
  moreover have "NewScannerBuffer v bufSize =
      Some \<lparr>sc_value = v, sc_bufSize = int B, sc_rf32 = Some rf, sc_rf64 = None\<rparr>"
    using rf assms F32 by (simp add: NewScannerBuffer_def Value_Size_def float_type_def ByteSize_simps b_def
        flip: B(1))
  moreover have "Value_Comparable v = Some (CmpRounded32 rf)"
    using rf assms F32 by (simp add: Value_Comparable_def float_type_def)
  ultimately show ?thesis
    using B(4) F32 by blast
next
  case F64
  define b where "b = (if bufSize < 8 then 9 else bufSize)"
  have "0 \<le> b" "b \<le> max bufSize 64" by (auto simp: b_def)
  with float_buffer [OF _ _ _ refl, of 64 b 8] obtain B
    where B: "(if b < 64 then 64 else round_size 64 b) = int B" "0 < B" "B mod 8 = 0" "int B < max bufSize 64 + 64"
    by auto
  from assms F64 obtain rf where rf: "newRoundedFloat64 v = Some rf"
    by (cases "rf64_bounds (v_option v) (Float64frombits (le_word (v_data v)))") (auto simp: newRoundedFloat64_def ToRaw_def Uint_def wf_value_def float_type_def ByteSize_simps)
  have "rf64_EqualBytes rf x = Some (in_interval F64 (rf64_min rf) (rf64_max rf) x)" if "length x = 8" for x
    using that by (simp add: rf64_EqualBytes_def Uint_def in_interval_def float_at_def Let_def)
  then have "scans_interval F64 \<lparr>sc_value = v, sc_bufSize = int B, sc_rf32 = None, sc_rf64 = Some rf\<rparr>
      (CmpRounded64 rf) B (rf64_min rf) (rf64_max rf)"
    using B by (simp add: scans_interval_def width_def)
  moreover have "NewScannerBuffer v bufSize =
      Some \<lparr>sc_value = v, sc_bufSize = int B, sc_rf32 = None, sc_rf64 = Some rf\<rparr>"
    using rf assms F64 by (simp add: NewScannerBuffer_def Value_Size_def float_type_def ByteSize_simps b_def
        flip: B(1))
  moreover have "Value_Comparable v = Some (CmpRounded64 rf)"
    using rf assms F64 by (simp add: Value_Comparable_def float_type_def)
  ultimately show ?thesis
    using B(4) F64 by blast
qed

lemma HasOption_float: "HasOption v \<Longrightarrow> \<exists>f. v_typ v = float_type f"
  by (auto simp: HasOption_def is_float_type_def float_type_def split: if_splits intro: exI [of _ F32] exI [of _ F64])

lemma NewScannerBuffer_fit:
  assumes "wf_value v" "v_data v \<noteq> []" "\<not> HasOption v" "bufSize < 2 ^ 61" "length (v_data v) < 2 ^ 61"
  shows "\<exists>s B. NewScannerBuffer v bufSize = Some s \<and> Value_Comparable v = Some (CmpValue v) \<and> sc_value s = v \<and>
    fit_scanner s B \<and>
    (\<forall>ctx read seeker options g r c. ScanCollector ctx read seeker options s (Some g) r c =
       scanBytes ctx read seeker options s g r c)"
proof -
  from NewScannerBuffer_plain [OF assms(3), of bufSize] obtain s where s:
    "NewScannerBuffer v bufSize = Some s" "sc_value s = v" "sc_rf32 s = None" "sc_rf64 s = None"
    "int (Value_Size v) \<le> sc_bufSize s" "sc_bufSize s < max bufSize (int (Value_Size v)) + 5"
    by blast
  have "fit_scanner s (nat (sc_bufSize s))"
    using s(2,5,6) assms(1,2,4,5) by (auto simp: fit_scanner_def wf_value_Size)
  moreover have "Value_Comparable v = Some (CmpValue v)"
    using assms(3) by (simp add: Value_Comparable_def)
  ultimately show ?thesis
    using s(1-4) by (auto simp: ScanCollector_def)
qed

lemma HasOption_nonempty: "wf_value v \<Longrightarrow> HasOption v \<Longrightarrow> v_data v \<noteq> []"
  by (auto simp: wf_value_def HasOption_def is_float_type_def ByteSize_simps split: if_splits)

section \<open>Readers over readable memory\<close>

context full_reader
begin

lemma ScanCollector_full:
  assumes "wf_value v" "v_data v \<noteq> []" "Aligned v" "bufSize < 2 ^ 61" "length (v_data v) < 2 ^ 61"
    and "no_page_after options seeker" "ok r" "pos r = 0" "idle_after g idle"
  shows "\<exists>s cmp. NewScannerBuffer v bufSize = Some s \<and> Value_Comparable v = Some cmp \<and>
    map_option snd (ScanCollector (\<lambda>_. False) read seeker options s (Some g) r c) =
      go_fold (collect g) (map int (matching cmp stream)) c"
proof (cases "HasOption v")
  case True
  from HasOption_float [OF True] obtain f where "v_typ v = float_type f" by blast
  from NewScannerBuffer_float [OF assms(1) this True, of bufSize] obtain s lo hi cmp B
    where s: "NewScannerBuffer v bufSize = Some s" "Value_Comparable v = Some cmp" "scans_interval f s cmp B lo hi"
      "int B < max bufSize 64 + 64"
    by blast
  have B: "0 < B" "B mod width f = 0" "B < 2 ^ 63" "comp_Size cmp = width f"
    and eq: "\<And>b. length b = width f \<Longrightarrow> comp_EqualBytes cmp b = Some (in_interval f lo hi b)"
    using s(3,4) assms(4) by (auto simp: scans_interval_def)
  have "map_option snd (scan_rounded_loop f (\<lambda>_. False) read seeker options lo hi g 0 (replicate B 0) (int (pos r)) r c) =
      feed_all g (float_hits f lo hi (pos r) stream) c"
    by (rule scan_rounded_full) (use assms(6-8) B in simp_all)
  with s(1,2) show ?thesis
    by (simp add: ScanCollector_interval [OF s(3)] feed_all_collect float_hits_matching [OF B(4) eq] assms(8))
next
  case False
  from NewScannerBuffer_fit [OF assms(1,2) False assms(4,5)] obtain s B
    where s: "NewScannerBuffer v bufSize = Some s" "Value_Comparable v = Some (CmpValue v)" "sc_value s = v"
      "fit_scanner s B"
      "ScanCollector (\<lambda>_. False) read seeker options s (Some g) r c =
        scanBytes (\<lambda>_. False) read seeker options s g r c"
    by metis
  have al: "Aligned (sc_value s)" using s(3) assms(3) by simp
  have "map_option snd (scanBytes (\<lambda>_. False) read seeker options s g r c) =
      go_fold (collect g) (map int (matching (CmpValue v) stream)) c"
    using scanBytes_full [OF s(4) al assms(6-8), of g c] aligned_hits_matching [OF assms(1), of stream] s(3)
    by (simp add: feed_collect [OF assms(9)])
  with s show ?thesis by auto
qed

end

section \<open>Any reader\<close>

context seek_reader
begin

lemma hit_bytes: "hit_at b p \<longleftrightarrow> bytes_at p b"
  by (simp add: hit_at_def bytes_at_def)

lemma ScanCollector_safe:
  assumes "wf_value v" "v_data v \<noteq> []" "bufSize < 2 ^ 61" "length (v_data v) < 2 ^ 61" "total < 2 ^ 62"
    and "\<And>opts. options = Some opts \<Longrightarrow> unat (ExpectedSize opts) \<le> total"
    and "ok r" "pos r = 0" "J 0 c" and mono: "\<And>k k' c. J k c \<Longrightarrow> k \<le> k' \<Longrightarrow> J k' c"
    and step: "\<And>cmp k p b c. Value_Comparable v = Some cmp \<Longrightarrow> J k c \<Longrightarrow> k \<le> p \<Longrightarrow> p + comp_Size cmp \<le> total \<Longrightarrow>
      bytes_at p b \<Longrightarrow> comp_EqualBytes cmp b = Some True \<Longrightarrow> length b = comp_Size cmp \<Longrightarrow>
      (Aligned v \<longrightarrow> p mod comp_Size cmp = 0) \<Longrightarrow> \<exists>continue c'. g (int p) c = Some (continue, c') \<and> J (Suc p) c'"
  shows "\<exists>s r' c' k'. NewScannerBuffer v bufSize = Some s \<and>
    ScanCollector ctx read (Some seek) options s (Some g) r c = Some (r', c') \<and> J k' c'"
proof (cases "HasOption v")
  case True
  from HasOption_float [OF True] obtain f where "v_typ v = float_type f" by blast
  from NewScannerBuffer_float [OF assms(1) this True, of bufSize] obtain s lo hi cmp B
    where s: "NewScannerBuffer v bufSize = Some s" "Value_Comparable v = Some cmp" "scans_interval f s cmp B lo hi"
      "int B < max bufSize 64 + 64"
    by blast
  have B: "0 < B" "B mod width f = 0" "B < 2 ^ 62" "comp_Size cmp = width f"
    and eq: "\<And>b. length b = width f \<Longrightarrow> comp_EqualBytes cmp b = Some (in_interval f lo hi b)"
    using s(3,4) assms(3) by (auto simp: scans_interval_def)
  have "\<exists>r' c' k'. scan_rounded_loop f ctx read (Some seek) options lo hi g 0 (replicate B 0) (int (pos r)) r c =
      Some (r', c') \<and> ok r' \<and> J k' c'"
  proof (rule scan_rounded_safe [where J = J, OF assms(5) assms(6) _ B(1-3) mono])
    fix k q b c assume "J k c" "k \<le> q" "q + width f \<le> total" "length b = width f" "bytes_at q b" "in_interval f lo hi b"
      "q mod width f = 0"
    then show "\<exists>continue c'. g (int q) c = Some (continue, c') \<and> J (Suc q) c'"
      using step [OF s(2), of k c q b] B(4) eq by simp
  qed (use assms(7-9) in simp_all)
  moreover have start: "int (pos r) = 0" using assms(8) by simp
  ultimately obtain r' c' k' where "scan_rounded_loop f ctx read (Some seek) options lo hi g 0 (replicate B 0) 0 r c =
      Some (r', c')" "J k' c'"
    unfolding start by blast
  then have "ScanCollector ctx read (Some seek) options s (Some g) r c = Some (r', c') \<and> J k' c'"
    by (simp add: ScanCollector_interval [OF s(3)])
  with s(1) show ?thesis by blast
next
  case False
  from NewScannerBuffer_fit [OF assms(1,2) False assms(3,4)] obtain s B
    where s: "NewScannerBuffer v bufSize = Some s" "Value_Comparable v = Some (CmpValue v)" "sc_value s = v"
      "fit_scanner s B"
      "ScanCollector ctx read (Some seek) options s (Some g) r c = scanBytes ctx read (Some seek) options s g r c"
    by metis
  have "\<exists>r' c' k'. scanBytes ctx read (Some seek) options s g r c = Some (r', c') \<and> ok r' \<and> J k' c'"
  proof (rule scanBytes_safe [where J = J, OF s(4) refl assms(5) assms(6) mono _ assms(7-9)])
    fix k p c assume "J k c" "k \<le> p" "p + length (v_data (sc_value s)) \<le> total" "hit_at (v_data (sc_value s)) p"
      "Aligned (sc_value s) \<longrightarrow> p mod length (v_data (sc_value s)) = 0"
    note hit = this [unfolded s(3) hit_bytes]
    have "comp_Size (CmpValue v) = length (v_data v)"
      "comp_EqualBytes (CmpValue v) (v_data v) = Some True"
      using wf_value_Size [OF assms(1)] by (simp_all add: Value_EqualBytes_def)
    then show "\<exists>continue c'. g (int p) c = Some (continue, c') \<and> J (Suc p) c'"
      using hit by (intro step [OF s(2), of k c p "v_data v"]) simp_all
  qed
  then obtain r' c' k' where "scanBytes ctx read (Some seek) options s g r c = Some (r', c')" "J k' c'"
    by (elim exE conjE) (rule that; assumption)
  then show ?thesis
    by (intro exI conjI) (rule s(1), unfold s(5))
qed

end

section \<open>The region of a process\<close>

lemma rrf_stream: "rrf.stream mem s z = contents_at mem (iov_addrs (s, z))"
  by (simp add: rrf.stream_def contents_at_def iov_addrs_def mem_from_def)

lemma no_page_after_end:
  assumes "z < 2 ^ 63" "\<And>opts. options = Some opts \<Longrightarrow> unat (ExpectedSize opts) \<le> z"
  shows "rrf.no_page_after z options seeker"
  unfolding rrf.no_page_after_def
proof (intro allI impI)
  fix err and r :: RegionReader
  assume "\<forall>e. err \<noteq> Some (Errno e)"
  show "tryAlignNextPage err options seeker (int z) r = None"
  proof (cases options)
    case (Some opts)
    define y :: u64 where "y = page_floor (of_nat z + 0xFFF)"
    define w where "w = (if y \<le> of_nat z then y + 0x1000 else y)"
    have z: "unat (of_nat z :: u64) = z" using assms(1) by (simp add: unat_of_nat)
    have "z < unat w"
      using next_page [OF _ y_def w_def] assms(1) z by simp
    with assms(2) [OF Some] have "ExpectedSize opts \<le> w" by (simp add: word_le_nat_alt)
    then have "alignNextPage opts seeker (of_nat z) r = None"
      by (simp add: alignNextPage_def Let_def flip: y_def w_def split: option.split)
    with Some show ?thesis by (simp add: tryAlignNextPage_def split: option.split)
  qed (simp add: tryAlignNextPage_def split: option.split)
qed

definition no_reader :: RegionReader where
  "no_reader = \<lparr>rr_start = 0, rr_end = 0, rr_size = 0, rr_off = 0, rr_pid = 0\<rparr>"

lemma aligned_small: "wf_value v \<Longrightarrow> Aligned v \<Longrightarrow> length (v_data v) \<le> 8"
  by (simp add: wf_value_def Aligned_def ByteSize_def)

lemma ScanCollector_region:
  assumes "reads_memory vm pid mem" "readable mem (iov_addrs (a, unat (e - a)))" "unat (e - a) < 2 ^ 63"
    and "wf_value v" "v_data v \<noteq> []" "Aligned v" "bufSize < 2 ^ 61"
    and "\<And>opts. options = Some opts \<Longrightarrow> ExpectedSize opts \<le> e - a" "idle_after g idle"
  shows "\<exists>s cmp. NewScannerBuffer v bufSize = Some s \<and> Value_Comparable v = Some cmp \<and>
    map_option snd (ScanCollector (\<lambda>_. False) (rr_Read vm) (Some rr_seek_start) options s (Some g)
        (getRegionReader pid a e pooled) c) =
      go_fold (collect g) (map int (matching cmp (contents_at mem (iov_addrs (a, unat (e - a)))))) c"
proof -
  define z where "z = unat (e - a)"
  have "rr_full vm mem pid a z (getRegionReader pid a e pooled)" "rr_pos (getRegionReader pid a e pooled) = 0"
    using getRegionReader_ok [OF assms(1,3), of pooled] assms(2) by (simp_all add: rr_full_def z_def)
  moreover have "rrf.no_page_after z options (Some rr_seek_start)"
    using assms(3,8) by (intro no_page_after_end) (simp_all add: z_def word_le_nat_alt)
  moreover have "length (v_data v) < 2 ^ 61"
    using aligned_small [OF assms(4,6)] by simp
  ultimately show ?thesis
    using rrf.ScanCollector_full [OF assms(4-7) _ _ _ _ assms(9), where options = options and seeker = "Some rr_seek_start"]
    by (simp add: rrf_stream z_def)
qed

text \<open>
  C9: over a region all of whose memory can be read, a scan whose collector never stops it reports
  exactly the aligned positions the value's \<open>ValueComparable\<close> accepts, each once and in ascending order,
  whatever the size of the buffer and however the kernel cuts up the reads.
\<close>

theorem ScanCollector_finds_all:
  assumes "reads_memory vm pid mem" "readable mem (iov_addrs (a, unat (e - a)))" "unat (e - a) < 2 ^ 63"
    and "wf_value v" "v_data v \<noteq> []" "Aligned v" "bufSize < 2 ^ 61"
    and "\<And>opts. options = Some opts \<Longrightarrow> ExpectedSize opts \<le> e - a"
  shows "\<exists>s cmp. NewScannerBuffer v bufSize = Some s \<and> Value_Comparable v = Some cmp \<and>
    map_option snd (ScanCollector (\<lambda>_. False) (rr_Read vm) (Some rr_seek_start) options s (Some (steady h))
        (getRegionReader pid a e pooled) c) =
      go_fold h (map int (matching cmp (contents_at mem (iov_addrs (a, unat (e - a)))))) c"
  using ScanCollector_region [OF assms(1-8) steady_idle] by (simp add: collect_steady)

theorem ScanCollector_finds_all_witness:
  "\<exists>s. NewScannerBuffer (NewInt8 7) 64 = Some s \<and>
    map_option snd (ScanCollector (\<lambda>_. False) (rr_Read (sim_readv (\<lambda>_. Some 7))) (Some rr_seek_start) None s
        (Some (steady (\<lambda>i found. Some (found @ [i])))) (getRegionReader 1 0x1000 0x1003 no_reader) []) =
      Some [0, 1, 2]"
proof -
  have "readable (\<lambda>_. Some 7) (iov_addrs (0x1000, 3))"
    by (auto simp: readable_def list_all_iff)
  moreover have "contents_at (\<lambda>_. Some 7) (iov_addrs (0x1000, 3)) = [7, 7, 7]"
    by (simp add: contents_at_def iov_addrs_def upt_rec)
  moreover have "matching (CmpValue (NewInt8 7)) [7, 7, 7] = [0, 1, 2]"
    by (simp add: matching_def Value_Size_def NewInt8_def ByteSize_simps Value_EqualBytes_def upt_rec)
  moreover have "Value_Comparable (NewInt8 7) = Some (CmpValue (NewInt8 7))"
    by (simp add: Value_Comparable_def HasOption_def is_float_type_def NewInt8_def)
  ultimately show ?thesis
    using ScanCollector_finds_all [OF sim_readv_reads, where mem = "\<lambda>_. Some 7" and pid = 1 and a = "0x1000" and e = "0x1003"
        and v = "NewInt8 7" and bufSize = 64 and options = None and pooled = no_reader
        and h = "\<lambda>i found. Some (found @ [i])" and c = "[]"]
      wf_value_constructors(1) [of 7]
    by (simp add: Aligned_def) (simp add: NewInt8_def)
qed

text \<open>
  C10: whatever can be read of a region, whenever the context is cancelled and whatever the collector
  decides, a scan returns, and the offsets it reports are ascending and each that of a value inside the region, in the memory
  of the process, accepted by the value's \<open>ValueComparable\<close> and, but for byte strings, aligned to its size.
\<close>

theorem ScanCollector_sound:
  assumes "reads_memory vm pid mem" "unat (e - a) < 2 ^ 62"
    and "wf_value v" "v_data v \<noteq> []" "length (v_data v) < 2 ^ 61" "bufSize < 2 ^ 61"
    and "\<And>opts. options = Some opts \<Longrightarrow> ExpectedSize opts \<le> e - a"
  shows "\<exists>s cmp r offsets. NewScannerBuffer v bufSize = Some s \<and> Value_Comparable v = Some cmp \<and>
    ScanCollector ctx (rr_Read vm) (Some rr_seek_start) options s (Some (\<lambda>i found. Some (go_on i found, found @ [i])))
      (getRegionReader pid a e pooled) [] = Some (r, offsets) \<and> sorted_wrt (<) offsets \<and>
    (\<forall>i \<in> set offsets. \<exists>q b. i = int q \<and> q + length b \<le> unat (e - a) \<and> length b = comp_Size cmp \<and>
       comp_EqualBytes cmp b = Some True \<and> (\<forall>j < length b. mem (a + of_nat (q + j)) = Some (b ! j)) \<and>
       (Aligned v \<longrightarrow> q mod comp_Size cmp = 0))"
proof -
  define z where "z = unat (e - a)"
  define good where "good cmp i \<longleftrightarrow> (\<exists>q b. i = int q \<and> q + length b \<le> z \<and> length b = comp_Size cmp \<and>
     comp_EqualBytes cmp b = Some True \<and> (\<forall>j < length b. mem (a + of_nat (q + j)) = Some (b ! j)) \<and>
     (Aligned v \<longrightarrow> q mod comp_Size cmp = 0))" for cmp i
  define J where "J k found \<longleftrightarrow> (\<forall>cmp. Value_Comparable v = Some cmp \<longrightarrow> (\<forall>i \<in> set found. good cmp i)) \<and>
     sorted_wrt (<) found \<and> (\<forall>i \<in> set found. i < int k)" for k found
  have "unat (e - a) < 2 ^ 63" using assms(2) by simp
  note ok = getRegionReader_ok [OF assms(1) this, of pooled, folded z_def]
  have "\<exists>s r found. NewScannerBuffer v bufSize = Some s \<and>
    ScanCollector ctx (rr_Read vm) (Some rr_seek_start) options s (Some (\<lambda>i found. Some (go_on i found, found @ [i])))
      (getRegionReader pid a e pooled) [] = Some (r, found) \<and> (\<exists>k. J k found)"
  proof -
    have "\<exists>s r found k. NewScannerBuffer v bufSize = Some s \<and>
      ScanCollector ctx (rr_Read vm) (Some rr_seek_start) options s (Some (\<lambda>i found. Some (go_on i found, found @ [i])))
        (getRegionReader pid a e pooled) [] = Some (r, found) \<and> J k found"
    proof (rule rr.ScanCollector_safe [where J = J, OF assms(3,4,6,5)])
      fix cmp k p b and found :: "int list"
      assume s: "Value_Comparable v = Some cmp" "J k found" "k \<le> p" "p + comp_Size cmp \<le> z"
        "rr.bytes_at mem a p b" "comp_EqualBytes cmp b = Some True" "length b = comp_Size cmp"
        "Aligned v \<longrightarrow> p mod comp_Size cmp = 0"
      have "good cmp (int p)"
        unfolding good_def using s(4-8) by (intro exI [of _ p] exI [of _ b]) (auto simp: rr.bytes_at_def mem_from_def)
      with s(1-3) show "\<exists>continue c'. Some (go_on (int p) found, found @ [int p]) = Some (continue, c') \<and> J (Suc p) c'"
        by (fastforce simp: J_def sorted_wrt_append)
    qed (use assms(2,7) ok in \<open>auto simp: z_def word_le_nat_alt J_def\<close>)
    then show ?thesis by blast
  qed
  moreover have "\<exists>cmp. Value_Comparable v = Some cmp"
  proof (cases "HasOption v")
    case True
    from HasOption_float [OF this] obtain f where "v_typ v = float_type f" by blast
    from NewScannerBuffer_float [OF assms(3) this True] show ?thesis by blast
  qed (simp add: Value_Comparable_def)
  ultimately show ?thesis
    unfolding J_def good_def z_def by blast
qed

theorem ScanCollector_sound_witness:
  "\<exists>s r offsets. NewScannerBuffer (NewBytes [7, 7]) 64 = Some s \<and>
    ScanCollector (\<lambda>k. k = 5) (rr_Read (sim_readv (\<lambda>a. if a < 0x1002 then Some 7 else None))) (Some rr_seek_start)
      (Some \<lparr>ExpectedSize = 0x3000\<rparr>) s (Some (\<lambda>i found. Some (length found < 2, found @ [i])))
      (getRegionReader 1 0x1000 0x4000 no_reader) [] = Some (r, offsets) \<and>
    list_all (\<lambda>i. 0 \<le> i) offsets"
proof -
  have "v_data (NewBytes [7, 7]) = [7, 7]" by (simp add: NewBytes_def)
  then have "\<exists>s cmp r offsets. NewScannerBuffer (NewBytes [7, 7]) 64 = Some s \<and>
    Value_Comparable (NewBytes [7, 7]) = Some cmp \<and>
    ScanCollector (\<lambda>k. k = 5) (rr_Read (sim_readv (\<lambda>a. if a < 0x1002 then Some 7 else None))) (Some rr_seek_start)
      (Some \<lparr>ExpectedSize = 0x3000\<rparr>) s (Some (\<lambda>i found. Some (length found < 2, found @ [i])))
      (getRegionReader 1 0x1000 0x4000 no_reader) [] = Some (r, offsets) \<and> sorted_wrt (<) offsets \<and>
    (\<forall>i \<in> set offsets. \<exists>q b. i = int q \<and> q + length b \<le> unat (0x4000 - 0x1000 :: u64) \<and> length b = comp_Size cmp \<and>
       comp_EqualBytes cmp b = Some True \<and>
       (\<forall>j < length b. (if 0x1000 + of_nat (q + j) < (0x1002 :: u64) then Some 7 else None) = Some (b ! j)) \<and>
       (Aligned (NewBytes [7, 7]) \<longrightarrow> q mod comp_Size cmp = 0))"
    by (intro ScanCollector_sound [OF sim_readv_reads]) (auto simp: wf_value_constructors)
  then show ?thesis
    unfolding list_all_iff by fastforce
qed

end
