(* ===== verification/Vector_IO.thy ===== *)
theory Vector_IO
  imports Region_Reader
begin

text \<open>
  Reading and writing one value at each of many addresses (\<^verbatim>\<open>readValuesRaw\<close> and \<^verbatim>\<open>writeValues\<close> of
  \<^verbatim>\<open>memscan.go\<close>): one system call for all that is left, and behind the address at which it stopped another one.
  The pooled arrays of ranges have \<open>IOV_MAX\<close> entries.
\<close>

definition IOV_MAX :: nat where
  "IOV_MAX = 1024"

section \<open>Chunks of a buffer\<close>

definition chunk :: "nat \<Rightarrow> nat \<Rightarrow> 'a list \<Rightarrow> 'a list" where
  "chunk sz j buf = take sz (drop (j * sz) buf)"

lemma slice_chunk:
  assumes "i * sz + sz \<le> length buf"
  shows "slice buf (int (i * sz)) (int (i * sz + sz)) = Some (chunk sz i buf)"
proof -
  have "int (i * sz + sz) \<le> int (length buf)" "nat (int (i * sz + sz) - int (i * sz)) = sz"
    using assms by (simp_all flip: of_nat_add of_nat_mult)
  then show ?thesis by (simp only: slice_def chunk_def nat_int) simp
qed

lemma chunk_room: "j < n \<Longrightarrow> n * sz \<le> length buf \<Longrightarrow> j * sz + sz \<le> length buf"
proof -
  assume "j < n" "n * sz \<le> length buf"
  then have "Suc j * sz \<le> length buf" by (meson Suc_leI dual_order.trans mult_le_mono1)
  then show ?thesis by simp
qed

lemma length_chunk: "j < n \<Longrightarrow> n * sz \<le> length buf \<Longrightarrow> length (chunk sz j buf) = sz"
  using chunk_room [of j n sz buf] by (simp add: chunk_def)

lemma chunk_before: "j < k \<Longrightarrow> k * sz \<le> i \<Longrightarrow> take i xs = take i ys \<Longrightarrow> chunk sz j xs = chunk sz j ys"
proof -
  assume "j < k" "k * sz \<le> i" "take i xs = take i ys"
  moreover from this have "j * sz + sz \<le> i" by (metis Suc_leI add.commute dual_order.trans mult_Suc mult_le_mono1)
  moreover have "chunk sz j zs = chunk sz j (take i zs)" if "j * sz + sz \<le> i" for zs :: "'a list"
    using that by (simp add: chunk_def drop_take min_def)
  ultimately show ?thesis by metis
qed

lemma chunk_copy_before:
  assumes "j < k" "k * sz \<le> length buf"
  shows "chunk sz j (copy_at buf (k * sz) data) = chunk sz j buf"
  using assms by (intro chunk_before [of j k sz "k * sz"]) (simp_all add: copy_at_def)

lemma chunk_copy_inside:
  assumes "i * sz + sz \<le> length data" "k * sz + length data \<le> length buf"
  shows "chunk sz (k + i) (copy_at buf (k * sz) data) = chunk sz i data"
proof -
  have "drop ((k + i) * sz) (copy_at buf (k * sz) data) = drop (i * sz) data @ drop (k * sz + length data) buf"
    using assms by (simp add: copy_at_def distrib_right)
  then show ?thesis
    using assms(1) by (simp add: chunk_def)
qed

lemma chunk_update_other:
  assumes "i \<noteq> j" "0 < sz"
  shows "chunk sz j (buf[i * sz := d]) = chunk sz j buf"
proof (rule nth_equalityI)
  fix k assume k: "k < length (chunk sz j (buf[i * sz := d]))"
  then have "k < sz" by (simp add: chunk_def)
  then have "(j * sz + k) div sz = j" "i * sz div sz = i" using assms(2) by simp_all
  with assms(1) have "i * sz \<noteq> j * sz + k" by metis
  moreover have "j * sz \<le> length buf" using k by (auto simp: chunk_def)
  ultimately show "chunk sz j (buf[i * sz := d]) ! k = chunk sz j buf ! k"
    using k by (simp add: chunk_def)
qed (simp add: chunk_def)

lemma chunk_update_same:
  "0 < sz \<Longrightarrow> i * sz < length buf \<Longrightarrow> \<exists>rest. chunk sz i (buf[i * sz := d]) = d # rest"
  by (cases sz) (simp_all add: chunk_def drop_update_swap Cons_nth_drop_Suc [symmetric])

lemma chunk_concat:
  assumes "\<forall>xs \<in> set xss. length xs = sz" "i < length xss"
  shows "chunk sz i (concat xss) = xss ! i"
  using assms
proof (induction xss arbitrary: i)
  case (Cons xs xss)
  then show ?case by (cases i) (simp_all add: chunk_def)
qed simp

section \<open>Reading\<close>

text \<open>Filling the arrays: entry \<open>i\<close> must exist, and so must the byte of the buffer it points to.\<close>

definition fill_remote :: "u64 list \<Rightarrow> int \<Rightarrow> int \<Rightarrow> bytes \<Rightarrow> iovec list go" where
  "fill_remote addresses sz currentPos buf =
     go_fold (\<lambda>i remote.
         let idx = currentPos + int i in
         if IOV_MAX \<le> i then None
         else do {
           p \<leftarrow> index buf (idx * sz);
           a \<leftarrow> index addresses idx;
           Some (remote @ [(a, nat sz)])
         }) [0..<nat (int (length addresses) - currentPos)] []"

text \<open>
  The ranges of the local array lie side by side in the buffer from the current position on, so the
  bytes read are stored there in one piece.
\<close>

partial_function (option) readValuesRaw_loop ::
  "vm_readv \<Rightarrow> int \<Rightarrow> u64 list \<Rightarrow> int \<Rightarrow> u8 \<Rightarrow> int \<Rightarrow> bytes \<Rightarrow> bytes go" where
  "readValuesRaw_loop vm pid addresses sz disturb currentPos buf =
     (let n = int (length addresses) in
      if currentPos < n then do {
        remote \<leftarrow> fill_remote addresses sz currentPos buf;
        let (nRead, err, data) = vm pid remote;
        let buf = copy_at buf (nat (currentPos * sz)) data;
        let currentPos = currentPos + go_div nRead sz;
        (currentPos, buf) \<leftarrow>
          (if currentPos < n then do {
             let offset = currentPos * sz;
             old \<leftarrow> index buf offset;
             Some (currentPos + 1, buf[nat offset := disturb])
           } else Some (currentPos, buf));
        if err \<noteq> None \<and> err \<noteq> Some EFAULT \<and> nRead = 0 then Some buf
        else readValuesRaw_loop vm pid addresses sz disturb currentPos buf
      }
      else Some buf)"

definition readValuesRaw :: "vm_readv \<Rightarrow> int \<Rightarrow> u64 list \<Rightarrow> int \<Rightarrow> u8 \<Rightarrow> bytes \<Rightarrow> bytes go" where
  "readValuesRaw vm pid addresses sz disturb buf =
     (if sz \<le> 0 then Some buf
      else if length addresses = 0 then Some buf
      else readValuesRaw_loop vm pid addresses sz disturb 0 buf)"

lemma go_fold_append_map:
  "\<forall>x \<in> set xs. f x \<noteq> None \<Longrightarrow>
   go_fold (\<lambda>x acc. do { y \<leftarrow> f x; Some (acc @ [y]) }) xs acc = Some (acc @ map (the \<circ> f) xs)"
  by (induction xs arbitrary: acc) auto

lemma fill_remote_fits:
  assumes "k \<le> length addresses" "length addresses - k \<le> IOV_MAX" "0 < sz"
    and "length addresses * sz \<le> length buf"
  shows "fill_remote addresses (int sz) (int k) buf = Some (map (\<lambda>a. (a, sz)) (drop k addresses))"
proof -
  have n: "nat (int (length addresses) - int k) = length addresses - k" by simp
  define f where "f i = (if IOV_MAX \<le> i then None
      else do { p \<leftarrow> index buf ((int k + int i) * int sz); a \<leftarrow> index addresses (int k + int i); Some (a, nat (int sz)) })"
    for i
  have f: "f i = Some (addresses ! (k + i), sz)" if "i < length addresses - k" for i
  proof -
    have "(k + i) * sz + sz \<le> length buf"
      using chunk_room [of "k + i" "length addresses" sz buf] assms(4) that by simp
    moreover have "(int k + int i) * int sz = int ((k + i) * sz)" by simp
    ultimately have "index buf ((int k + int i) * int sz) \<noteq> None"
      using assms(3) by (simp only: index_def) (simp del: of_nat_mult)
    moreover have "index addresses (int k + int i) = Some (addresses ! (k + i))"
      using that by (simp add: index_def nat_add_distrib)
    ultimately show ?thesis using that assms(2) by (auto simp: f_def)
  qed
  have "fill_remote addresses (int sz) (int k) buf =
      go_fold (\<lambda>i acc. do { y \<leftarrow> f i; Some (acc @ [y]) }) [0..<length addresses - k] []"
    unfolding fill_remote_def n f_def
    by (rule arg_cong [where f = "\<lambda>h. go_fold h [0..<length addresses - k] []"])
      (auto simp: fun_eq_iff Let_def split: Option.bind_splits)
  also have "\<dots> = Some (map (the \<circ> f) [0..<length addresses - k])"
    using go_fold_append_map [of "[0..<length addresses - k]" f "[]"] f by simp
  also have "map (the \<circ> f) [0..<length addresses - k] = map (\<lambda>a. (a, sz)) (drop k addresses)"
    using f assms(1) by (intro nth_equalityI) simp_all
  finally show ?thesis .
qed

text \<open>How many of the values at equally long ranges a law-abiding kernel delivers as a whole.\<close>

lemma iovs_addrs_values: "length (iovs_addrs (map (\<lambda>a. (a, sz)) as)) = length as * sz"
  by (induction as) (simp_all add: iovs_addrs_def)

lemma chunk_iovs:
  assumes "i < length as"
  shows "chunk sz i (iovs_addrs (map (\<lambda>a. (a, sz)) as)) = iov_addrs (as ! i, sz)"
  unfolding iovs_addrs_def using assms by (subst chunk_concat) auto

definition value_readable :: "memory \<Rightarrow> nat \<Rightarrow> u64 \<Rightarrow> bool" where
  "value_readable mem sz a \<longleftrightarrow> readable mem (iov_addrs (a, sz))"

definition value_at :: "memory \<Rightarrow> nat \<Rightarrow> u64 \<Rightarrow> bytes" where
  "value_at mem sz a = contents_at mem (iov_addrs (a, sz))"

lemma length_value_at [simp]: "length (value_at mem sz a) = sz"
  by (simp add: value_at_def contents_at_def)

definition whole_values :: "memory \<Rightarrow> nat \<Rightarrow> u64 list \<Rightarrow> nat" where
  "whole_values mem sz as = length (takeWhile (value_readable mem sz) as)"

lemma whole_values_length: "whole_values mem sz as \<le> length as"
  by (simp add: whole_values_def length_takeWhile_le)

lemma whole_values_good: "i < whole_values mem sz as \<Longrightarrow> value_readable mem sz (as ! i)"
  by (metis nth_mem set_takeWhileD takeWhile_nth whole_values_def)

lemma whole_values_stop: "whole_values mem sz as < length as \<Longrightarrow> \<not> value_readable mem sz (as ! whole_values mem sz as)"
  by (simp add: whole_values_def nth_length_takeWhile)

lemma whole_iovs_values: "length (iovs_addrs (whole_iovs mem (map (\<lambda>a. (a, sz)) as))) = whole_values mem sz as * sz"
  by (simp add: whole_iovs_def takeWhile_map comp_def iovs_addrs_values whole_values_def value_readable_def [abs_def])

text \<open>
  The answer of a law-abiding kernel: the whole values before the first one that is not readable, and perhaps a
  part of that one.
\<close>

lemma vm_values:
  assumes "reads_memory vm pid mem" "as \<noteq> []" "length as \<le> IOV_MAX" "0 < sz"
    and "vm pid (map (\<lambda>a. (a, sz)) as) = (n, err, data)"
  shows "length data \<le> length as * sz \<and> whole_values mem sz as * sz \<le> length data \<and>
    (\<forall>i < whole_values mem sz as. chunk sz i data = value_at mem sz (as ! i)) \<and>
    ((n = -1 \<and> err = Some EFAULT \<and> data = [] \<and> whole_values mem sz as = 0) \<or>
     (0 < n \<and> err = None \<and> length data = nat n \<and> go_div n (int sz) = int (whole_values mem sz as)))"
proof -
  define iovs where "iovs = map (\<lambda>a. (a, sz)) as"
  define w where "w = whole_values mem sz as"
  have len: "length (iovs_addrs iovs) = length as * sz" "length iovs \<le> 1024"
    using assms(3) by (simp_all add: iovs_def iovs_addrs_values IOV_MAX_def)
  have "iovs_addrs iovs \<noteq> []"
    using len(1) assms(2,4) by (metis length_0_conv mult_is_0 less_not_refl)
  with assms(1,5) len(2) have cases: "(n = -1 \<and> err = Some EFAULT \<and> data = [] \<and> iovs_addrs (whole_iovs mem iovs) = [] \<and>
       \<not> readable mem (iovs_addrs iovs)) \<or>
      (0 < n \<and> err = None \<and> n \<le> int (length (iovs_addrs iovs)) \<and>
       int (length (iovs_addrs (whole_iovs mem iovs))) \<le> n \<and>
       readable mem (take (nat n) (iovs_addrs iovs)) \<and>
       data = contents_at mem (take (nat n) (iovs_addrs iovs)))"
    unfolding reads_memory_def iovs_def [symmetric] by (auto dest!: spec [of _ iovs])
  note wlen = whole_iovs_values [of mem sz as, folded iovs_def w_def]
  have wl: "w \<le> length as" by (simp add: w_def whole_values_length)
  from cases show ?thesis
  proof (elim disjE conjE)
    assume "n = -1" "err = Some EFAULT" "data = []" "iovs_addrs (whole_iovs mem iovs) = []"
    with wlen assms(4) show ?thesis by (simp flip: w_def)
  next
    assume g: "0 < n" "err = None" "n \<le> int (length (iovs_addrs iovs))"
      "int (length (iovs_addrs (whole_iovs mem iovs))) \<le> n"
      "readable mem (take (nat n) (iovs_addrs iovs))"
      "data = contents_at mem (take (nat n) (iovs_addrs iovs))"
    define m where "m = nat n"
    have m: "n = int m" "0 < m" "m \<le> length as * sz" "w * sz \<le> m"
      using g(1,3,4) by (simp_all add: m_def len(1) wlen nat_le_iff le_nat_iff)
    have data: "length data = m"
      using m(3) by (simp add: g(6) contents_at_def len(1) flip: m_def)
    have chunk_data: "chunk sz i data = value_at mem sz (as ! i)" "chunk sz i (take m (iovs_addrs iovs)) = iov_addrs (as ! i, sz)"
      if "i * sz + sz \<le> m" for i
    proof -
      have "i < length as"
        using that m(3) assms(4) by (metis add_leD1 dual_order.trans le_less_linear add_le_same_cancel1 mult_le_mono1 not_le)
      moreover have "sz \<le> m - i * sz" using that by simp
      ultimately show c: "chunk sz i (take m (iovs_addrs iovs)) = iov_addrs (as ! i, sz)"
        using chunk_iovs [of i as sz] \<open>sz \<le> m - i * sz\<close> by (simp add: iovs_def chunk_def drop_take min_absorb1)
      have "chunk sz i data = contents_at mem (chunk sz i (take m (iovs_addrs iovs)))"
        by (simp add: g(6) contents_at_def chunk_def take_map drop_map flip: m_def)
      with c show "chunk sz i data = value_at mem sz (as ! i)" by (simp add: value_at_def)
    qed
    have "m div sz = w"
    proof (rule antisym)
      show "w \<le> m div sz" using m(4) assms(4) by (simp add: less_eq_div_iff_mult_less_eq)
      show "m div sz \<le> w"
      proof (rule ccontr)
        assume "\<not> m div sz \<le> w"
        then have "Suc w * sz \<le> m"
          using less_eq_div_iff_mult_less_eq [OF assms(4), of "Suc w" m] by simp
        then have le: "w * sz + sz \<le> m" by simp
        moreover have "set (chunk sz w (take m (iovs_addrs iovs))) \<subseteq> set (take m (iovs_addrs iovs))"
          unfolding chunk_def by (meson set_drop_subset set_take_subset subset_trans)
        ultimately have "value_readable mem sz (as ! w)"
          using g(5) chunk_data(2) [OF le] by (auto simp: value_readable_def readable_def list_all_iff m_def)
        moreover have "w < length as"
        proof -
          have "Suc w * sz \<le> length as * sz" using le m(3) by simp
          with assms(4) have "Suc w \<le> length as" by (simp only: mult_le_cancel2)
          then show ?thesis by simp
        qed
        ultimately show False using whole_values_stop [of mem sz as] by (simp add: w_def)
      qed
    qed
    then have "go_div n (int sz) = int w"
      using m(1) assms(4) by (simp add: go_div_nonneg zdiv_int [symmetric])
    moreover have "chunk sz i data = value_at mem sz (as ! i)" if "i < w" for i
    proof (rule chunk_data(1))
      have "Suc i * sz \<le> w * sz" using that by (intro mult_le_mono1) simp
      with m(4) show "i * sz + sz \<le> m" by simp
    qed
    ultimately show ?thesis
      unfolding w_def [symmetric] using g(1,2) m(3,4) data m_def by simp
  qed
qed

text \<open>What the buffer holds for the first \<open>k\<close> addresses when all goes well.\<close>

definition values_read :: "memory \<Rightarrow> nat \<Rightarrow> u8 \<Rightarrow> u64 list \<Rightarrow> nat \<Rightarrow> bytes \<Rightarrow> bool" where
  "values_read mem sz disturb as k buf \<longleftrightarrow>
     (\<forall>j < k. if value_readable mem sz (as ! j) then chunk sz j buf = value_at mem sz (as ! j)
              else (\<exists>rest. chunk sz j buf = disturb # rest))"

text \<open>One iteration: it passes the whole values and the address behind them.\<close>

lemma readValuesRaw_step:
  assumes "reads_memory vm pid mem" "length as \<le> IOV_MAX" "0 < sz" "length as * sz \<le> length buf" "k < length as"
    and "2 \<le> sz \<or> value_readable mem sz (as ! k)"
  shows "\<exists>k' buf'. readValuesRaw_loop vm pid as (int sz) d (int k) buf = readValuesRaw_loop vm pid as (int sz) d (int k') buf' \<and>
    k < k' \<and> k' \<le> length as \<and> length buf' = length buf \<and>
    (values_read mem sz d as k buf \<longrightarrow> values_read mem sz d as k' buf') \<and>
    k' = min (length as) (k + whole_values mem sz (drop k as) + 1)"
proof -
  define w where "w = whole_values mem sz (drop k as)"
  have fill: "fill_remote as (int sz) (int k) buf = Some (map (\<lambda>a. (a, sz)) (drop k as))"
    using assms(2-5) by (intro fill_remote_fits) simp_all
  obtain n err data where v: "vm pid (map (\<lambda>a. (a, sz)) (drop k as)) = (n, err, data)"
    by (cases "vm pid (map (\<lambda>a. (a, sz)) (drop k as))")
  note vm = vm_values [OF assms(1) _ _ assms(3) v, folded w_def]
  have ne: "drop k as \<noteq> []" "length (drop k as) \<le> IOV_MAX" using assms(2,5) by simp_all
  have data: "length data \<le> (length as - k) * sz" "w * sz \<le> length data"
    "\<forall>i < w. chunk sz i data = value_at mem sz (as ! (k + i))"
    using vm [OF ne] assms(5) by simp_all
  have w: "k + w \<le> length as" using whole_values_length [of mem sz "drop k as"] assms(5) by (simp add: w_def)
  have pos: "go_div n (int sz) = int w" "\<not> (err \<noteq> None \<and> err \<noteq> Some EFAULT \<and> n = 0)"
  proof -
    have "2 \<le> sz" if "w = 0"
      using assms(5,6) that whole_values_stop [of mem sz "drop k as"] by (auto simp: w_def)
    then have "go_div (- 1) (int sz) = 0" if "w = 0"
      using that by (simp add: go_div_def)
    with vm [OF ne] show "go_div n (int sz) = int w" "\<not> (err \<noteq> None \<and> err \<noteq> Some EFAULT \<and> n = 0)" by auto
  qed
  have room: "k * sz + length data \<le> length buf" "k * sz \<le> length buf"
  proof -
    have "k * sz + (length as - k) * sz = length as * sz"
      using assms(5) by (simp add: diff_mult_distrib)
    with data(1) assms(4) show "k * sz + length data \<le> length buf" by linarith
    then show "k * sz \<le> length buf" by linarith
  qed
  define b1 where "b1 = copy_at buf (k * sz) data"
  have b1: "length b1 = length buf" "values_read mem sz d as k buf \<Longrightarrow> values_read mem sz d as (k + w) b1"
  proof -
    show "length b1 = length buf" using room by (simp add: b1_def length_copy_at)
    show "values_read mem sz d as (k + w) b1" if before: "values_read mem sz d as k buf"
      unfolding values_read_def
    proof (intro allI impI)
      fix j assume j: "j < k + w"
      show "if value_readable mem sz (as ! j) then chunk sz j b1 = value_at mem sz (as ! j)
          else (\<exists>rest. chunk sz j b1 = d # rest)"
      proof (cases "j < k")
        case True
        with before chunk_copy_before [OF True room(2)] show ?thesis by (simp add: values_read_def b1_def)
      next
        case False
        then obtain i where i: "j = k + i" "i < w" using j by (metis add_less_cancel_left le_Suc_ex not_less)
        have "Suc i * sz \<le> w * sz" using i(2) by (intro mult_le_mono1) simp
        with data(2) have "i * sz + sz \<le> length data" by simp
        from chunk_copy_inside [OF this room(1)] data(3) i have "chunk sz j b1 = value_at mem sz (as ! j)"
          by (simp add: b1_def)
        moreover have "value_readable mem sz (as ! j)"
          using whole_values_good [of i mem sz "drop k as"] i w by (simp add: w_def)
        ultimately show ?thesis by simp
      qed
    qed
  qed
  have kw: "int k + int w = int (k + w)" "nat (int k * int sz) = k * sz" "int k < int (length as)"
    using assms(5) by (simp_all add: nat_mult_distrib)
  show ?thesis
  proof (cases "k + w < length as")
    case False
    with w have all: "k + w = length as" by simp
    have "readValuesRaw_loop vm pid as (int sz) d (int k) buf = readValuesRaw_loop vm pid as (int sz) d (int (k + w)) b1"
      using kw(3) by (subst readValuesRaw_loop.simps)
        (simp only: Let_def if_True fill v prod.case bind.bind_lunit pos kw(1,2) b1_def [symmetric] all less_irrefl
          if_False if_cancel)
    with all b1 assms(5) w show ?thesis
      by (intro exI [of _ "k + w"] exI [of _ b1]) (simp flip: w_def)
  next
    case True
    define b2 where "b2 = b1[(k + w) * sz := d]"
    have lt: "(k + w) * sz < length b1"
      using chunk_room [OF True assms(4)] assms(3) b1(1) by simp
    have idx: "index b1 (int (k + w) * int sz) = Some (b1 ! ((k + w) * sz))" "nat (int (k + w) * int sz) = (k + w) * sz"
      using lt by (simp_all add: index_def nat_mult_distrib nat_add_distrib flip: of_nat_mult of_nat_add)
    have tr: "int (k + w) < int (length as)" using True by simp
    have "readValuesRaw_loop vm pid as (int sz) d (int k) buf = readValuesRaw_loop vm pid as (int sz) d (int (k + w) + 1) b2"
      using kw(3) by (subst readValuesRaw_loop.simps)
        (simp only: Let_def if_True fill v prod.case bind.bind_lunit pos kw(1,2) b1_def [symmetric] tr idx
          b2_def [symmetric] if_False)
    then have "readValuesRaw_loop vm pid as (int sz) d (int k) buf = readValuesRaw_loop vm pid as (int sz) d (int (k + w + 1)) b2"
      by (simp add: add.commute)
    moreover have "values_read mem sz d as (k + w + 1) b2" if before: "values_read mem sz d as k buf"
      unfolding values_read_def
    proof (intro allI impI)
      fix j assume "j < k + w + 1"
      then consider "j < k + w" | "j = k + w" by linarith
      then show "if value_readable mem sz (as ! j) then chunk sz j b2 = value_at mem sz (as ! j)
          else (\<exists>rest. chunk sz j b2 = d # rest)"
      proof cases
        case 1
        with b1(2) [OF before] chunk_update_other [of "k + w" j sz b1 d] assms(3) show ?thesis
          by (simp add: values_read_def b2_def)
      next
        case 2
        have "\<not> value_readable mem sz (as ! j)"
          using whole_values_stop [of mem sz "drop k as"] True 2 by (simp add: w_def)
        with chunk_update_same [OF assms(3) lt] 2 show ?thesis by (simp add: b2_def)
      qed
    qed
    ultimately show ?thesis
      using True b1(1) by (intro exI [of _ "k + w + 1"] exI [of _ b2]) (simp add: b2_def flip: w_def)
  qed
qed

lemma readValuesRaw_loop_reads:
  assumes "reads_memory vm pid mem" "length as \<le> IOV_MAX" "2 \<le> sz" "length as * sz \<le> length buf" "k \<le> length as"
    and "values_read mem sz d as k buf"
  shows "\<exists>buf'. readValuesRaw_loop vm pid as (int sz) d (int k) buf = Some buf' \<and> length buf' = length buf \<and>
    values_read mem sz d as (length as) buf'"
  using assms(4-)
proof (induction "length as - k" arbitrary: k buf rule: less_induct)
  case less
  show ?case
  proof (cases "k < length as")
    case True
    have "0 < sz" using assms(3) by simp
    from readValuesRaw_step [OF assms(1,2) this less.prems(1) True, of d] assms(3) less.prems(3) obtain k' buf'
      where s: "readValuesRaw_loop vm pid as (int sz) d (int k) buf = readValuesRaw_loop vm pid as (int sz) d (int k') buf'"
        "k < k'" "k' \<le> length as" "length buf' = length buf" "values_read mem sz d as k' buf'"
      by blast
    with less.hyps [of k' buf'] less.prems(1) True show ?thesis by simp
  next
    case False
    with less.prems show ?thesis by (subst readValuesRaw_loop.simps) simp
  qed
qed

lemma readValuesRaw_total:
  assumes "reads_memory vm pid mem" "length as \<le> IOV_MAX" "2 \<le> sz" "length as * sz \<le> length buf"
  shows "\<exists>buf'. readValuesRaw vm pid as (int sz) d buf = Some buf' \<and> length buf' = length buf \<and>
    values_read mem sz d as (length as) buf'"
proof (cases "as = []")
  case True
  with assms(3) show ?thesis by (simp add: readValuesRaw_def values_read_def)
next
  case False
  with readValuesRaw_loop_reads [OF assms, of 0 d] assms(3) show ?thesis
    by (simp add: readValuesRaw_def values_read_def)
qed

text \<open>
  C31: for values of at least two bytes at up to \<open>IOV_MAX\<close> addresses, \<open>readValuesRaw\<close> returns whatever of them
  can be read; each readable value is in its place in the buffer, and the place of each other one
  starts with the disturbing byte.
\<close>

theorem readValuesRaw_reads:
  assumes "reads_memory vm pid mem" "length as \<le> IOV_MAX" "2 \<le> sz" "length as * sz \<le> length buf"
  shows "\<exists>buf'. readValuesRaw vm pid as (int sz) d buf = Some buf' \<and> length buf' = length buf \<and>
    values_read mem sz d as (length as) buf'"
  by (rule readValuesRaw_total [OF assms])

theorem readValuesRaw_reads_witness:
  "\<exists>buf' rest. readValuesRaw (sim_readv (\<lambda>a. if a < 0x1004 then Some 7 else None)) 1 [0x2000, 0x1000] 2 9 [0, 0, 0, 0] =
     Some buf' \<and> chunk 2 0 buf' = 9 # rest \<and> chunk 2 1 buf' = [7, 7]"
proof -
  define mem :: memory where "mem = (\<lambda>a. if a < 0x1004 then Some 7 else None)"
  have "\<not> value_readable mem 2 0x2000" "value_readable mem 2 0x1000" "value_at mem 2 0x1000 = [7, 7]"
    by (auto simp: mem_def value_readable_def value_at_def contents_at_def readable_def iov_addrs_def list_all_iff upt_rec)
  moreover obtain buf' where
    "readValuesRaw (sim_readv mem) 1 [0x2000, 0x1000] 2 9 [0, 0, 0, 0] = Some buf'"
    "values_read mem 2 9 [0x2000, 0x1000] 2 buf'"
    using readValuesRaw_reads [OF sim_readv_reads, of "[0x2000, 0x1000]" 2 "[0, 0, 0, 0]" mem 1 9]
    by (auto simp: IOV_MAX_def numeral_2_eq_2)
  ultimately show ?thesis
    unfolding mem_def [symmetric] by (fastforce simp: values_read_def All_less_Suc numeral_2_eq_2)
qed

end
