(* ===== verification/Byte_Values.thy ===== *)
theory Byte_Values
  imports Vector_IO
begin

section \<open>Values of one byte\<close>

text \<open>
  For values of one byte the \<open>-1\<close> of a failed call counts as a value read: the position moves
  back by one, and forward again.
\<close>

lemma minus_one: "go_div (- 1) 1 = - 1"
  by (simp add: go_div_def)

lemma value_readable_byte [simp]:
  "value_readable mem 1 a \<longleftrightarrow> mem a \<noteq> None" "value_readable mem (Suc 0) a \<longleftrightarrow> mem a \<noteq> None"
  by (simp_all add: value_readable_def readable_def iov_addrs_def)

lemma failed_read:
  assumes "reads_memory vm pid mem" "length as \<le> IOV_MAX" "k < length as" "mem (as ! k) = None"
  shows "vm pid (map (\<lambda>a. (a, 1)) (drop k as)) = (-1, Some EFAULT, [])"
proof -
  obtain n err data where v: "vm pid (map (\<lambda>a. (a, 1)) (drop k as)) = (n, err, data)"
    by (cases "vm pid (map (\<lambda>a. (a, 1)) (drop k as))")
  have "whole_values mem 1 (drop k as) = 0"
    using assms(3,4) by (simp add: whole_values_def flip: Cons_nth_drop_Suc)
  moreover have "go_div n 1 = n" by (simp add: go_div_def sgn_if abs_if)
  moreover have "length (drop k as) \<le> IOV_MAX" "drop k as \<noteq> []" using assms(2,3) by simp_all
  ultimately show ?thesis
    using vm_values [OF assms(1) _ _ _ v] by (auto simp: v simp del: One_nat_def)
qed

lemma readValuesRaw_first_panics:
  assumes "reads_memory vm pid mem" "length as \<le> IOV_MAX" "length as \<le> length buf" "as \<noteq> []" "mem (as ! 0) = None"
  shows "readValuesRaw_loop vm pid as 1 d 0 buf = None"
proof -
  have "fill_remote as (int 1) (int 0) buf = Some (map (\<lambda>a. (a, 1)) (drop 0 as))"
    using assms(2,3) by (intro fill_remote_fits) simp_all
  with failed_read [OF assms(1,2), of 0] assms(4,5) show ?thesis
    by (subst readValuesRaw_loop.simps) (simp add: minus_one index_def copy_at_def Let_def)
qed

text \<open>Behind the first address the same call is made for ever.\<close>

lemma readValuesRaw_stuck:
  assumes "reads_memory vm pid mem" "length as \<le> IOV_MAX" "0 < k" "k < length as" "mem (as ! k) = None"
    and "length as \<le> length buf"
  shows "readValuesRaw_loop vm pid as 1 d (int k) buf = None"
proof (rule ccontr)
  assume "readValuesRaw_loop vm pid as 1 d (int k) buf \<noteq> None"
  then obtain res where res: "readValuesRaw_loop vm pid as 1 d (int k) buf = Some res" by auto
  define P where "P vm' pid' as' sz' d' pos buf (res :: bytes) \<longleftrightarrow>
    \<not> (vm' = vm \<and> pid' = pid \<and> as' = as \<and> sz' = 1 \<and> pos = int k \<and> length as \<le> length buf)"
    for vm' pid' as' and sz' pos :: int and d' :: u8 and buf :: bytes and res
  have "P vm pid as 1 d (int k) buf res"
  proof (rule readValuesRaw_loop.raw_induct [where P = P, OF _ res])
    fix f vm' pid' as' sz' d' pos and buf res :: bytes
    assume IH: "\<And>pid' as' sz' d' pos buf b res. f pid' as' sz' d' pos buf b = Some res \<Longrightarrow> P pid' as' sz' d' pos buf b res"
      and body: "(let n = int (length as')
      in if pos < n
         then fill_remote as' sz' pos buf \<bind>
              (\<lambda>remote.
                  let (nRead, err, data) = vm' pid' remote;
                      buf = copy_at buf (nat (pos * sz')) data;
                      pos = pos + go_div nRead sz'
                  in (if pos < n
                      then let offset = pos * sz'
                           in index buf offset \<bind>
                              (\<lambda>old. Some (pos + 1, buf[nat offset := d']))
                      else Some (pos, buf)) \<bind>
                     (\<lambda>(pos, buf).
                         if err \<noteq> None \<and> err \<noteq> Some EFAULT \<and> nRead = 0
                         then Some buf
                         else f vm' pid' as' sz' d' pos buf))
         else Some buf) = Some res"
    show "P vm' pid' as' sz' d' pos buf res"
    proof (rule ccontr)
      assume "\<not> P vm' pid' as' sz' d' pos buf res"
      then have e: "vm' = vm" "pid' = pid" "as' = as" "sz' = 1" "pos = int k" and len: "length as \<le> length buf"
        by (simp_all add: P_def)
      have "fill_remote as (int 1) (int k) buf = Some (map (\<lambda>a. (a, 1)) (drop k as))"
        using assms(2,4) len by (intro fill_remote_fits) simp_all
      moreover have "int k - 1 < int (length as)" "0 \<le> int k - 1" "int k - 1 < int (length buf)"
        using assms(3,4) len by auto
      moreover have "copy_at buf (nat (int k)) [] = buf" by (simp add: copy_at_def)
      ultimately have "f vm pid as 1 d' (int k) (buf[nat (int k - 1) := d']) = Some res"
        using body failed_read [OF assms(1,2,4,5)] assms(4) unfolding e
        by (simp add: minus_one index_def Let_def)
      from IH [OF this] len show False by (simp add: P_def)
    qed
  qed
  with assms(6) show False by (simp add: P_def)
qed

definition no_gap_pair :: "memory \<Rightarrow> u64 list \<Rightarrow> nat \<Rightarrow> bool" where
  "no_gap_pair mem as k \<longleftrightarrow> (\<forall>i \<ge> k. Suc i < length as \<longrightarrow> mem (as ! i) \<noteq> None \<or> mem (as ! Suc i) \<noteq> None)"

lemma readValuesRaw_loop_returns:
  assumes "reads_memory vm pid mem" "length as \<le> IOV_MAX" "length as \<le> length buf"
  shows "readValuesRaw_loop vm pid as 1 d (int k) buf \<noteq> None \<longleftrightarrow>
    length as \<le> k \<or> mem (as ! k) \<noteq> None \<and> no_gap_pair mem as k"
  using assms(3)
proof (induction "length as - k" arbitrary: k buf rule: less_induct)
  case less
  consider "length as \<le> k" | "k < length as" "mem (as ! k) = None" | "k < length as" "mem (as ! k) \<noteq> None"
    by linarith
  then show ?case
  proof cases
    case 1
    then show ?thesis by (subst readValuesRaw_loop.simps) simp
  next
    case 2
    with readValuesRaw_first_panics [OF assms(1,2) less.prems] readValuesRaw_stuck [OF assms(1,2) _ 2 less.prems]
    show ?thesis by (cases k) auto
  next
    case 3
    define w where "w = whole_values mem 1 (drop k as)"
    have w: "0 < w" "k + w \<le> length as"
      using 3 whole_values_length [of mem 1 "drop k as"]
      by (simp_all add: w_def whole_values_def flip: Cons_nth_drop_Suc)
    have good: "mem (as ! i) \<noteq> None" if "k \<le> i" "i < k + w" for i
      using whole_values_good [of "i - k" mem 1 "drop k as"] that w(2)
      by (simp add: w_def)
    have stop: "mem (as ! (k + w)) = None" if "k + w < length as"
      using whole_values_stop [of mem 1 "drop k as"] that 3(1) by (simp add: w_def)
    from readValuesRaw_step [OF assms(1,2) _ _ 3(1), of 1 buf d] 3(2) less.prems obtain k' buf' where s:
      "readValuesRaw_loop vm pid as 1 d (int k) buf = readValuesRaw_loop vm pid as 1 d (int k') buf'"
      "k < k'" "length buf' = length buf" "k' = min (length as) (k + w + 1)"
      by (auto simp: w_def)
    have "readValuesRaw_loop vm pid as 1 d (int k) buf \<noteq> None \<longleftrightarrow>
        length as \<le> k' \<or> mem (as ! k') \<noteq> None \<and> no_gap_pair mem as k'"
      using less.hyps [of k' buf'] s(1-3) less.prems 3(1) by simp
    also have "\<dots> \<longleftrightarrow> no_gap_pair mem as k"
    proof (cases "length as \<le> k'")
      case True
      then have "\<And>i. k \<le> i \<Longrightarrow> Suc i < length as \<Longrightarrow> i < k + w" using s(4) by auto
      with good True show ?thesis by (auto simp: no_gap_pair_def)
    next
      case False
      then have k': "k' = Suc (k + w)" "k + w < length as" "k' < length as" using s(4) by auto
      show ?thesis
      proof
        assume R: "length as \<le> k' \<or> mem (as ! k') \<noteq> None \<and> no_gap_pair mem as k'"
        show "no_gap_pair mem as k"
          unfolding no_gap_pair_def
        proof (intro allI impI)
          fix i assume i: "k \<le> i" "Suc i < length as"
          consider "i < k + w" | "i = k + w" | "k' \<le> i" using k'(1) by linarith
          then show "mem (as ! i) \<noteq> None \<or> mem (as ! Suc i) \<noteq> None"
          proof cases
            case 1 with good i show ?thesis by blast
          next
            case 2 with R False k'(1) show ?thesis by simp
          next
            case 3 with R False i show ?thesis by (auto simp: no_gap_pair_def)
          qed
        qed
      next
        assume G: "no_gap_pair mem as k"
        then have "no_gap_pair mem as k'"
          using s(2) by (simp add: no_gap_pair_def)
        moreover have "mem (as ! k') \<noteq> None"
          using G [unfolded no_gap_pair_def, rule_format, of "k + w"] stop [OF k'(2)] k'(1,3) by simp
        ultimately show "length as \<le> k' \<or> mem (as ! k') \<noteq> None \<and> no_gap_pair mem as k'"
          by simp
      qed
    qed
    finally show ?thesis using 3 by simp
  qed
qed

text \<open>
  C38: for values of one byte \<open>readValuesRaw\<close> returns exactly when the first address can be read and no two
  neighbouring ones cannot: before the first address it panics, behind it it never comes back.
\<close>

theorem readValuesRaw_byte_returns:
  assumes "reads_memory vm pid mem" "as \<noteq> []" "length as \<le> IOV_MAX" "length as \<le> length buf"
  shows "readValuesRaw vm pid as 1 d buf \<noteq> None \<longleftrightarrow> mem (as ! 0) \<noteq> None \<and> no_gap_pair mem as 0"
  using readValuesRaw_loop_returns [OF assms(1,3,4), of d 0] assms(2) by (simp add: readValuesRaw_def)

theorem readValuesRaw_byte_returns_witness:
  "readValuesRaw (sim_readv (\<lambda>a. if a < 0x1004 then Some 7 else None)) 1 [0x1000, 0x2000, 0x2001] 1 9 [0, 0, 0] = None"
  using readValuesRaw_byte_returns [OF sim_readv_reads, of "[0x1000, 0x2000, 0x2001]" "[0, 0, 0]"
      "\<lambda>a. if a < 0x1004 then Some 7 else None" 1 9]
  by (force simp: IOV_MAX_def no_gap_pair_def)

end
