(* ===== verification/Write_Values.thy ===== *)
theory Write_Values
  imports Byte_Values Value
begin

text \<open>
  Writing a value to many addresses (\<^verbatim>\<open>writeValues\<close> of \<^verbatim>\<open>memscan.go\<close>). The system call \<^verbatim>\<open>process_vm_writev\<close> is a
  parameter: from the process, the remote ranges, the local bytes and the memory of the process it
  gives its return value, the error and the memory afterwards.
\<close>

type_synonym vm_writev = "int \<Rightarrow> iovec list \<Rightarrow> bytes \<Rightarrow> memory \<Rightarrow> (int \<times> errno option) \<times> memory"

definition write_bytes :: "u64 list \<Rightarrow> bytes \<Rightarrow> memory \<Rightarrow> memory" where
  "write_bytes addrs data mem = fold (\<lambda>(a, b) m. m(a := Some b)) (zip addrs data) mem"

text \<open>
  What the manual page of \<^verbatim>\<open>process_vm_writev(2)\<close> says of a call with at most 1024 ranges, the writable addresses
  given: everything writable is written in the order of the ranges and the result is the number of
  bytes; a transfer stops at the first byte that is not writable, but not before the end of the last
  whole range; and when nothing of the first range can be written the call returns \<open>-1\<close> with \<open>EFAULT\<close>.
\<close>

definition writes_memory :: "vm_writev \<Rightarrow> int \<Rightarrow> (u64 \<Rightarrow> bool) \<Rightarrow> bool" where
  "writes_memory vm pid writable \<longleftrightarrow>
     (\<forall>iovs data mem. length iovs \<le> 1024 \<longrightarrow> iovs_addrs iovs \<noteq> [] \<longrightarrow> length data = length (iovs_addrs iovs) \<longrightarrow>
        (let addrs = iovs_addrs iovs;
             whole = iovs_addrs (takeWhile (\<lambda>iov. list_all writable (iov_addrs iov)) iovs) in
         case vm pid iovs data mem of ((n, err), mem') \<Rightarrow>
           (n = -1 \<and> err = Some EFAULT \<and> mem' = mem \<and> whole = [] \<and> \<not> list_all writable addrs) \<or>
           (0 < n \<and> err = None \<and> n \<le> int (length addrs) \<and> int (length whole) \<le> n \<and>
            list_all writable (take (nat n) addrs) \<and>
            mem' = write_bytes (take (nat n) addrs) (take (nat n) data) mem)))"

definition sim_writev :: "(u64 \<Rightarrow> bool) \<Rightarrow> vm_writev" where
  "sim_writev writable pid iovs data mem =
     (let addrs = takeWhile writable (iovs_addrs iovs) in
      if addrs = [] then ((-1, Some EFAULT), mem)
      else ((int (length addrs), None), write_bytes addrs (take (length addrs) data) mem))"

definition fill_write :: "u64 list \<Rightarrow> nat \<Rightarrow> int \<Rightarrow> iovec list go" where
  "fill_write addresses sz currentPos =
     go_fold (\<lambda>i remote.
         if IOV_MAX \<le> i then None
         else do { a \<leftarrow> index addresses (currentPos + int i); Some (remote @ [(a, sz)]) })
       [0..<nat (int (length addresses) - currentPos)] []"

text \<open>Each local range is the value's buffer, so the bytes of the call are copies of it.\<close>

partial_function (option) writeValues_loop ::
  "vm_writev \<Rightarrow> int \<Rightarrow> u64 list \<Rightarrow> nat \<Rightarrow> bytes \<Rightarrow> int \<Rightarrow> int \<Rightarrow> errno option \<Rightarrow> memory \<Rightarrow>
   ((int \<times> errno option) \<times> memory) go" where
  "writeValues_loop vm pid addresses sz rawData currentPos totalWritten lastErr mem =
     (let n = int (length addresses) in
      if currentPos < n then do {
        remote \<leftarrow> fill_write addresses sz currentPos;
        let ((nWrite, err), mem) = vm pid remote (concat (replicate (length remote) (take sz rawData))) mem;
        let totalWritten = totalWritten + nWrite;
        let currentPos = currentPos + go_div nWrite (int sz);
        if currentPos < n then
          if err \<noteq> None \<and> err \<noteq> Some EFAULT \<and> nWrite = 0 then Some ((totalWritten, err), mem)
          else writeValues_loop vm pid addresses sz rawData (currentPos + 1) totalWritten err mem
        else writeValues_loop vm pid addresses sz rawData currentPos totalWritten lastErr mem
      }
      else Some ((totalWritten, lastErr), mem))"

definition writeValues ::
  "vm_writev \<Rightarrow> int \<Rightarrow> u64 list \<Rightarrow> Value \<Rightarrow> memory \<Rightarrow> ((int \<times> errno option) \<times> memory) go" where
  "writeValues vm pid addresses value mem =
     (let n = length addresses; sz = Value_Size value in
      if n = 0 \<or> sz = 0 then Some ((0, None), mem)
      else do {
        base \<leftarrow> index (v_data value) 0;
        writeValues_loop vm pid addresses sz (v_data value) 0 0 None mem
      })"

section \<open>What a call writes\<close>

lemma fill_write_fits:
  assumes "k \<le> length addresses" "length addresses - k \<le> IOV_MAX"
  shows "fill_write addresses sz (int k) = Some (map (\<lambda>a. (a, sz)) (drop k addresses))"
proof -
  have n: "nat (int (length addresses) - int k) = length addresses - k" by simp
  define f where "f i = (if IOV_MAX \<le> i then None
      else do { a \<leftarrow> index addresses (int k + int i); Some (a, sz) })" for i
  have f: "f i = Some (addresses ! (k + i), sz)" if "i < length addresses - k" for i
    using that assms(2) by (simp add: f_def index_def nat_add_distrib)
  have "fill_write addresses sz (int k) =
      go_fold (\<lambda>i acc. do { y \<leftarrow> f i; Some (acc @ [y]) }) [0..<length addresses - k] []"
    unfolding fill_write_def n f_def
    by (rule arg_cong [where f = "\<lambda>h. go_fold h [0..<length addresses - k] []"])
      (auto simp: fun_eq_iff split: Option.bind_splits)
  also have "\<dots> = Some (map (the \<circ> f) [0..<length addresses - k])"
    using go_fold_append_map [of "[0..<length addresses - k]" f "[]"] f by simp
  also have "map (the \<circ> f) [0..<length addresses - k] = map (\<lambda>a. (a, sz)) (drop k addresses)"
    using f assms(1) by (intro nth_equalityI) simp_all
  finally show ?thesis .
qed

text \<open>More addresses than entries: the program panics filling the arrays.\<close>

lemma fill_write_overflow:
  assumes "IOV_MAX < length addresses"
  shows "fill_write addresses sz 0 = None"
proof -
  have none: "go_fold (\<lambda>i remote. if IOV_MAX \<le> i then None
      else do { a \<leftarrow> index addresses (0 + int i); Some (remote @ [(a, sz)]) }) is acc = None"
    if "IOV_MAX \<in> set is" for "is" acc
    using that by (induction "is" arbitrary: acc) (auto split: Option.bind_splits)
  show ?thesis
    unfolding fill_write_def by (rule none) (use assms in simp)
qed

definition value_writable :: "(u64 \<Rightarrow> bool) \<Rightarrow> nat \<Rightarrow> u64 \<Rightarrow> bool" where
  "value_writable writable sz a \<longleftrightarrow> list_all writable (iov_addrs (a, sz))"

text \<open>The leading values that are writable as a whole, by the lemmas for readable ones.\<close>

definition perm_map :: "(u64 \<Rightarrow> bool) \<Rightarrow> memory" where
  "perm_map writable a = (if writable a then Some 0 else None)"

lemma readable_perm_map: "readable (perm_map writable) addrs \<longleftrightarrow> list_all writable addrs"
  by (simp add: readable_def perm_map_def)

lemma value_readable_perm_map: "value_readable (perm_map writable) sz = value_writable writable sz"
  by (simp add: fun_eq_iff value_readable_def value_writable_def readable_perm_map)

definition write_value :: "(u64 \<Rightarrow> bool) \<Rightarrow> bytes \<Rightarrow> u64 \<Rightarrow> memory \<Rightarrow> memory" where
  "write_value writable data a mem =
     (if value_writable writable (length data) a then write_bytes (iov_addrs (a, length data)) data mem else mem)"

lemma write_bytes_append:
  "length addrs = length data \<Longrightarrow> write_bytes (addrs @ addrs') (data @ data') mem =
    write_bytes addrs' data' (write_bytes addrs data mem)"
  by (simp add: write_bytes_def)

lemma write_bytes_values:
  assumes "\<forall>a \<in> set as. value_writable writable (length data) a"
  shows "write_bytes (iovs_addrs (map (\<lambda>a. (a, length data)) as)) (concat (replicate (length as) data)) mem =
    fold (write_value writable data) as mem"
  using assms
proof (induction as arbitrary: mem)
  case (Cons a as)
  have "write_bytes (iovs_addrs (map (\<lambda>a. (a, length data)) (a # as))) (concat (replicate (length (a # as)) data)) mem =
      write_bytes (iov_addrs (a, length data) @ iovs_addrs (map (\<lambda>a. (a, length data)) as))
        (data @ concat (replicate (length as) data)) mem"
    by (simp add: iovs_addrs_def)
  also have "\<dots> = write_bytes (iovs_addrs (map (\<lambda>a. (a, length data)) as)) (concat (replicate (length as) data))
      (write_bytes (iov_addrs (a, length data)) data mem)"
    by (rule write_bytes_append) simp
  also have "\<dots> = fold (write_value writable data) (a # as) mem"
    using Cons by (simp add: write_value_def [of writable data a])
  finally show ?case .
qed (simp add: write_bytes_def iovs_addrs_def)

text \<open>Addresses at which a value can be written as a whole or not even its first byte can.\<close>

definition clean :: "(u64 \<Rightarrow> bool) \<Rightarrow> nat \<Rightarrow> u64 list \<Rightarrow> bool" where
  "clean writable sz as \<longleftrightarrow> list_all (\<lambda>a. value_writable writable sz a \<or> \<not> writable a) as"

lemma clean_nth: "clean writable sz as \<Longrightarrow> i < length as \<Longrightarrow> value_writable writable sz (as ! i) \<or> \<not> writable (as ! i)"
  by (auto simp: clean_def list_all_length)

lemma clean_drop: "clean writable sz as \<Longrightarrow> clean writable sz (drop k as)"
  by (auto simp: clean_def list_all_iff dest: in_set_dropD)

lemma clean_byte: "clean writable 1 as"
  by (simp add: clean_def value_writable_def iov_addrs_def list_all_iff)

lemma take_values: "take (w * sz) (iovs_addrs (map (\<lambda>a. (a, sz)) as)) = iovs_addrs (map (\<lambda>a. (a, sz)) (take w as))"
proof (induction as arbitrary: w)
  case (Cons a as)
  then show ?case by (cases w) (simp_all add: iovs_addrs_def)
qed (simp add: iovs_addrs_def)

lemma take_copies: "w \<le> n \<Longrightarrow> take (w * length xs) (concat (replicate n xs)) = concat (replicate w xs)"
proof (induction n arbitrary: w)
  case (Suc n)
  then show ?case by (cases w) simp_all
qed simp

lemma length_copies: "length (concat (replicate n xs)) = n * length xs"
  by (induction n) simp_all

lemma vm_writes_values:
  assumes "writes_memory vm pid writable" "as \<noteq> []" "length as \<le> IOV_MAX" "data \<noteq> []"
    and "clean writable (length data) as"
    and "w = whole_values (perm_map writable) (length data) as"
  shows "vm pid (map (\<lambda>a. (a, length data)) as) (concat (replicate (length as) data)) mem =
    (if w = 0 then ((-1, Some EFAULT), mem)
     else ((int (w * length data), None), fold (write_value writable data) (take w as) mem))"
proof -
  define sz where "sz = length data"
  define iovs where "iovs = map (\<lambda>a. (a, sz)) as"
  define bytes where "bytes = concat (replicate (length as) data)"
  have sz: "0 < sz" using assms(4) by (simp add: sz_def)
  have len: "length (iovs_addrs iovs) = length as * sz" "length iovs \<le> 1024" "length bytes = length as * sz"
    using assms(3) by (simp_all add: iovs_def iovs_addrs_values IOV_MAX_def bytes_def length_copies sz_def)
  have ne: "iovs_addrs iovs \<noteq> []"
    using len(1) assms(2) sz by (metis length_0_conv mult_is_0 less_not_refl)
  have w: "w \<le> length as" using assms(6) by (simp add: whole_values_length)
  have whole: "length (iovs_addrs (takeWhile (\<lambda>iov. list_all writable (iov_addrs iov)) iovs)) = w * sz"
    using whole_iovs_values [of "perm_map writable" sz as]
    by (simp add: whole_iovs_def readable_perm_map iovs_def assms(6) sz_def)
  obtain n err mem' where v: "vm pid iovs bytes mem = ((n, err), mem')"
    by (metis surj_pair)
  have cases: "(n = -1 \<and> err = Some EFAULT \<and> mem' = mem \<and> w = 0) \<or>
      (0 < n \<and> err = None \<and> n \<le> int (length as * sz) \<and> int (w * sz) \<le> n \<and>
       list_all writable (take (nat n) (iovs_addrs iovs)) \<and>
       mem' = write_bytes (take (nat n) (iovs_addrs iovs)) (take (nat n) bytes) mem)"
    using assms(1) [unfolded writes_memory_def, rule_format, OF len(2) ne, of bytes mem] v len whole sz
    by (auto simp: Let_def)
  have "n = int (w * sz)" if "0 < n"
  proof -
    have n: "n \<le> int (length as * sz)" "int (w * sz) \<le> n" "list_all writable (take (nat n) (iovs_addrs iovs))"
      using cases that by auto
    have "nat n \<le> w * sz"
    proof (cases "w < length as")
      case True
      have "\<not> value_writable writable sz (as ! w)"
        using whole_values_stop [of "perm_map writable" sz as] True assms(6)
        by (simp add: value_readable_perm_map sz_def)
      with clean_nth [OF assms(5) True] have "\<not> writable (as ! w)" by (simp add: sz_def)
      moreover have "iovs_addrs iovs ! (w * sz) = as ! w"
      proof -
        have "chunk sz w (iovs_addrs iovs) = iov_addrs (as ! w, sz)"
          using chunk_iovs [OF True] by (simp add: iovs_def)
        from arg_cong [OF this, of "\<lambda>xs. xs ! 0"] show ?thesis
          using sz len(1) True by (simp add: chunk_def)
      qed
      moreover have "w * sz < length as * sz" using True sz by simp
      moreover have "\<forall>i. i < length as * sz \<and> i < nat n \<longrightarrow> writable (iovs_addrs iovs ! i)"
        using n(3) len(1) by (simp add: list_all_length)
      ultimately show ?thesis by (metis not_le)
    next
      case False
      with w n(1) show ?thesis by (simp add: nat_le_iff)
    qed
    with n(2) that show ?thesis by linarith
  qed
  moreover have "fold (write_value writable data) (take w as) mem =
      write_bytes (take (w * sz) (iovs_addrs iovs)) (take (w * sz) bytes) mem"
  proof -
    have "\<forall>a \<in> set (take w as). value_writable writable (length data) a"
      using whole_values_good [of _ "perm_map writable" sz as] w assms(6)
      by (auto simp: in_set_conv_nth value_readable_perm_map sz_def)
    from write_bytes_values [OF this, of mem] w show ?thesis
      by (simp add: iovs_def take_values bytes_def take_copies sz_def)
  qed
  ultimately show ?thesis
    using cases v sz w unfolding sz_def [symmetric] iovs_def [symmetric] bytes_def [symmetric]
    by (auto simp: nat_mult_distrib)
qed

section \<open>The loop\<close>

lemma writeValues_step:
  assumes "writes_memory vm pid writable" "length as \<le> IOV_MAX" "data \<noteq> []" "clean writable (length data) as"
    and "k < length as" "w = whole_values (perm_map writable) (length data) (drop k as)" "2 \<le> length data \<or> 0 < w"
  shows "\<exists>tot' err'. writeValues_loop vm pid as (length data) data (int k) tot err mem =
      writeValues_loop vm pid as (length data) data (int (min (length as) (k + w + 1))) tot' err'
        (fold (write_value writable data) (take (w + 1) (drop k as)) mem)"
proof -
  have fill: "fill_write as (length data) (int k) = Some (map (\<lambda>a. (a, length data)) (drop k as))"
    using assms(2,5) by (intro fill_write_fits) simp_all
  define n where "n = (if w = 0 then - 1 else int (w * length data))"
  define e where "e = (if w = 0 then Some EFAULT else None)"
  define mem' where "mem' = fold (write_value writable data) (take w (drop k as)) mem"
  have v: "vm pid (map (\<lambda>a. (a, length data)) (drop k as))
      (concat (replicate (length (map (\<lambda>a. (a, length data)) (drop k as))) (take (length data) data))) mem = ((n, e), mem')"
    using vm_writes_values [OF assms(1) _ _ assms(3) clean_drop [OF assms(4)] assms(6), of mem] assms(2,5)
    by (auto simp: n_def e_def mem'_def)
  have w: "k + w \<le> length as" using whole_values_length [of "perm_map writable" "length data" "drop k as"] assms(5,6) by simp
  have "0 < length data" using assms(3) by simp
  moreover have "go_div (- 1) (int (length data)) = 0" if "w = 0"
    using assms(7) that by (simp add: go_div_def)
  ultimately have pos: "go_div n (int (length data)) = int w" "\<not> (e \<noteq> None \<and> e \<noteq> Some EFAULT \<and> n = 0)"
    by (auto simp: n_def e_def go_div_nonneg)
  have le: "int k < int (length as)" using assms(5) by simp
  show ?thesis
  proof (cases "k + w < length as")
    case True
    have "take (w + 1) (drop k as) = take w (drop k as) @ [as ! (k + w)]"
      using True by (simp add: take_Suc_conv_app_nth add.commute)
    moreover have "\<not> value_writable writable (length data) (as ! (k + w))"
      using whole_values_stop [of "perm_map writable" "length data" "drop k as"] True assms(6)
      by (simp add: value_readable_perm_map)
    ultimately have same: "fold (write_value writable data) (take (w + 1) (drop k as)) mem = mem'"
      by (simp add: mem'_def write_value_def)
    have i: "int k + int w + 1 = int (k + w + 1)" "int k + int w < int (length as)" "min (length as) (k + w + 1) = k + w + 1"
      using True by auto
    show ?thesis
      unfolding same i(3)
      by (subst writeValues_loop.simps)
        (simp only: Let_def le if_True fill bind.bind_lunit v prod.case pos i(1,2) if_False, blast)
  next
    case False
    with w have i: "int k + int w = int (length as)" "min (length as) (k + w + 1) = length as" "take (w + 1) (drop k as) = take w (drop k as)"
      by auto
    show ?thesis
      unfolding i(2,3) mem'_def [symmetric]
      by (subst writeValues_loop.simps)
        (simp only: Let_def le if_True fill bind.bind_lunit v prod.case pos i(1) less_irrefl if_False, blast)
  qed
qed

lemma writeValues_loop_writes:
  assumes "writes_memory vm pid writable" "length as \<le> IOV_MAX" "2 \<le> length data" "clean writable (length data) as"
  shows "\<exists>tot' err'. writeValues_loop vm pid as (length data) data (int k) tot err mem =
    Some ((tot', err'), fold (write_value writable data) (drop k as) mem)"
proof (induction "length as - k" arbitrary: k tot err mem rule: less_induct)
  case less
  show ?case
  proof (cases "k < length as")
    case True
    define w where "w = whole_values (perm_map writable) (length data) (drop k as)"
    define k' where "k' = min (length as) (k + w + 1)"
    have "data \<noteq> []" using assms(3) by auto
    from writeValues_step [OF assms(1,2) this assms(4) True w_def] assms(3) obtain tot' err'
      where s: "writeValues_loop vm pid as (length data) data (int k) tot err mem =
        writeValues_loop vm pid as (length data) data (int k') tot' err'
          (fold (write_value writable data) (take (w + 1) (drop k as)) mem)"
      unfolding k'_def by blast
    have "drop k as = take (w + 1) (drop k as) @ drop k' as"
      using append_take_drop_id [of "w + 1" "drop k as"] by (auto simp: k'_def min_def add.commute)
    then have "fold (write_value writable data) (drop k as) mem =
        fold (write_value writable data) (drop k' as) (fold (write_value writable data) (take (w + 1) (drop k as)) mem)"
      by (metis comp_apply fold_append)
    moreover have "length as - k' < length as - k" using True by (simp add: k'_def)
    ultimately show ?thesis
      using less [of k' tot' err' "fold (write_value writable data) (take (w + 1) (drop k as)) mem"] s by metis
  next
    case False
    then show ?thesis by (subst writeValues_loop.simps) simp
  qed
qed

lemma sim_writev_writes: "writes_memory (sim_writev writable) pid writable"
  unfolding writes_memory_def
proof (intro allI impI)
  fix iovs data mem assume ne: "iovs_addrs iovs \<noteq> []"
  define whole where "whole = takeWhile (\<lambda>iov. list_all writable (iov_addrs iov)) iovs"
  define addrs where "addrs = takeWhile writable (iovs_addrs iovs)"
  have "iovs_addrs iovs = iovs_addrs whole @ iovs_addrs (dropWhile (\<lambda>iov. list_all writable (iov_addrs iov)) iovs)"
    unfolding whole_def iovs_addrs_def by (simp flip: concat_append map_append)
  moreover have "list_all writable (iovs_addrs whole)"
    unfolding iovs_addrs_def list_all_iff whole_def by (auto dest!: set_takeWhileD simp: list_all_iff)
  ultimately have "addrs = iovs_addrs whole @ takeWhile writable (iovs_addrs (dropWhile (\<lambda>iov. list_all writable (iov_addrs iov)) iovs))"
    by (simp add: addrs_def list_all_iff)
  then have "length (iovs_addrs whole) \<le> length addrs" "addrs = [] \<Longrightarrow> iovs_addrs whole = []" by auto
  moreover have "take (length addrs) (iovs_addrs iovs) = addrs" "length addrs \<le> length (iovs_addrs iovs)"
    using takeWhile_eq_take [of writable "iovs_addrs iovs"] by (simp_all add: addrs_def length_takeWhile_le)
  moreover have "list_all writable addrs" by (auto simp: addrs_def list_all_iff dest: set_takeWhileD)
  moreover have "\<not> list_all writable (iovs_addrs iovs)" if "addrs = []"
    using that ne by (cases "iovs_addrs iovs") (auto simp: addrs_def split: if_splits)
  ultimately show "let addrs = iovs_addrs iovs;
         whole = iovs_addrs (takeWhile (\<lambda>iov. list_all writable (iov_addrs iov)) iovs)
     in case sim_writev writable pid iovs data mem of ((n, err), mem') \<Rightarrow>
           (n = -1 \<and> err = Some EFAULT \<and> mem' = mem \<and> whole = [] \<and> \<not> list_all writable addrs) \<or>
           (0 < n \<and> err = None \<and> n \<le> int (length addrs) \<and> int (length whole) \<le> n \<and>
            list_all writable (take (nat n) addrs) \<and>
            mem' = write_bytes (take (nat n) addrs) (take (nat n) data) mem)"
    unfolding Let_def whole_def [symmetric] sim_writev_def addrs_def [symmetric]
    by (cases "addrs = []") simp_all
qed

text \<open>
  Writing a value of at least two bytes to up to \<open>IOV_MAX\<close> addresses, each writable as a whole or not at
  all, returns whatever the kernel does, and the memory is the old one with the value stored at the
  writable addresses in their order.
\<close>

lemma writeValues_total:
  assumes "writes_memory vm pid writable" "length as \<le> IOV_MAX" "wf_value v" "2 \<le> length (v_data v)"
    and "clean writable (length (v_data v)) as"
  shows "\<exists>tot err. writeValues vm pid as v mem =
    Some ((tot, err), fold (write_value writable (v_data v)) as mem)"
proof (cases "as = []")
  case True
  then show ?thesis by (simp add: writeValues_def)
next
  case False
  have "v_data v \<noteq> []" using assms(4) by auto
  with False assms(3,4) writeValues_loop_writes [OF assms(1,2,4,5), of 0 0 None mem] show ?thesis
    by (simp add: writeValues_def wf_value_Size index_def Let_def)
qed

section \<open>Values of one byte\<close>

lemma failed_write:
  assumes "writes_memory vm pid writable" "length as \<le> IOV_MAX" "k < length as" "\<not> writable (as ! k)"
  shows "vm pid (map (\<lambda>a. (a, 1)) (drop k as)) (concat (replicate (length as - k) [b])) mem = ((-1, Some EFAULT), mem)"
proof -
  have "whole_values (perm_map writable) 1 (drop k as) = 0"
    using assms(3,4) by (simp add: whole_values_def perm_map_def flip: Cons_nth_drop_Suc)
  with vm_writes_values [OF assms(1), of "drop k as" "[b]" 0 mem] assms(2,3) clean_byte [of writable "drop k as"]
  show ?thesis by simp
qed

lemma writeValues_stuck:
  assumes "writes_memory vm pid writable" "length as \<le> IOV_MAX" "k < length as" "\<not> writable (as ! k)"
  shows "writeValues_loop vm pid as 1 [b] (int k) tot err mem = None"
proof (rule ccontr)
  assume "writeValues_loop vm pid as 1 [b] (int k) tot err mem \<noteq> None"
  then obtain res where res: "writeValues_loop vm pid as 1 [b] (int k) tot err mem = Some res" by auto
  define P where "P vm' pid' as' sz' raw pos (tot' :: int) (err' :: errno option) (mem' :: memory)
      (res' :: (int \<times> errno option) \<times> memory) \<longleftrightarrow>
    \<not> (vm' = vm \<and> pid' = pid \<and> as' = as \<and> sz' = (1 :: nat) \<and> raw = [b] \<and> pos = int k)"
    for vm' pid' as' sz' raw and pos :: int and tot' err' mem' res'
  have "P vm pid as 1 [b] (int k) tot err mem res"
  proof (rule writeValues_loop.raw_induct [where P = P, OF _ res])
    fix f vm' pid' as' sz' raw pos tot' err' mem' res'
    assume IH: "\<And>pid' as' sz' raw pos tot' err' mem' b res'. f pid' as' sz' raw pos tot' err' mem' b = Some res' \<Longrightarrow>
        P pid' as' sz' raw pos tot' err' mem' b res'"
      and body: "(let n = int (length as')
      in if pos < n
         then fill_write as' sz' pos \<bind>
              (\<lambda>remote.
                  let ((nWrite, err), mem) = vm' pid' remote (concat (replicate (length remote) (take sz' raw))) mem';
                      tot' = tot' + nWrite;
                      pos = pos + go_div nWrite (int sz')
                  in if pos < n
                     then if err \<noteq> None \<and> err \<noteq> Some EFAULT \<and> nWrite = 0 then Some ((tot', err), mem)
                          else f vm' pid' as' sz' raw (pos + 1) tot' err mem
                     else f vm' pid' as' sz' raw pos tot' err' mem)
         else Some ((tot', err'), mem')) = Some res'"
    show "P vm' pid' as' sz' raw pos tot' err' mem' res'"
    proof (rule ccontr)
      assume "\<not> P vm' pid' as' sz' raw pos tot' err' mem' res'"
      then have e: "vm' = vm" "pid' = pid" "as' = as" "sz' = 1" "raw = [b]" "pos = int k"
        by (simp_all add: P_def)
      have "fill_write as 1 (int k) = Some (map (\<lambda>a. (a, 1)) (drop k as))"
        using assms(2,3) by (intro fill_write_fits) simp_all
      moreover have "int k - 1 < int (length as)" "int k < int (length as)" using assms(3) by auto
      ultimately have "f vm pid as 1 [b] (int k) (tot' - 1) (Some EFAULT) mem' = Some res'"
        using body failed_write [OF assms, of b mem'] unfolding e
        by (simp add: minus_one Let_def)
      from IH [OF this] show False by (simp add: P_def)
    qed
  qed
  then show False by (simp add: P_def)
qed

text \<open>
  C39: writing a value of one byte never returns when the first address is not writable: the failed call moves
  the position back by one, the step over the bad address moves it forward, and the same call is
  made again.
\<close>

theorem writeValues_byte_hangs:
  assumes "writes_memory vm pid writable" "length (a # as) \<le> IOV_MAX" "\<not> writable a"
  shows "writeValues vm pid (a # as) (NewInt8 i) mem = None"
  using writeValues_stuck [OF assms(1,2), of 0 "i" 0 None mem] assms(3)
  by (simp add: writeValues_def NewInt8_def Value_Size_def ByteSize_simps index_def Let_def)

theorem writeValues_byte_hangs_witness:
  "writeValues (sim_writev (\<lambda>a. a < 0x2000)) 1 [0x5000, 0x1000] (NewInt8 5) (\<lambda>_. Some 0) = None"
  by (rule writeValues_byte_hangs [OF sim_writev_writes]) (simp_all add: IOV_MAX_def)

end
