(* ===== verification/Tasks.thy ===== *)
theory Tasks
  imports Scan_Collector Write_Values Mmap Virtual_Region
begin

text \<open>
  The tasks a scan is divided into (\<^verbatim>\<open>memscan.go\<close>, \<^verbatim>\<open>memscan_first_scan.go\<close>, \<^verbatim>\<open>memscan_next_scan.go\<close>): one per region or
  per block of old results, each filling a result buffer of its own. \<open>sys\<close> says which mappings the kernel
  grants to the task and \<open>ctx\<close> when it sees the context cancelled. A task's outcome is the entry of
  \<open>regionBuffers\<close> it leaves: no buffer when it found nothing.
\<close>

definition regionResultsAllocCaps :: nat where
  "regionResultsAllocCaps = unat regionLargeSize div 8"

definition nextScanTaskSize :: nat where
  "nextScanTaskSize = IOV_MAX * 32"

lemma regionResultsAllocCaps_val: "regionResultsAllocCaps = 262144"
  by (simp add: regionResultsAllocCaps_def regionLargeSize_val)

lemma nextScanTaskSize_val: "nextScanTaskSize = 32768"
  by (simp add: nextScanTaskSize_def IOV_MAX_def)

text \<open>The values of \<open>start\<close> in a loop \<open>for start := 0; start < n; start += step\<close>.\<close>

definition loop_starts :: "nat \<Rightarrow> nat \<Rightarrow> nat list" where
  "loop_starts n step = map (\<lambda>i. i * step) [0..<(n + step - 1) div step]"

text \<open>A reader fresh from the pool; all its fields are set before use.\<close>

definition pooled_reader :: RegionReader where
  "pooled_reader = \<lparr>rr_start = 0, rr_end = 0, rr_size = 0, rr_off = 0, rr_pid = 0\<rparr>"

definition Pipe :: "int \<Rightarrow> Region \<Rightarrow> RegionReader" where
  "Pipe pid region = getRegionReader pid (Start region) (End region) pooled_reader"

definition vPipe :: "int \<Rightarrow> VirtualRegion \<Rightarrow> RegionReader" where
  "vPipe pid region = getRegionReader pid (vStart region) (vEnd region) pooled_reader"

text \<open>A task keeps its buffer only when something is in it.\<close>

definition task_outcome :: "MmapUint64 \<Rightarrow> MmapUint64 option" where
  "task_outcome buf = (if 0 < mm_Len buf then Some buf else None)"

section \<open>The first scan of a region\<close>

definition first_collector :: "u64 \<Rightarrow> (u64 list \<times> MmapUint64) collector" where
  "first_collector start offset s =
     map_option (Pair True) (batch_add put_ignoring (of_int offset + start) s)"

definition taskFirstScan ::
  "(nat \<Rightarrow> bool) \<Rightarrow> (nat \<Rightarrow> bool) \<Rightarrow> vm_readv \<Rightarrow> int \<Rightarrow> Scanner \<Rightarrow> Region \<Rightarrow> MmapUint64 option go" where
  "taskFirstScan sys ctx vm pid scan region = do {
     created \<leftarrow> NewMmapUint64 sys regionResultsAllocCaps;
     (case created of
        None \<Rightarrow> Some None
      | Some buf \<Rightarrow> do {
          (r, s) \<leftarrow> ScanCollector ctx (rr_Read vm) (Some rr_seek_start) None scan
                      (Some (first_collector (Start region))) (Pipe pid region) ([], buf);
          buf \<leftarrow> batch_flush put_ignoring s;
          Some (task_outcome buf)
        })
   }"

section \<open>The dense next scan of a virtual region\<close>

definition dense_collector :: "((u64 list \<times> MmapUint64) \<times> VirtualRegion) collector" where
  "dense_collector offset = (\<lambda>(s, region).
     let address = of_int offset + vStart region in do {
       (ok, region) \<leftarrow> Match region address;
       if ok then do {
         s \<leftarrow> batch_add put_ignoring address s;
         Some (\<not> IsFinished region, (s, region))
       }
       else Some (True, (s, region))
     })"

definition taskNextScanDense ::
  "(nat \<Rightarrow> bool) \<Rightarrow> (nat \<Rightarrow> bool) \<Rightarrow> vm_readv \<Rightarrow> int \<Rightarrow> Scanner \<Rightarrow> VirtualRegion \<Rightarrow> nat \<Rightarrow> MmapUint64 option go" where
  "taskNextScanDense sys ctx vm pid scan region bufSize = do {
     created \<leftarrow> NewMmapUint64 sys bufSize;
     (case created of
        None \<Rightarrow> Some None
      | Some buf \<Rightarrow> do {
          (r, s, region) \<leftarrow> ScanCollector ctx (rr_Read vm) (Some rr_seek_start)
                              (Some \<lparr>ExpectedSize = vSize region\<rparr>) scan
                              (Some dense_collector) (vPipe pid region) (([], buf), region);
          buf \<leftarrow> batch_flush put_ignoring s;
          Some (task_outcome buf)
        })
   }"

section \<open>The sparse next scan of a block of addresses\<close>

definition filterResults ::
  "vm_readv \<Rightarrow> int \<Rightarrow> u64 list \<Rightarrow> nat \<Rightarrow> ValueComparable \<Rightarrow> u8 \<Rightarrow> bytes \<Rightarrow> MmapUint64 \<Rightarrow> (bytes \<times> MmapUint64) go" where
  "filterResults vm pid addrs valueSize cmp disturb readBuffer results = do {
     readBuffer \<leftarrow> readValuesRaw vm pid addrs (int valueSize) disturb readBuffer;
     s \<leftarrow> go_fold (\<lambda>i s. do {
            let offset = i * valueSize;
            value \<leftarrow> slice readBuffer (int offset) (int (offset + valueSize));
            equal \<leftarrow> comp_EqualBytes cmp value;
            if equal then do { a \<leftarrow> index addrs (int i); batch_add put_ignoring a s } else Some s
          }) [0..<length addrs] ([], results);
     results \<leftarrow> batch_flush put_ignoring s;
     Some (readBuffer, results)
   }"

definition taskNextScanSparse ::
  "(nat \<Rightarrow> bool) \<Rightarrow> vm_readv \<Rightarrow> int \<Rightarrow> bytes \<Rightarrow> u64 list \<Rightarrow> ValueComparable \<Rightarrow> MmapUint64 option go" where
  "taskNextScanSparse sys vm pid pooled addrs cmp = do {
     created \<leftarrow> NewMmapUint64 sys nextScanTaskSize;
     (case created of
        None \<Rightarrow> Some None
      | Some results \<Rightarrow> do {
          let n = length addrs;
          let valueSize = comp_Size cmp;
          let readBuffer = getReadBuffer pooled (IOV_MAX * valueSize);
          disturb \<leftarrow> comp_DisturbingByte cmp;
          (readBuffer, results) \<leftarrow> go_fold (\<lambda>start (readBuffer, results). do {
              let end' = (if n < start + IOV_MAX then n else start + IOV_MAX);
              block \<leftarrow> slice addrs (int start) (int end');
              filterResults vm pid block valueSize cmp disturb readBuffer results
            }) (loop_starts n IOV_MAX) (readBuffer, results);
          Some (task_outcome results)
        })
   }"

section \<open>Collecting addresses\<close>

definition collect_into :: "u64 list \<Rightarrow> MmapUint64 \<Rightarrow> MmapUint64 go" where
  "collect_into xs buf = do { s \<leftarrow> go_fold (batch_add put_ignoring) xs ([], buf); batch_flush put_ignoring s }"

text \<open>A \<open>Put\<close> moves the cursor whether or not the items fit.\<close>

lemma put_moves:
  assumes "unat (mm_cursor m) + length items < 2 ^ 60" "length (mm_data m) < 2 ^ 60"
  shows "\<exists>m'. put_ignoring items m = Some m' \<and> unat (mm_cursor m') = unat (mm_cursor m) + length items \<and>
    length (mm_data m') = length (mm_data m)"
proof -
  define n where "n = (of_nat (length items) :: u64)"
  have n: "unat n = length items" "unat (mm_cursor m + n) = unat (mm_cursor m) + length items"
    using assms(1) by (simp_all add: n_def unat_word_ariths unat_of_nat)
  have d: "unat (of_nat (length (mm_data m)) :: u64) = length (mm_data m)"
    using assms(2) by (simp add: unat_of_nat)
  consider "n = 0" | "n \<noteq> 0" "of_nat (length (mm_data m)) < mm_cursor m + n"
    | "n \<noteq> 0" "\<not> of_nat (length (mm_data m)) < mm_cursor m + n" by blast
  then show ?thesis
  proof cases
    case 1
    with n(1) show ?thesis by (simp add: put_ignoring_def mm_Put_def flip: n_def)
  next
    case 2
    with n(2) show ?thesis by (simp add: put_ignoring_def mm_Put_def flip: n_def)
  next
    case 3
    then have le: "unat (mm_cursor m) \<le> length (mm_data m)"
      using n(2) d by (simp add: word_less_nat_alt)
    then have "uint (mm_cursor m) \<le> int (length (mm_data m))" by (simp add: uint_le_int)
    with 3 n(2) le show ?thesis
      by (simp add: put_ignoring_def mm_Put_def length_copy_at Let_def flip: n_def)
  qed
qed

lemma batch_moves:
  assumes "unat (mm_cursor m) + length batch + length xs < 2 ^ 60" "length (mm_data m) < 2 ^ 60"
  shows "\<exists>m'. do { s \<leftarrow> go_fold (batch_add put_ignoring) xs (batch, m); batch_flush put_ignoring s } = Some m' \<and>
    unat (mm_cursor m') = unat (mm_cursor m) + length batch + length xs \<and> length (mm_data m') = length (mm_data m)"
  using assms
proof (induction xs arbitrary: batch m)
  case Nil
  with put_moves [of m batch] show ?case by (auto simp: batch_flush_def)
next
  case (Cons x xs)
  show ?case
  proof (cases "length (batch @ [x]) = collectBatchSize")
    case True
    from put_moves [of m "batch @ [x]"] Cons.prems obtain m1 where m1:
      "put_ignoring (batch @ [x]) m = Some m1" "unat (mm_cursor m1) = unat (mm_cursor m) + length (batch @ [x])"
      "length (mm_data m1) = length (mm_data m)" by auto
    with True have "go_fold (batch_add put_ignoring) (x # xs) (batch, m) = go_fold (batch_add put_ignoring) xs ([], m1)"
      by (simp add: batch_add_def Let_def)
    with Cons.IH [of m1 "[]"] Cons.prems m1(2,3) show ?thesis by simp
  next
    case False
    then have "go_fold (batch_add put_ignoring) (x # xs) (batch, m) = go_fold (batch_add put_ignoring) xs (batch @ [x], m)"
      by (simp add: batch_add_def Let_def)
    with Cons.IH [of m "batch @ [x]"] Cons.prems show ?thesis by simp
  qed
qed

text \<open>
  What a task's buffer is after all its addresses have been collected: the addresses when they fit, and
  otherwise an array whose cursor is past its end.
\<close>

definition overfull :: "MmapUint64 \<Rightarrow> bool" where
  "overfull m \<longleftrightarrow> length (mm_data m) < unat (mm_cursor m) \<and> unat (mm_cursor m) < 2 ^ 60"

lemma collect_into_new:
  assumes "NewMmapUint64 sys caps = Some (Some buf)" "caps < 2 ^ 59" "length xs < 2 ^ 59"
  shows "\<exists>buf'. collect_into xs buf = Some buf' \<and>
    (if length xs \<le> caps then mm_inv buf' \<and> mm_contents buf' = xs else overfull buf')"
proof -
  have "caps < 2 ^ 60" using assms(2) by simp
  from NewMmapUint64_inv [OF assms(1) this] have b: "mm_inv buf" "mm_contents buf = []" "mm_capacity buf = caps"
    by simp_all
  show ?thesis
  proof (cases "length xs \<le> caps")
    case True
    with mmb.batch_collect [OF b(1), of "[]" xs] b(2,3) show ?thesis by (auto simp: collect_into_def)
  next
    case False
    have "unat (mm_cursor buf) = 0" "length (mm_data buf) = caps"
      using assms(1) by (auto simp: NewMmapUint64_def Let_def split: if_splits)
    with batch_moves [of buf "[]" xs] assms(2,3) False show ?thesis
      by (fastforce simp: collect_into_def overfull_def)
  qed
qed

lemma task_outcome_fits: "mm_inv buf \<Longrightarrow> task_outcome buf = (if mm_contents buf = [] then None else Some buf)"
  by (simp add: task_outcome_def mm_Len_inv)

lemma task_outcome_overfull: "overfull buf \<Longrightarrow> task_outcome buf = Some buf"
proof -
  assume o: "overfull buf"
  then have "mm_Len buf = int (unat (mm_cursor buf))" by (simp add: overfull_def mm_Len_def sint_unat64)
  moreover have "0 < int (unat (mm_cursor buf))" using o unfolding overfull_def by linarith
  ultimately have "0 < mm_Len buf" by (simp only:)
  then show ?thesis by (simp add: task_outcome_def)
qed

lemma collect_first:
  "go_fold (collect (first_collector start)) xs s =
   go_fold (batch_add put_ignoring) (map (\<lambda>i. of_int i + start) xs) s"
proof -
  have "collect (first_collector start) = (\<lambda>i. batch_add put_ignoring (of_int i + start))"
    by (simp add: fun_eq_iff collect_def first_collector_def option.map_comp comp_def option.map_ident)
  then show ?thesis
    by (induction xs arbitrary: s) (auto intro!: Option.bind_cong)
qed

text \<open>The addresses of a region that hold a value the comparable accepts.\<close>

definition matching_addrs :: "memory \<Rightarrow> ValueComparable \<Rightarrow> u64 \<Rightarrow> nat \<Rightarrow> u64 list" where
  "matching_addrs mem cmp start z = map (\<lambda>p. of_nat p + start) (matching cmp (contents_at mem (iov_addrs (start, z))))"

lemma length_matching_addrs: "length (matching_addrs mem cmp start z) \<le> z + 1"
proof -
  have "length (contents_at mem (iov_addrs (start, z))) = z" by (simp add: contents_at_def)
  then show ?thesis
    unfolding matching_addrs_def matching_def length_map
    by (intro order_trans [OF length_filter_le]) simp
qed

text \<open>What a task leaves when the addresses to keep are given.\<close>

definition leaves :: "u64 list \<Rightarrow> nat \<Rightarrow> MmapUint64 option \<Rightarrow> bool" where
  "leaves xs caps out \<longleftrightarrow>
     (if caps < length xs then (\<exists>b. out = Some b \<and> overfull b)
      else if xs = [] then out = None
      else (\<exists>b. out = Some b \<and> mm_inv b \<and> mm_contents b = xs))"

lemma task_leaves:
  assumes "NewMmapUint64 sys caps = Some (Some buf)" "caps < 2 ^ 59" "length xs < 2 ^ 59"
  shows "\<exists>buf'. collect_into xs buf = Some buf' \<and> leaves xs caps (task_outcome buf')"
  using collect_into_new [OF assms] task_outcome_overfull task_outcome_fits
  by (fastforce simp: leaves_def split: if_splits)

lemma taskFirstScan_leaves:
  assumes "reads_memory vm pid mem" "readable mem (iov_addrs (Start region, z))" "z = unat (End region - Start region)"
    and "z < 2 ^ 58" "wf_value v" "v_data v \<noteq> []" "Aligned v" "sys (regionResultsAllocCaps * 8)"
    and "NewScanner v = Some scan" "Value_Comparable v = Some cmp"
  shows "\<exists>out. taskFirstScan sys (\<lambda>_. False) vm pid scan region = Some out \<and>
    leaves (matching_addrs mem cmp (Start region) z) regionResultsAllocCaps out"
proof -
  have "0 < regionResultsAllocCaps" by (simp add: regionResultsAllocCaps_val)
  from NewMmapUint64_granted [OF this, of sys] assms(8) obtain buf
    where new: "NewMmapUint64 sys regionResultsAllocCaps = Some (Some buf)" by blast
  define xs where "xs = matching_addrs mem cmp (Start region) z"
  have "idle_after (first_collector (Start region)) (\<lambda>_. False)"
    by (auto simp: idle_after_def first_collector_def)
  from ScanCollector_region [OF assms(1), where a = "Start region" and e = "End region" and v = v and bufSize = defScanBufferSize
      and options = None and pooled = pooled_reader and c = "([], buf)", OF _ _ assms(5-7) _ _ this]
  have scan: "map_option snd (ScanCollector (\<lambda>_. False) (rr_Read vm) (Some rr_seek_start) None scan
      (Some (first_collector (Start region))) (Pipe pid region) ([], buf)) =
      go_fold (batch_add put_ignoring) xs ([], buf)"
    using assms(2-4,9,10)
    by (simp add: NewScanner_def collect_first Pipe_def xs_def matching_addrs_def comp_def)
  have "length xs < 2 ^ 59" using length_matching_addrs [of mem cmp "Start region" z] assms(4) by (simp add: xs_def)
  from task_leaves [OF new _ this] obtain buf' where "collect_into xs buf = Some buf'" "leaves xs regionResultsAllocCaps (task_outcome buf')"
    by (auto simp: regionResultsAllocCaps_val)
  with new scan show ?thesis
    by (cases "ScanCollector (\<lambda>_. False) (rr_Read vm) (Some rr_seek_start) None scan
      (Some (first_collector (Start region))) (Pipe pid region) ([], buf)")
      (auto simp: taskFirstScan_def collect_into_def xs_def split: Option.bind_splits)
qed

section \<open>Filtering a block of addresses\<close>

lemma go_fold_cong:
  "\<forall>x \<in> set xs. \<forall>s. f x s = g x s \<Longrightarrow> go_fold f xs s = go_fold g xs s"
  by (induction xs arbitrary: s) (auto intro!: Option.bind_cong)

lemma go_fold_filter:
  "go_fold (\<lambda>i s. if P i then h (x i) s else Some s) is s = go_fold h (map x (filter P is)) s"
  by (induction "is" arbitrary: s) (auto intro!: Option.bind_cong)

text \<open>The value at an address can be read and is accepted; what could not be read must not be.\<close>

definition holds :: "memory \<Rightarrow> ValueComparable \<Rightarrow> u64 \<Rightarrow> bool" where
  "holds mem cmp a \<longleftrightarrow> value_readable mem (comp_Size cmp) a \<and>
     comp_EqualBytes cmp (value_at mem (comp_Size cmp) a) = Some True"

definition rejects_unread :: "ValueComparable \<Rightarrow> bool" where
  "rejects_unread cmp \<longleftrightarrow> (\<forall>d b. comp_DisturbingByte cmp = Some d \<longrightarrow> length (d # b) = comp_Size cmp \<longrightarrow>
     comp_EqualBytes cmp (d # b) = Some False)"

lemma value_rejects_unread: "wf_value v \<Longrightarrow> v_data v \<noteq> [] \<Longrightarrow> rejects_unread (CmpValue v)"
  using val.disturb_rejects [of v] by (auto simp: rejects_unread_def)

definition told_apart :: "memory \<Rightarrow> ValueComparable \<Rightarrow> u64 list \<Rightarrow> bool" where
  "told_apart mem cmp addrs \<longleftrightarrow> rejects_unread cmp \<or> list_all (value_readable mem (comp_Size cmp)) addrs"

lemma filterResults_filters:
  assumes "reads_memory vm pid mem" "length addrs \<le> IOV_MAX" "wf_comparable cmp" "2 \<le> comp_Size cmp"
    and "length addrs * comp_Size cmp \<le> length buf" "comp_DisturbingByte cmp = Some d" "told_apart mem cmp addrs"
    and "mm_inv results" "length (mm_contents results) + length addrs \<le> mm_capacity results"
  shows "\<exists>buf' results'. filterResults vm pid addrs (comp_Size cmp) cmp d buf results = Some (buf', results') \<and>
    length buf' = length buf \<and> mm_inv results' \<and> mm_capacity results' = mm_capacity results \<and>
    mm_contents results' = mm_contents results @ filter (holds mem cmp) addrs"
proof -
  define sz where "sz = comp_Size cmp"
  obtain buf' where buf': "readValuesRaw vm pid addrs (int sz) d buf = Some buf'" "length buf' = length buf"
    "values_read mem sz d addrs (length addrs) buf'"
    using readValuesRaw_total [OF assms(1,2) assms(4,5), of d] by (auto simp: sz_def)
  define body where "body i s = do {
            let offset = i * sz;
            value \<leftarrow> slice buf' (int offset) (int (offset + sz));
            equal \<leftarrow> comp_EqualBytes cmp value;
            if equal then do { a \<leftarrow> index addrs (int i); batch_add put_ignoring a s } else Some s
          }" for i s
  have body: "body i s = (if holds mem cmp (addrs ! i) then batch_add put_ignoring (addrs ! i) s else Some s)"
    if "i < length addrs" for i s
  proof -
    have room: "i * sz + sz \<le> length buf'"
      using chunk_room [OF that] assms(5) buf'(2) by (simp add: sz_def)
    then have "slice buf' (int (i * sz)) (int (i * sz + sz)) = Some (chunk sz i buf')" by (rule slice_chunk)
    moreover have "length (chunk sz i buf') = sz" using room by (simp add: chunk_def)
    moreover from this have "comp_EqualBytes cmp (chunk sz i buf') = Some (holds mem cmp (addrs ! i))"
    proof (cases "value_readable mem sz (addrs ! i)")
      case True
      then have "chunk sz i buf' = value_at mem sz (addrs ! i)"
        using buf'(3) that by (auto simp: values_read_def)
      with True show ?thesis
        using cmp.equal_matches [OF assms(3), of "value_at mem sz (addrs ! i)"]
        by (simp add: holds_def cmp.matches_def sz_def)
    next
      case False
      then have "\<exists>rest. chunk sz i buf' = d # rest"
        using buf'(3) [unfolded values_read_def, rule_format, OF that] by simp
      then obtain rest where rest: "chunk sz i buf' = d # rest" ..
      moreover have "rejects_unread cmp"
        using assms(7) False that by (auto simp: told_apart_def list_all_length sz_def)
      ultimately show ?thesis
        using assms(6) False \<open>length (chunk sz i buf') = sz\<close> by (simp add: rejects_unread_def holds_def sz_def)
    qed
    moreover have "index addrs (int i) = Some (addrs ! i)" using that by (simp add: index_def)
    ultimately show ?thesis by (simp add: body_def Let_def del: of_nat_add of_nat_mult)
  qed
  have "go_fold body [0..<length addrs] ([], results) =
      go_fold (\<lambda>i s. if holds mem cmp (addrs ! i) then batch_add put_ignoring (addrs ! i) s else Some s)
        [0..<length addrs] ([], results)"
    by (rule go_fold_cong) (use body in simp)
  also have "\<dots> = go_fold (batch_add put_ignoring) (map ((!) addrs) (filter (\<lambda>i. holds mem cmp (addrs ! i)) [0..<length addrs]))
      ([], results)"
    by (rule go_fold_filter)
  also have "map ((!) addrs) (filter (\<lambda>i. holds mem cmp (addrs ! i)) [0..<length addrs]) = filter (holds mem cmp) addrs"
    using filter_map [of "holds mem cmp" "(!) addrs" "[0..<length addrs]"] by (simp add: map_nth comp_def)
  finally have fold: "go_fold body [0..<length addrs] ([], results) =
      go_fold (batch_add put_ignoring) (filter (holds mem cmp) addrs) ([], results)" .
  have "length (mm_contents results) + length [] + length (filter (holds mem cmp) addrs) \<le> mm_capacity results"
    using assms(9) length_filter_le [of "holds mem cmp" addrs] by (simp only: list.size)
  from mmb.batch_collect [OF assms(8) this] obtain results' where
    "do { s \<leftarrow> go_fold body [0..<length addrs] ([], results); batch_flush put_ignoring s } = Some results'"
    "mm_inv results'" "mm_contents results' = mm_contents results @ filter (holds mem cmp) addrs"
    "mm_capacity results' = mm_capacity results"
    unfolding fold by auto
  moreover have "filterResults vm pid addrs sz cmp d buf results =
      do { s \<leftarrow> go_fold body [0..<length addrs] ([], results); results \<leftarrow> batch_flush put_ignoring s; Some (buf', results) }"
    by (simp add: filterResults_def buf'(1) body_def [abs_def])
  ultimately show ?thesis
    using buf'(2) by (auto simp: sz_def [symmetric] split: Option.bind_splits)
qed

section \<open>The sparse task\<close>

text \<open>The blocks of a loop are the whole list.\<close>

lemma concat_blocks:
  assumes "0 < step"
  shows "concat (map (\<lambda>i. take step (drop (i * step) xs)) [0..<m]) = take (m * step) xs"
proof (induction m)
  case (Suc m)
  then show ?case using take_add [of "m * step" step xs] by (simp add: add.commute)
qed simp

lemma loop_blocks:
  assumes "0 < step"
  shows "concat (map (\<lambda>start. take step (drop start xs)) (loop_starts (length xs) step)) = xs"
proof -
  define m where "m = (length xs + step - 1) div step"
  have "length xs + step - 1 < Suc m * step"
    using dividend_less_times_div [OF assms, of "length xs + step - 1"] by (simp add: m_def mult.commute)
  then have "length xs \<le> m * step" using assms by simp
  with concat_blocks [OF assms, of xs m] show ?thesis
    by (simp add: loop_starts_def comp_def del: One_nat_def flip: m_def)
qed

lemma loop_starts_less: "start \<in> set (loop_starts n step) \<Longrightarrow> 0 < step \<Longrightarrow> start < n"
proof -
  assume "start \<in> set (loop_starts n step)" "0 < step"
  then obtain i where i: "start = i * step" "i < (n + step - 1) div step" by (auto simp: loop_starts_def)
  then have "Suc i * step \<le> n + step - 1"
    using less_eq_div_iff_mult_less_eq [OF \<open>0 < step\<close>, of "Suc i" "n + step - 1"] by simp
  with i(1) \<open>0 < step\<close> show ?thesis by simp
qed

lemma sparse_blocks:
  assumes "reads_memory vm pid mem" "wf_comparable cmp" "2 \<le> comp_Size cmp" "comp_DisturbingByte cmp = Some d"
    and "told_apart mem cmp addrs" "\<forall>start \<in> set starts. start < length addrs"
    and "IOV_MAX * comp_Size cmp \<le> length buf" "mm_inv results"
    and "length (mm_contents results) + length (concat (map (\<lambda>start. take IOV_MAX (drop start addrs)) starts)) \<le> mm_capacity results"
  shows "\<exists>buf' results'. go_fold (\<lambda>start (readBuffer, results). do {
              let end' = (if length addrs < start + IOV_MAX then length addrs else start + IOV_MAX);
              block \<leftarrow> slice addrs (int start) (int end');
              filterResults vm pid block (comp_Size cmp) cmp d readBuffer results
            }) starts (buf, results) = Some (buf', results') \<and> mm_inv results' \<and>
    mm_contents results' = mm_contents results @
      filter (holds mem cmp) (concat (map (\<lambda>start. take IOV_MAX (drop start addrs)) starts))"
  using assms(6-)
proof (induction starts arbitrary: buf results)
  case (Cons start starts)
  define block where "block = take IOV_MAX (drop start addrs)"
  have "start < length addrs" using Cons.prems(1) by simp
  then have slice: "slice addrs (int start) (int (if length addrs < start + IOV_MAX then length addrs else start + IOV_MAX)) = Some block"
    by (auto simp: block_def)
  have "told_apart mem cmp block"
    using assms(5) by (auto simp: told_apart_def block_def list_all_iff dest!: in_set_takeD in_set_dropD)
  moreover have "length block \<le> IOV_MAX" by (simp add: block_def)
  moreover from this have "length block * comp_Size cmp \<le> length buf"
    by (meson Cons.prems(2) dual_order.trans mult_le_mono1)
  moreover have "length (mm_contents results) + length block \<le> mm_capacity results"
    using Cons.prems(4) by (simp add: block_def)
  ultimately obtain buf1 results1 where one: "filterResults vm pid block (comp_Size cmp) cmp d buf results = Some (buf1, results1)"
    "length buf1 = length buf" "mm_inv results1" "mm_capacity results1 = mm_capacity results"
    "mm_contents results1 = mm_contents results @ filter (holds mem cmp) block"
    using filterResults_filters [OF assms(1) _ assms(2,3) _ assms(4) _ Cons.prems(3)] by blast
  have "length (filter (holds mem cmp) block) \<le> length block" by (rule length_filter_le)
  then have "length (mm_contents results1) + length (concat (map (\<lambda>start. take IOV_MAX (drop start addrs)) starts)) \<le> mm_capacity results1"
    unfolding one(4,5) length_append using Cons.prems(4) by (simp only: list.map concat.simps length_append flip: block_def)
  from Cons.IH [OF _ _ one(3) this, of buf1] Cons.prems(1,2) one(2)
  obtain buf2 results2 where
    "go_fold (\<lambda>start (readBuffer, results). do {
              let end' = (if length addrs < start + IOV_MAX then length addrs else start + IOV_MAX);
              block \<leftarrow> slice addrs (int start) (int end');
              filterResults vm pid block (comp_Size cmp) cmp d readBuffer results
            }) starts (buf1, results1) = Some (buf2, results2)" "mm_inv results2"
    "mm_contents results2 = mm_contents results1 @
      filter (holds mem cmp) (concat (map (\<lambda>start. take IOV_MAX (drop start addrs)) starts))"
    by auto
  with slice one(1,5) show ?case
    by (simp add: Let_def flip: block_def)
qed simp

lemma taskNextScanSparse_leaves:
  assumes "reads_memory vm pid mem" "wf_comparable cmp" "2 \<le> comp_Size cmp" "told_apart mem cmp addrs"
    and "sys (nextScanTaskSize * 8)" "length addrs \<le> nextScanTaskSize"
  shows "\<exists>out. taskNextScanSparse sys vm pid pooled addrs cmp = Some out \<and>
    leaves (filter (holds mem cmp) addrs) nextScanTaskSize out"
proof -
  have "0 < nextScanTaskSize" "nextScanTaskSize < 2 ^ 60" by (simp_all add: nextScanTaskSize_val)
  with NewMmapUint64_granted [of nextScanTaskSize sys] assms(5) obtain results
    where new: "NewMmapUint64 sys nextScanTaskSize = Some (Some results)" by blast
  from NewMmapUint64_inv [OF this \<open>_ < 2 ^ 60\<close>]
  have res: "mm_inv results" "mm_contents results = []" "mm_capacity results = nextScanTaskSize" by simp_all
  obtain d where d: "comp_DisturbingByte cmp = Some d"
    using cmp.disturb_total [OF assms(2)] by blast
  have pos: "0 < IOV_MAX" by (simp add: IOV_MAX_def)
  define buf where "buf = getReadBuffer pooled (IOV_MAX * comp_Size cmp)"
  have "IOV_MAX * comp_Size cmp \<le> length buf" by (simp add: buf_def getReadBuffer_clear)
  moreover have "\<forall>start \<in> set (loop_starts (length addrs) IOV_MAX). start < length addrs"
    using loop_starts_less [OF _ pos] by blast
  moreover note blocks = loop_blocks [OF pos, of addrs]
  ultimately obtain buf' results' where
    "go_fold (\<lambda>start (readBuffer, results). do {
              let end' = (if length addrs < start + IOV_MAX then length addrs else start + IOV_MAX);
              block \<leftarrow> slice addrs (int start) (int end');
              filterResults vm pid block (comp_Size cmp) cmp d readBuffer results
            }) (loop_starts (length addrs) IOV_MAX) (buf, results) = Some (buf', results')"
    "mm_inv results'" "mm_contents results' = filter (holds mem cmp) addrs"
    using sparse_blocks [OF assms(1-3) d assms(4), of "loop_starts (length addrs) IOV_MAX" buf results] res assms(6)
    by auto
  moreover have "length (filter (holds mem cmp) addrs) \<le> nextScanTaskSize"
    using assms(6) by (meson length_filter_le le_trans)
  ultimately show ?thesis
    using new d by (simp add: taskNextScanSparse_def Let_def leaves_def task_outcome_fits flip: buf_def)
qed

section \<open>The dense task\<close>

lemma dense_idle: "idle_after dense_collector (\<lambda>(s, region). IsFinished region)"
  unfolding idle_after_def
proof (intro conjI allI impI)
  fix i c c' assume "dense_collector i c = Some (False, c')"
  then show "(\<lambda>(s, region). IsFinished region) c'"
    by (auto simp: dense_collector_def Let_def split: prod.splits Option.bind_splits if_splits)
next
  fix i and c :: "(u64 list \<times> MmapUint64) \<times> VirtualRegion"
  assume "(\<lambda>(s, region). IsFinished region) c"
  then show "map_option snd (dense_collector i c) = Some c"
    by (auto simp: dense_collector_def Match_def IsFinished_def split: prod.splits)
qed

lemma dense_fold:
  assumes "vr_inv r" "sorted_wrt (<) (map (\<lambda>i. of_int i + vStart r) is)"
  shows "\<exists>r'. go_fold (collect dense_collector) is (s, r) =
    map_option (\<lambda>s. (s, r'))
      (go_fold (batch_add put_ignoring) (filter (\<lambda>q. q \<in> set (pending r)) (map (\<lambda>i. of_int i + vStart r) is)) s)"
  using assms
proof (induction "is" arbitrary: s r)
  case (Cons i "is")
  define q where "q = of_int i + vStart r"
  from Match_correct [OF Cons.prems(1), of q] obtain r1 where r1:
    "Match r q = Some (q \<in> set (pending r), r1)" "vr_inv r1" "pending r1 = dropWhile (\<lambda>x. x \<le> q) (pending r)"
    "r1\<lparr>vcursor := 0\<rparr> = r\<lparr>vcursor := 0\<rparr>"
    by blast
  have st: "vStart r1 = vStart r" using arg_cong [OF r1(4), of vStart] by simp
  have rest: "filter (\<lambda>x. x \<in> set (pending r1)) (map (\<lambda>i. of_int i + vStart r) is) =
      filter (\<lambda>x. x \<in> set (pending r)) (map (\<lambda>i. of_int i + vStart r) is)"
    using Cons.prems in_dropWhile_le [OF pending_sorted [OF Cons.prems(1)]]
    by (intro filter_cong) (auto simp: r1(3) q_def)
  have IH: "\<exists>r'. go_fold (collect dense_collector) is (s, r1) =
      map_option (\<lambda>s. (s, r')) (go_fold (batch_add put_ignoring)
        (filter (\<lambda>x. x \<in> set (pending r)) (map (\<lambda>i. of_int i + vStart r) is)) s)" for s
    using Cons.IH [OF r1(2), of s] Cons.prems(2) by (simp add: st rest)
  show ?case
  proof (cases "q \<in> set (pending r)")
    case True
    then have "collect dense_collector i (s, r) = map_option (\<lambda>s. (s, r1)) (batch_add put_ignoring q s)"
      using r1(1) by (cases "batch_add put_ignoring q s") (simp_all add: collect_def dense_collector_def flip: q_def)
    with True IH show ?thesis
      by (cases "batch_add put_ignoring q s") (simp_all flip: q_def)
  next
    case False
    then have "collect dense_collector i (s, r) = Some (s, r1)"
      using r1(1) by (simp add: collect_def dense_collector_def flip: q_def)
    with False IH [of s] show ?thesis by (simp flip: q_def)
  qed
qed simp

lemma take_contents:
  assumes "p + sz \<le> z"
  shows "take sz (drop p (contents_at mem (iov_addrs (start, z)))) = value_at mem sz (of_nat p + start)"
  using assms
  by (intro nth_equalityI) (simp_all add: contents_at_def value_at_def iov_addrs_def ac_simps)

lemma readable_inside:
  assumes "readable mem (iov_addrs (start, z))" "p + sz \<le> z"
  shows "value_readable mem sz (of_nat p + start)"
proof -
  have "mem (start + of_nat (p + i)) \<noteq> None" if "i < sz" for i
    using assms that by (auto simp: readable_def list_all_iff iov_addrs_def simp del: of_nat_add)
  then show ?thesis
    by (auto simp: value_readable_def readable_def list_all_iff iov_addrs_def ac_simps)
qed

lemma in_matching_addrs:
  assumes "readable mem (iov_addrs (start, z))" "0 < comp_Size cmp"
  shows "a \<in> set (matching_addrs mem cmp start z) \<longleftrightarrow>
    (\<exists>p. a = of_nat p + start \<and> p mod comp_Size cmp = 0 \<and> p + comp_Size cmp \<le> z \<and> holds mem cmp a)"
proof -
  define sz where "sz = comp_Size cmp"
  have len: "length (contents_at mem (iov_addrs (start, z))) = z" by (simp add: contents_at_def)
  have "p \<in> set (matching cmp (contents_at mem (iov_addrs (start, z)))) \<longleftrightarrow>
      p mod sz = 0 \<and> p + sz \<le> z \<and> holds mem cmp (of_nat p + start)" for p
  proof (cases "p + sz \<le> z")
    case True
    moreover from True assms(2) have "p < z + 1 - sz" by (simp add: sz_def)
    ultimately show ?thesis
      by (simp add: matching_def len holds_def take_contents readable_inside [OF assms(1)] flip: sz_def)
  next
    case False
    then have "\<not> p < z + 1 - sz" by simp
    with False show ?thesis by (simp add: matching_def len flip: sz_def)
  qed
  then show ?thesis
    by (auto simp: matching_addrs_def sz_def)
qed

lemma matching_addrs_sorted:
  assumes "unat start + z < 2 ^ 64"
  shows "sorted_wrt (<) (matching_addrs mem cmp start z)"
proof -
  have "of_nat p + start < of_nat q + start" if "p < q" "q \<le> z" for p q
    using that assms by (simp add: word_less_nat_alt unat_word_ariths unat_of_nat)
  moreover have "\<forall>p \<in> set (matching cmp (contents_at mem (iov_addrs (start, z)))). p \<le> z"
    by (auto simp: matching_def contents_at_def)
  moreover have "sorted_wrt (<) (matching cmp (contents_at mem (iov_addrs (start, z))))"
    by (simp add: matching_def sorted_wrt_filter)
  ultimately show ?thesis
    unfolding matching_addrs_def sorted_wrt_map
    by (auto elim!: sorted_wrt_mono_rel [rotated])
qed

text \<open>Addresses aligned to the value's size, as a scan for a typed value finds them.\<close>

definition size_aligned :: "nat \<Rightarrow> u64 list \<Rightarrow> bool" where
  "size_aligned sz addrs \<longleftrightarrow> list_all (\<lambda>a. unat a mod sz = 0) addrs"

lemma good_span:
  assumes "vr_good vs region"
  shows "unat (vStart region) + unat (vSize region) = unat (vEnd region) \<and>
    unat (vStart region) + unat (vSize region) < 2 ^ 64"
proof -
  have "vStart region < vEnd region" "vSize region = vEnd region - vStart region"
    using assms by (simp_all add: vr_good_def)
  then show ?thesis
    using unsigned_less [of "vEnd region"] by (simp add: unat_sub word_less_nat_alt word_le_nat_alt)
qed

lemma good_inside:
  assumes "vr_good (of_nat sz) region" "size_aligned sz (addresses region)" "sz dvd 4096" "a \<in> set (addresses region)"
  shows "unat (vStart region) \<le> unat a \<and> unat a + sz \<le> unat (vStart region) + unat (vSize region) \<and>
    (unat a - unat (vStart region)) mod sz = 0"
proof -
  have "sz \<le> 4096" using assms(3) by (auto dest: dvd_imp_le)
  then have "unat (of_nat sz :: u64) = sz" by (simp add: unat_of_nat)
  with assms(1,4) good_span [OF assms(1)]
  have b: "unat (vStart region) \<le> unat a" "unat a + sz \<le> unat (vStart region) + unat (vSize region)"
    by (auto simp: vr_good_def)
  have "sz dvd unat (vStart region)"
    using assms(1,3) by (auto simp: vr_good_def page_aligned_def mod_0_imp_dvd intro: dvd_trans)
  moreover have "sz dvd unat a" using assms(2,4) by (auto simp: size_aligned_def list_all_iff)
  ultimately show ?thesis using b by (simp add: dvd_diff_nat)
qed

lemma good_sorted: "vr_good vs region \<Longrightarrow> sorted_wrt (<) (filter P (addresses region))"
  by (intro sorted_wrt_filter) (simp add: vr_good_def vr_inv_def)

lemma dense_matches:
  assumes "vr_good (of_nat (comp_Size cmp)) region" "size_aligned (comp_Size cmp) (addresses region)"
    and "readable mem (iov_addrs (vStart region, unat (vSize region)))" "0 < comp_Size cmp" "comp_Size cmp dvd 4096"
  shows "filter (\<lambda>q. q \<in> set (addresses region)) (matching_addrs mem cmp (vStart region) (unat (vSize region))) =
    filter (holds mem cmp) (addresses region)"
proof (rule strict_sorted_equal)
  define sz where "sz = comp_Size cmp"
  define start where "start = vStart region"
  define z where "z = unat (vSize region)"
  note inside = good_inside [OF assms(1,2,5)]
  have wrap: "unat start + z < 2 ^ 64"
    using good_span [OF assms(1)] by (simp add: start_def z_def)
  have in_m: "a \<in> set (matching_addrs mem cmp start z) \<longleftrightarrow> holds mem cmp a" if "a \<in> set (addresses region)" for a
  proof
    assume "holds mem cmp a"
    moreover have "a = of_nat (unat a - unat start) + start"
      using inside [OF that] by (simp add: of_nat_diff start_def)
    ultimately show "a \<in> set (matching_addrs mem cmp start z)"
      unfolding in_matching_addrs [OF assms(3,4) [folded start_def z_def]]
      using inside [OF that] by (intro exI [of _ "unat a - unat start"]) (auto simp: start_def z_def)
  next
    assume "a \<in> set (matching_addrs mem cmp start z)"
    then show "holds mem cmp a"
      unfolding in_matching_addrs [OF assms(3,4) [folded start_def z_def]] by auto
  qed
  show "sorted_wrt (<) (filter (\<lambda>q. q \<in> set (addresses region)) (matching_addrs mem cmp (vStart region) (unat (vSize region))))"
    using matching_addrs_sorted [OF wrap] by (intro sorted_wrt_filter) (simp add: start_def z_def)
  show "sorted_wrt (<) (filter (holds mem cmp) (addresses region))"
    by (rule good_sorted [OF assms(1)])
  show "set (filter (\<lambda>q. q \<in> set (addresses region)) (matching_addrs mem cmp (vStart region) (unat (vSize region)))) =
      set (filter (holds mem cmp) (addresses region))"
    using in_m by (auto simp: start_def z_def)
qed

lemma collect_prefix:
  "go_fold (batch_add put_ignoring) xs ([], buf) = Some s \<Longrightarrow> collect_into xs buf = batch_flush put_ignoring s"
  by (simp add: collect_into_def)

lemma distinct_multiples:
  assumes "sorted_wrt (<) xs" "list_all (\<lambda>a. lo \<le> a \<and> a + sz \<le> lo + z \<and> (a - lo) mod sz = 0) xs" "0 < (sz :: nat)"
  shows "length xs \<le> z div sz"
proof -
  have "(\<lambda>a. (a - lo) div sz) ` set xs \<subseteq> {..<z div sz}"
  proof (clarsimp)
    fix a assume "a \<in> set xs"
    with assms(2) have a: "lo \<le> a" "a + sz \<le> lo + z" by (auto simp: list_all_iff)
    then have "a - lo + sz \<le> z" by simp
    moreover have "(x + sz) div sz = x div sz + 1" for x using assms(3) by (simp add: div_add_self2)
    ultimately have "(a - lo) div sz + 1 \<le> z div sz"
      using div_le_mono [of "a - lo + sz" z sz] by simp
    then show "(a - lo) div sz < z div sz" by simp
  qed
  moreover have "inj_on (\<lambda>a. (a - lo) div sz) (set xs)"
  proof (rule inj_onI)
    fix a b assume "a \<in> set xs" "b \<in> set xs" "(a - lo) div sz = (b - lo) div sz"
    with assms(2) have "a - lo = b - lo" "lo \<le> a" "lo \<le> b"
      by (auto simp: list_all_iff dest!: mod_0_imp_dvd dvd_div_mult_self) (metis dvd_div_mult_self mod_0_imp_dvd)+
    then show "a = b" by simp
  qed
  ultimately have "card (set xs) \<le> z div sz"
    using card_inj_on_le [of "\<lambda>a. (a - lo) div sz" "set xs" "{..<z div sz}"] by simp
  moreover have "distinct xs" using assms(1) by (simp add: strict_sorted_iff)
  ultimately show ?thesis by (simp add: distinct_card)
qed

lemma taskNextScanDense_leaves:
  assumes "reads_memory vm pid mem" "wf_value v" "v_data v \<noteq> []" "Aligned v"
    and "NewScanner v = Some scan" "Value_Comparable v = Some cmp"
    and "vr_good (of_nat (comp_Size cmp)) region" "size_aligned (comp_Size cmp) (addresses region)"
    and "readable mem (iov_addrs (vStart region, unat (vSize region)))" "0 < comp_Size cmp" "comp_Size cmp dvd 4096"
    and "bufSize = unat (vSize region) div comp_Size cmp" "sys (bufSize * 8)"
  shows "\<exists>out. taskNextScanDense sys (\<lambda>_. False) vm pid scan region bufSize = Some out \<and>
    leaves (filter (holds mem cmp) (addresses region)) bufSize out \<and>
    length (filter (holds mem cmp) (addresses region)) \<le> bufSize"
proof -
  define z where "z = unat (vSize region)"
  define xs where "xs = filter (holds mem cmp) (addresses region)"
  have good: "vr_inv region" "pending region = addresses region" "vSize region = vEnd region - vStart region"
    "z \<le> 2097152" "page_aligned (vStart region)" "page_aligned (vEnd region)" "vStart region < vEnd region"
    using assms(7) unfolding vr_good_def z_def by blast+
  have zmod: "z = unat (vEnd region) - unat (vStart region)"
    using good(3,7) by (simp add: z_def unat_sub word_less_nat_alt word_le_nat_alt)
  have "4096 \<le> z"
  proof -
    have "4096 dvd z" using good(5,6) zmod by (simp add: page_aligned_def mod_0_imp_dvd dvd_diff_nat)
    moreover have "0 < z" using zmod good(7) by (simp add: word_less_nat_alt)
    ultimately show ?thesis by (simp add: dvd_imp_le)
  qed
  moreover have "comp_Size cmp \<le> 4096" using assms(11) by (auto dest: dvd_imp_le)
  ultimately have "0 < bufSize"
    using assms(10,12) by (simp add: div_greater_zero_iff flip: z_def)
  moreover have small: "bufSize < 2 ^ 59"
    using order_trans [OF div_le_dividend good(4), of "comp_Size cmp"] by (simp add: assms(12) flip: z_def)
  ultimately obtain buf where new: "NewMmapUint64 sys bufSize = Some (Some buf)"
    using NewMmapUint64_granted [of bufSize sys] assms(13) by blast
  have len: "length xs \<le> bufSize"
  proof -
    have "sorted_wrt (<) (map unat xs)"
      using good_sorted [OF assms(7), of "holds mem cmp"]
      by (simp add: sorted_wrt_map xs_def word_less_nat_alt [abs_def])
    moreover have "list_all (\<lambda>a. unat (vStart region) \<le> a \<and> a + comp_Size cmp \<le> unat (vStart region) + z \<and>
        (a - unat (vStart region)) mod comp_Size cmp = 0) (map unat xs)"
      using good_inside [OF assms(7,8,11)] by (simp add: list_all_iff xs_def z_def)
    ultimately show ?thesis
      using distinct_multiples [of "map unat xs"] assms(10) by (fastforce simp: assms(12) z_def)
  qed
  have wrap: "unat (vStart region) + z < 2 ^ 64"
    using zmod good(7) unsigned_less [of "vEnd region"] by (simp add: word_less_nat_alt)
  from ScanCollector_region [OF assms(1), where a = "vStart region" and e = "vEnd region" and v = v and bufSize = defScanBufferSize
      and options = "Some \<lparr>ExpectedSize = vSize region\<rparr>" and pooled = pooled_reader and c = "(([], buf), region)",
      OF _ _ assms(2-4) _ _ dense_idle]
  have scan: "map_option snd (ScanCollector (\<lambda>_. False) (rr_Read vm) (Some rr_seek_start) (Some \<lparr>ExpectedSize = vSize region\<rparr>) scan
      (Some dense_collector) (vPipe pid region) (([], buf), region)) =
      go_fold (collect dense_collector) (map int (matching cmp (contents_at mem (iov_addrs (vStart region, z))))) (([], buf), region)"
    using assms(5,6,9) good(3,4) by (simp add: NewScanner_def vPipe_def z_def)
  have "map (\<lambda>i. of_int i + vStart region) (map int (matching cmp (contents_at mem (iov_addrs (vStart region, z))))) =
      matching_addrs mem cmp (vStart region) z"
    by (simp add: matching_addrs_def comp_def)
  with dense_fold [OF good(1), of "map int (matching cmp (contents_at mem (iov_addrs (vStart region, z))))" "([], buf)"]
    matching_addrs_sorted [OF wrap, of mem cmp] dense_matches [OF assms(7-11)] good(2)
  obtain r' where fold: "go_fold (collect dense_collector) (map int (matching cmp (contents_at mem (iov_addrs (vStart region, z)))))
      (([], buf), region) = map_option (\<lambda>s. (s, r')) (go_fold (batch_add put_ignoring) xs ([], buf))"
    by (auto simp: xs_def z_def)
  from task_leaves [OF new small, of xs] len small obtain buf' where
    b: "collect_into xs buf = Some buf'" "leaves xs bufSize (task_outcome buf')" by auto
  then obtain s where s: "go_fold (batch_add put_ignoring) xs ([], buf) = Some s" "batch_flush put_ignoring s = Some buf'"
    by (auto simp: collect_into_def split: Option.bind_splits)
  with scan fold obtain r where "ScanCollector (\<lambda>_. False) (rr_Read vm) (Some rr_seek_start) (Some \<lparr>ExpectedSize = vSize region\<rparr>) scan
      (Some dense_collector) (vPipe pid region) (([], buf), region) = Some (r, s, r')"
    by auto
  with new s b(2) len show ?thesis
    by (simp add: taskNextScanDense_def flip: xs_def)
qed

end
