(* ===== verification/Task_Pool.thy ===== *)
theory Task_Pool
  imports Tasks
begin

text \<open>
  Running the tasks of a scan and merging what they leave (\<^verbatim>\<open>FirstScan\<close>, \<^verbatim>\<open>nextScanDense\<close>, \<^verbatim>\<open>nextScanSparse\<close>). Every
  task is a goroutine that writes at most its own entry of \<open>regionBuffers\<close>, so a run is a sequence
  of finishing tasks in any order. The scans below run them in the order they were
  started; that this is no restriction is proved first.
\<close>

type_synonym buffers = "MmapUint64 option list"

definition store_outcome :: "nat \<Rightarrow> MmapUint64 option \<Rightarrow> buffers \<Rightarrow> buffers" where
  "store_outcome i out bufs = (case out of None \<Rightarrow> bufs | Some b \<Rightarrow> bufs[i := Some b])"

definition run_tasks :: "(nat \<Rightarrow> MmapUint64 option go) \<Rightarrow> nat \<Rightarrow> nat \<Rightarrow> buffers go" where
  "run_tasks task m n =
     go_fold (\<lambda>i bufs. do { out \<leftarrow> task i; Some (store_outcome i out bufs) }) [0..<m] (replicate n None)"

section \<open>Any order\<close>

text \<open>The buffers and the tasks still running; any of these may be the next to finish.\<close>

inductive task_step ::
  "(nat \<Rightarrow> MmapUint64 option go) \<Rightarrow> buffers \<times> nat set \<Rightarrow> buffers \<times> nat set \<Rightarrow> bool" for task where
  finish: "i \<in> running \<Longrightarrow> task i = Some out \<Longrightarrow>
    task_step task (bufs, running) (store_outcome i out bufs, running - {i})"

inductive_cases task_stepE: "task_step task (bufs, running) s"

text \<open>The buffers when exactly the tasks not in \<open>running\<close> have finished.\<close>

definition outcomes :: "(nat \<Rightarrow> MmapUint64 option go) \<Rightarrow> nat \<Rightarrow> nat \<Rightarrow> nat set \<Rightarrow> buffers" where
  "outcomes task m n running =
     map (\<lambda>i. if i < m \<and> i \<notin> running then the (task i) else None) [0..<n]"

lemma store_outcomes:
  assumes "i \<in> running" "task i = Some out" "i < m"
  shows "store_outcome i out (outcomes task m n running) = outcomes task m n (running - {i})"
proof (intro nth_equalityI)
  fix j assume "j < length (store_outcome i out (outcomes task m n running))"
  then have j: "j < n" by (simp add: store_outcome_def outcomes_def split: option.splits)
  show "store_outcome i out (outcomes task m n running) ! j = outcomes task m n (running - {i}) ! j"
    using j assms by (cases "j = i"; cases out) (auto simp: store_outcome_def outcomes_def)
qed (simp add: store_outcome_def outcomes_def split: option.splits)

lemma run_tasks_outcomes:
  assumes "\<forall>i < m. task i \<noteq> None"
  shows "run_tasks task m n = Some (outcomes task m n {})"
proof -
  have "go_fold (\<lambda>i bufs. do { out \<leftarrow> task i; Some (store_outcome i out bufs) }) [0..<k] (replicate n None) =
      Some (outcomes task m n {k..<m})" if "k \<le> m" for k
    using that
  proof (induction k)
    case 0
    have "replicate n None = outcomes task m n {0..<m}"
      by (intro nth_equalityI) (simp_all add: outcomes_def)
    then show ?case by simp
  next
    case (Suc k)
    then have "k < m" by simp
    with assms have "task k \<noteq> None" by blast
    then obtain out where "task k = Some out" by blast
    moreover have "{k..<m} - {k} = {Suc k..<m}" by auto
    ultimately show ?case
      using Suc store_outcomes [of k "{k..<m}" task out m n] by (simp add: go_fold_append)
  qed
  from this [of m] show ?thesis by (simp add: run_tasks_def)
qed

lemma run_tasks_panics: "i < m \<Longrightarrow> task i = None \<Longrightarrow> run_tasks task m n = None"
proof -
  assume "i < m" "task i = None"
  then have "[0..<m] = [0..<i] @ i # [Suc i..<m]"
    using upt_add_eq_append [of 0 i "m - i"] by (simp add: upt_conv_Cons)
  then show ?thesis
    using \<open>task i = None\<close> by (simp add: run_tasks_def go_fold_append bind_eq_None_conv)
qed

lemma task_steps_outcomes:
  assumes "(task_step task)\<^sup>*\<^sup>* (replicate n None, {..<m}) (bufs, running)"
  shows "running \<subseteq> {..<m} \<and> bufs = outcomes task m n running \<and> (\<forall>i < m. i \<notin> running \<longrightarrow> task i \<noteq> None)"
  using assms
proof (induction rule: rtranclp_induct2)
  case refl
  show ?case by (auto simp: outcomes_def intro!: nth_equalityI)
next
  case (step bufs running bufs' running')
  from step(2) obtain i out where "i \<in> running" "task i = Some out" "bufs' = store_outcome i out bufs" "running' = running - {i}"
    by (auto elim!: task_stepE)
  with step(3) store_outcomes [of i running task out m n] show ?case by auto
qed

lemma task_steps_finish:
  assumes "\<forall>i < m. task i \<noteq> None" "running \<subseteq> {..<m}" "finite running"
  shows "\<exists>bufs'. (task_step task)\<^sup>*\<^sup>* (bufs, running) (bufs', {})"
  using assms(3,2)
proof (induction running arbitrary: bufs rule: finite_induct)
  case (insert i running)
  with assms(1) obtain out where "task i = Some out" by auto
  with insert(2) have "task_step task (bufs, insert i running) (store_outcome i out bufs, running)"
    using task_step.finish [of i "insert i running" task out bufs] by simp
  with insert show ?case
    by (meson converse_rtranclp_into_rtranclp insert_subset)
qed blast

text \<open>
  In whatever order the tasks of a scan finish, the buffers at the end are those of running them one
  after the other; and if no task panics every order comes to an end.
\<close>

lemma tasks_any_order:
  "((task_step task)\<^sup>*\<^sup>* (replicate n None, {..<m}) (bufs, {}) \<longleftrightarrow> run_tasks task m n = Some bufs)"
proof
  assume "(task_step task)\<^sup>*\<^sup>* (replicate n None, {..<m}) (bufs, {})"
  from task_steps_outcomes [OF this] run_tasks_outcomes [of m task n] show "run_tasks task m n = Some bufs" by simp
next
  assume run: "run_tasks task m n = Some bufs"
  have total: "\<forall>i < m. task i \<noteq> None"
  proof (intro allI impI)
    fix i assume "i < m"
    with run run_tasks_panics [of i m task n] show "task i \<noteq> None" by auto
  qed
  then obtain bufs' where steps: "(task_step task)\<^sup>*\<^sup>* (replicate n None, {..<m}) (bufs', {})"
    using task_steps_finish [of m task "{..<m}"] by auto
  from task_steps_outcomes [OF this] run_tasks_outcomes [OF total, of n] run steps
  show "(task_step task)\<^sup>*\<^sup>* (replicate n None, {..<m}) (bufs, {})" by simp
qed

section \<open>Merging\<close>

definition merge_buffers :: "(nat \<Rightarrow> bool) \<Rightarrow> buffers \<Rightarrow> MmapUint64 \<Rightarrow> MmapUint64 go" where
  "merge_buffers sys bufs results =
     go_fold (\<lambda>buf results.
        case buf of None \<Rightarrow> Some results
        | Some buf \<Rightarrow> do {
            (err, results) \<leftarrow> mm_Merge sys (Some buf) results;
            let buf = mm_Destroy buf;
            Some results
          }) bufs results"

lemma merge_buffers_append:
  "merge_buffers sys (bufs @ bufs') results = do { r \<leftarrow> merge_buffers sys bufs results; merge_buffers sys bufs' r }"
  by (simp add: merge_buffers_def go_fold_append)

lemma merge_buffers_none: "merge_buffers sys (replicate k None) results = Some results"
  by (induction k) (simp_all add: merge_buffers_def)

lemma merge_one:
  "merge_buffers sys (None # bufs) r = merge_buffers sys bufs r"
  "merge_buffers sys (Some b # bufs) r = do { (err, r) \<leftarrow> mm_Merge sys (Some b) r; merge_buffers sys bufs r }"
  by (simp_all add: merge_buffers_def split_def)

text \<open>Outcomes that fit are appended in the order of the tasks.\<close>

lemma merge_leaves:
  assumes "list_all2 (\<lambda>xs out. \<exists>caps. length xs \<le> caps \<and> leaves xs caps out) xss outs" "mm_inv r"
    and "length (mm_contents r @ concat xss) \<le> N" "N < 2 ^ 58" "mm_capacity r \<le> K" "2 * N \<le> K" "K < 2 ^ 59"
    and "\<forall>k. sys k"
  shows "\<exists>r'. merge_buffers sys outs r = Some r' \<and> mm_inv r' \<and> mm_contents r' = mm_contents r @ concat xss \<and>
    mm_capacity r' \<le> K"
  using assms(1-3,5)
proof (induction xss outs arbitrary: r rule: list_all2_induct)
  case Nil
  then show ?case by (auto simp: merge_buffers_def)
next
  case (Cons xs xss out outs)
  from Cons.hyps(1) obtain caps where caps: "length xs \<le> caps" "leaves xs caps out" by blast
  show ?case
  proof (cases "xs = []")
    case True
    with caps have "out = None" by (simp add: leaves_def)
    with True Cons.IH [of r] Cons.prems show ?thesis by (simp add: merge_one)
  next
    case False
    with caps obtain b where b: "out = Some b" "mm_inv b" "mm_contents b = xs" by (auto simp: leaves_def)
    have "2 * length (mm_data r) < 2 ^ 60" using Cons.prems(3) assms(7) by (simp add: mm_capacity_def)
    moreover have "length (mm_contents r) + length (mm_contents b) \<le> N"
      using Cons.prems(2) b(3) by simp
    moreover from this have "length (mm_contents r) + length (mm_contents b) < 2 ^ 60" using assms(4) by simp
    ultimately obtain r1 where r1: "mm_Merge sys (Some b) r = Some (None, r1)" "mm_inv r1"
      "mm_contents r1 = mm_contents r @ xs" "mm_capacity r1 \<le> max (mm_capacity r) (2 * (length (mm_contents r) + length xs))"
      using mm_Merge_granted [OF Cons.prems(1) b(2)] b(3) assms(8) by blast
    have "mm_capacity r1 \<le> K"
      using r1(4) Cons.prems(2,3) assms(6) by simp
    moreover have "length (mm_contents r1 @ concat xss) \<le> N" using Cons.prems(2) r1(3) by simp
    ultimately show ?thesis
      using Cons.IH [OF r1(2)] r1(1,3) b(1) by (simp add: merge_one)
  qed
qed

text \<open>An overfull outcome makes the merge panic.\<close>

lemma overfull_Data: "overfull b \<Longrightarrow> mm_Data b = None"
  by (simp add: overfull_def mm_Data_def slice_uint)

lemma mm_Merge_overfull:
  assumes "overfull b" "\<forall>k. sys k"
  shows "mm_Merge sys (Some b) r = None"
proof -
  have "0 < unat (mm_cursor b)" "(of_int (mm_Len b) :: u64) = mm_cursor b"
    using assms(1) by (simp_all add: overfull_def mm_Len_def)
  moreover from this have "mm_cursor b \<noteq> 0" by auto
  moreover have "fst (mm_ensure sys (mm_cursor r + mm_cursor b) r) = None"
    using assms(2) by (simp add: mm_ensure_def mm_grow_def Let_def)
  ultimately show ?thesis
    using overfull_Data [OF assms(1)]
    by (cases "mm_ensure sys (mm_cursor r + mm_cursor b) r") (simp add: mm_Merge_def Let_def bind_eq_None_conv)
qed

lemma merge_overfull:
  assumes "Some b \<in> set outs" "overfull b" "\<forall>k. sys k"
  shows "merge_buffers sys outs r = None"
  using assms(1)
proof (induction outs arbitrary: r)
  case (Cons out outs)
  then show ?case
    using mm_Merge_overfull [OF assms(2,3), of r]
    by (cases out) (auto simp: merge_one bind_eq_None_conv split_def)
qed simp

end
