(* ===== verification/Memscan.thy ===== *)
theory Memscan
  imports Task_Pool Regions Maps
begin

text \<open>
  The scan engine (\<^verbatim>\<open>memscan.go\<close>, \<^verbatim>\<open>memscan_first_scan.go\<close>, \<^verbatim>\<open>memscan_next_scan.go\<close>): its state, the scans, undo, and
  the operations on the results.
\<close>

section \<open>State\<close>

text \<open>
  A process is its number; the opened maps file is the path of the executable read with it. The context is
  absent before the first \<open>Reset\<close>, then known to be cancelled or not.
\<close>

record Memscan =
  ms_proc :: "int option"
  ms_maps :: "string option"
  ms_results :: "MmapUint64 option"
  ms_prevResults :: "MmapUint64 option"
  ms_round :: u64
  ms_canUndo :: bool
  ms_ctx :: "bool option"

text \<open>
  What a scan meets outside the program: the mappings the kernel grants to the engine and to each task, the
  system call that reads, which processes live, the text of the maps file, whether the semaphore admits the
  \<open>i\<close>-th task (it does not once the context is cancelled), when a running task sees the
  context cancelled, and the buffers of the pool.
\<close>

record World =
  w_sys :: "nat \<Rightarrow> bool"
  w_task_sys :: "nat \<Rightarrow> nat \<Rightarrow> bool"
  w_readv :: vm_readv
  w_alive :: "int \<Rightarrow> bool"
  w_maps :: string
  w_acquire :: "nat \<Rightarrow> bool"
  w_ctx :: "nat \<Rightarrow> nat \<Rightarrow> bool"
  w_pooled :: "nat \<Rightarrow> bytes"

definition resultsAllocCaps :: nat where
  "resultsAllocCaps = 64 * 1024 * 1024"

definition nextScanSparseThreshold :: nat where
  "nextScanSparseThreshold = IOV_MAX * 32"

definition NewMemscan :: "(nat \<Rightarrow> bool) \<Rightarrow> Memscan go" where
  "NewMemscan sys = do {
     results \<leftarrow> NewMmapUint64 sys resultsAllocCaps;
     lastResults \<leftarrow> NewMmapUint64 sys resultsAllocCaps;
     Some \<lparr>ms_proc = None, ms_maps = None, ms_results = results, ms_prevResults = lastResults,
           ms_round = 0, ms_canUndo = False, ms_ctx = None\<rparr>
   }"

definition CanUndo :: "Memscan \<Rightarrow> bool" where
  "CanUndo m = ms_canUndo m"

definition UndoScan :: "Memscan \<Rightarrow> (bool \<times> Memscan) go" where
  "UndoScan m =
     (if \<not> ms_canUndo m then Some (False, m)
      else do {
        prev \<leftarrow> ms_results m;
        Some (True, m\<lparr>ms_canUndo := False, ms_results := ms_prevResults m,
                      ms_prevResults := Some (mm_Clear prev), ms_round := ms_round m - 1\<rparr>)
      })"

definition Cancel :: "Memscan \<Rightarrow> Memscan" where
  "Cancel m = m\<lparr>ms_ctx := map_option (\<lambda>_. True) (ms_ctx m)\<rparr>"

definition Close :: "Memscan \<Rightarrow> Memscan" where
  "Close m = m\<lparr>ms_maps := None\<rparr>"

definition Reset :: "Memscan \<Rightarrow> Memscan" where
  "Reset m = (Cancel m)\<lparr>ms_ctx := Some False, ms_results := map_option mm_Clear (ms_results m),
     ms_prevResults := map_option mm_Clear (ms_prevResults m), ms_round := 0, ms_canUndo := False\<rparr>"

text \<open>\<open>Open\<close>: \<open>opened\<close> is what \<^verbatim>\<open>OpenMaps\<close> gives for the process, \<open>None\<close> for an error.\<close>

definition Open :: "int \<Rightarrow> string option \<Rightarrow> Memscan \<Rightarrow> bool \<times> Memscan" where
  "Open pid opened m =
     (let m = (Close m)\<lparr>ms_proc := Some pid, ms_maps := opened\<rparr> in
      if opened = None then (False, m) else (True, Reset m))"

definition Results :: "Memscan \<Rightarrow> u64 list go" where
  "Results m = (case ms_results m of None \<Rightarrow> Some [] | Some r \<Rightarrow> mm_Data r)"

definition Count :: "Memscan \<Rightarrow> int" where
  "Count m = (case ms_results m of None \<Rightarrow> 0 | Some r \<Rightarrow> mm_Len r)"

definition Rounds :: "Memscan \<Rightarrow> u64" where
  "Rounds m = ms_round m"

definition Memscan_String :: "Memscan \<Rightarrow> string" where
  "Memscan_String m =
     (if ms_maps m = None then ''The process does not exist''
      else ''Scan #'' @ show_int (uint (ms_round m)) @ '', Results '' @ show_int (Count m))"

definition SearchInResults :: "u64 \<Rightarrow> Memscan \<Rightarrow> int go" where
  "SearchInResults address m =
     (case ms_results m of
        None \<Rightarrow> Some (- 1)
      | Some r \<Rightarrow>
          if mm_Len r = 0 then Some (- 1)
          else do {
            data \<leftarrow> mm_Data r;
            let (i, found) = BinarySearch data address;
            Some (if found then int i else - 1)
          })"

section \<open>The first scan\<close>

definition launched :: "World \<Rightarrow> nat \<Rightarrow> nat" where
  "launched w n = length (takeWhile (w_acquire w) [0..<n])"

text \<open>The whole of \<open>FirstScan\<close> but pausing the process and measuring the time.\<close>

definition FirstScan :: "World \<Rightarrow> Value \<Rightarrow> Memscan \<Rightarrow> Memscan go" where
  "FirstScan w value m =
     (let m = Reset m in
      case ms_results m of
        None \<Rightarrow> Some m
      | Some results \<Rightarrow>
          (case ms_proc m of
             None \<Rightarrow> Some (Close m)
           | Some pid \<Rightarrow>
               if \<not> w_alive w pid then Some (Close m)
               else do {
                 exe \<leftarrow> ms_maps m;
                 regions \<leftarrow> Maps_Parse exe (w_maps w) [REGION_ALL_RW];
                 regions \<leftarrow> RegionsOptimize regions;
                 scan \<leftarrow> NewScanner value;
                 bufs \<leftarrow> run_tasks (\<lambda>i. taskFirstScan (w_task_sys w i) (w_ctx w i) (w_readv w) pid scan (regions ! i))
                           (launched w (length regions)) (length regions);
                 results \<leftarrow> merge_buffers (w_sys w) bufs results;
                 Some (m\<lparr>ms_round := ms_round m + 1, ms_results := Some results\<rparr>)
               }))"

section \<open>The next scans\<close>

text \<open>What both end with: merging into the cleared previous results and swapping the two.\<close>

definition finish_next :: "World \<Rightarrow> buffers \<Rightarrow> Memscan \<Rightarrow> Memscan go" where
  "finish_next w bufs m = do {
     let m = m\<lparr>ms_round := ms_round m + 1, ms_canUndo := True\<rparr>;
     prev \<leftarrow> ms_prevResults m;
     prev \<leftarrow> merge_buffers (w_sys w) bufs (mm_Clear prev);
     Some (m\<lparr>ms_results := Some prev, ms_prevResults := ms_results m\<rparr>)
   }"

definition nextScanDense :: "World \<Rightarrow> Value \<Rightarrow> Memscan \<Rightarrow> Memscan go" where
  "nextScanDense w value m = do {
     results \<leftarrow> ms_results m;
     data \<leftarrow> mm_Data results;
     let regions = BuildVirtualRegions data (of_nat (Value_Size value));
     scan \<leftarrow> NewScanner value;
     cancelled \<leftarrow> ms_ctx m;
     bufs \<leftarrow> run_tasks (\<lambda>i. do {
               pid \<leftarrow> ms_proc m;
               if Value_Size value = 0 then None
               else taskNextScanDense (w_task_sys w i) (\<lambda>k. cancelled \<or> w_ctx w i k) (w_readv w) pid scan
                      (regions ! i) (unat (vSize (regions ! i)) div Value_Size value)
             }) (launched w (length regions)) (length regions);
     finish_next w bufs m
   }"

text \<open>The blocks of addresses the sparse scan starts tasks for.\<close>

fun launch_sparse :: "World \<Rightarrow> MmapUint64 \<Rightarrow> nat \<Rightarrow> nat list \<Rightarrow> nat \<Rightarrow> u64 list list go" where
  "launch_sparse w results count [] number = Some []"
| "launch_sparse w results count (start # starts) number =
     (if \<not> w_acquire w number then Some []
      else do {
        let batchCount = (if count < start + nextScanTaskSize then int count - int start else int nextScanTaskSize);
        addrs \<leftarrow> mm_GetN (int start) batchCount results;
        if addrs = [] then Some []
        else do { blocks \<leftarrow> launch_sparse w results count starts (number + 1); Some (addrs # blocks) }
      })"

definition nextScanSparse :: "World \<Rightarrow> Value \<Rightarrow> Memscan \<Rightarrow> Memscan go" where
  "nextScanSparse w value m = do {
     results \<leftarrow> ms_results m;
     let count = nat (mm_Len results);
     cmp \<leftarrow> Value_Comparable value;
     let regionSize = count div nextScanTaskSize + (if count mod nextScanTaskSize \<noteq> 0 then 1 else 0);
     cancelled \<leftarrow> ms_ctx m;
     blocks \<leftarrow> launch_sparse w results count (loop_starts count nextScanTaskSize) 0;
     bufs \<leftarrow> run_tasks (\<lambda>i. do {
               pid \<leftarrow> ms_proc m;
               taskNextScanSparse (w_task_sys w i) (w_readv w) pid (w_pooled w i) (blocks ! i) cmp
             }) (length blocks) regionSize;
     finish_next w bufs m
   }"

text \<open>A missing value or no results: nothing happens.\<close>

definition next_scan :: "(Value \<Rightarrow> Memscan \<Rightarrow> Memscan go) \<Rightarrow> Value option \<Rightarrow> Memscan \<Rightarrow> Memscan go" where
  "next_scan scan value m =
     (case (ms_results m, value) of
        (Some results, Some value) \<Rightarrow> if mm_Len results = 0 then Some m else scan value m
      | _ \<Rightarrow> Some m)"

definition NextScanForceDense :: "World \<Rightarrow> Value option \<Rightarrow> Memscan \<Rightarrow> Memscan go" where
  "NextScanForceDense w = next_scan (nextScanDense w)"

definition NextScanForceSparse :: "World \<Rightarrow> Value option \<Rightarrow> Memscan \<Rightarrow> Memscan go" where
  "NextScanForceSparse w = next_scan (nextScanSparse w)"

definition NextScan :: "World \<Rightarrow> Value option \<Rightarrow> Memscan \<Rightarrow> Memscan go" where
  "NextScan w = next_scan (\<lambda>value m.
     if int nextScanSparseThreshold < Count m then nextScanDense w value m else nextScanSparse w value m)"

section \<open>The values at the results\<close>

text \<open>The rows of the results: the address in hexadecimal and the value; float printing is a parameter.\<close>

fun upper_hex_digits :: "nat \<Rightarrow> nat \<Rightarrow> string" where
  "upper_hex_digits 0 n = []"
| "upper_hex_digits (Suc k) n = upper_hex_digits k (n div 16) @ [upper_hex (n mod 16)]"

definition hex_width :: "nat \<Rightarrow> nat" where
  "hex_width n = (if n < 16 ^ 8 then 8 else length (takeWhile (\<lambda>k. 16 ^ k \<le> n) [0..<16]))"

definition show_addr :: "u64 \<Rightarrow> string" where
  "show_addr a = upper_hex_digits (hex_width (unat a)) (unat a)"

definition RenderResults ::
  "(fmt \<Rightarrow> fl \<Rightarrow> string) \<Rightarrow> World \<Rightarrow> Value option \<Rightarrow> Memscan \<Rightarrow> (string \<times> string) list go" where
  "RenderResults sf w valueType m =
     (case valueType of
        None \<Rightarrow> Some []
      | Some valueType \<Rightarrow>
          (case ms_results m of
             None \<Rightarrow> Some []
           | Some results \<Rightarrow>
               let count = mm_Len results in
               if count = 0 then Some []
               else do {
                 let valueSize = Value_Size valueType;
                 let buf = getReadBuffer (w_pooled w 0) (nat count * valueSize);
                 pid \<leftarrow> ms_proc m;
                 data \<leftarrow> mm_Data results;
                 disturb \<leftarrow> Value_DisturbingByte valueType;
                 buf \<leftarrow> readValuesRaw (w_readv w) pid data (int valueSize) disturb buf;
                 let value = SetType (v_typ valueType) \<lparr>v_typ = 0, v_data = [], v_option = 0\<rparr>;
                 (value, rows) \<leftarrow> go_fold (\<lambda>i (value, rows). do {
                     (addr, ok) \<leftarrow> mm_Index (int i) results;
                     if \<not> ok then Some (value, rows)
                     else do {
                       let offset = i * valueSize;
                       b \<leftarrow> slice buf (int offset) (int (offset + valueSize));
                       let value = SetBytes b value;
                       shown \<leftarrow> Format sf [v_typ value] value;
                       Some (value, rows @ [(show_addr addr, shown)])
                     }
                   }) [0..<nat count] (value, []);
                 Some rows
               }))"

text \<open>Writing: the memory of the process is the state that changes.\<close>

definition ChangeResultsValues ::
  "vm_writev \<Rightarrow> int list \<Rightarrow> Value \<Rightarrow> Memscan \<Rightarrow> memory \<Rightarrow> memory go" where
  "ChangeResultsValues vm retIndexes value m mem =
     (let n = Count m in
      if n = 0 then Some mem
      else do {
        results \<leftarrow> ms_results m;
        address \<leftarrow>
          (if retIndexes = [] then mm_Data results
           else go_fold (\<lambda>idx address.
                  if - 1 < idx \<and> idx < n then do {
                    (addr, ok) \<leftarrow> mm_Index idx results;
                    Some (if ok then address @ [addr] else address)
                  } else Some address) retIndexes []);
        if address \<noteq> [] then do {
          pid \<leftarrow> ms_proc m;
          (res, mem) \<leftarrow> writeValues vm pid address value mem;
          Some mem
        } else Some mem
      })"

definition ChangeValues :: "vm_writev \<Rightarrow> u64 list \<Rightarrow> Value \<Rightarrow> Memscan \<Rightarrow> memory \<Rightarrow> memory go" where
  "ChangeValues vm address value m mem =
     go_fold (\<lambda>start mem. do {
         let end' = (if length address < start + IOV_MAX then length address else start + IOV_MAX);
         block \<leftarrow> slice address (int start) (int end');
         pid \<leftarrow> ms_proc m;
         (res, mem) \<leftarrow> writeValues vm pid block value mem;
         Some mem
       }) (loop_starts (length address) IOV_MAX) mem"

end
