(* ===== verification/Memscan_Spec.thy ===== *)
theory Memscan_Spec
  imports Memscan
begin

text \<open>
  What the engine promises. A session is seen as the addresses found, those found before, the number of rounds
  and whether the last round can be undone; a next scan filters the addresses by what is in
  memory now, undo takes the filter back, and both are refined by the operations of
  the engine on its result arrays.
\<close>

section \<open>The abstract session\<close>

record Session =
  found :: "u64 list"
  before :: "u64 list"
  rounds :: u64
  undoable :: bool

definition session_next :: "(u64 \<Rightarrow> bool) \<Rightarrow> Session \<Rightarrow> Session" where
  "session_next P s = \<lparr>found = filter P (found s), before = found s, rounds = rounds s + 1, undoable = True\<rparr>"

definition session_undo :: "Session \<Rightarrow> Session" where
  "session_undo s = (if undoable s then \<lparr>found = before s, before = [], rounds = rounds s - 1, undoable = False\<rparr> else s)"

definition ms_view :: "Memscan \<Rightarrow> Session" where
  "ms_view m = \<lparr>found = (case ms_results m of None \<Rightarrow> [] | Some r \<Rightarrow> mm_contents r),
     before = (case ms_prevResults m of None \<Rightarrow> [] | Some r \<Rightarrow> mm_contents r),
     rounds = ms_round m, undoable = ms_canUndo m\<rparr>"

text \<open>The invariant of the engine: both arrays are there, well-formed and of a size a process can have.\<close>

definition array_ok :: "MmapUint64 \<Rightarrow> bool" where
  "array_ok r \<longleftrightarrow> mm_inv r \<and> mm_capacity r \<le> 2 ^ 58 \<and> length (mm_contents r) \<le> 2 ^ 57"

definition ms_inv :: "Memscan \<Rightarrow> bool" where
  "ms_inv m \<longleftrightarrow> (\<exists>r p. ms_results m = Some r \<and> ms_prevResults m = Some p \<and> array_ok r \<and> array_ok p)"

lemma ms_invE:
  assumes "ms_inv m"
  obtains r p where "ms_results m = Some r" "ms_prevResults m = Some p" "array_ok r" "array_ok p"
    "found (ms_view m) = mm_contents r" "before (ms_view m) = mm_contents p"
    "rounds (ms_view m) = ms_round m" "undoable (ms_view m) = ms_canUndo m"
  using assms by (auto simp: ms_inv_def ms_view_def)

lemma array_ok_Clear: "array_ok r \<Longrightarrow> array_ok (mm_Clear r) \<and> mm_contents (mm_Clear r) = []"
  using mm_Clear_inv [of r] by (auto simp: array_ok_def)

section \<open>Undo and reset\<close>

lemma UndoScan_undoes:
  assumes "ms_inv m"
  shows "\<exists>m'. UndoScan m = Some (ms_canUndo m, m') \<and> ms_inv m' \<and> ms_view m' = session_undo (ms_view m)"
proof -
  from assms obtain r p where "ms_results m = Some r" "ms_prevResults m = Some p" "array_ok r" "array_ok p"
    by (rule ms_invE)
  with array_ok_Clear [of r] assms show ?thesis
    by (auto simp: UndoScan_def ms_inv_def ms_view_def session_undo_def)
qed

lemma Reset_empty:
  assumes "ms_inv m"
  shows "ms_inv (Reset m) \<and> ms_view (Reset m) = \<lparr>found = [], before = [], rounds = 0, undoable = False\<rparr>"
proof -
  from assms obtain r p where "ms_results m = Some r" "ms_prevResults m = Some p" "array_ok r" "array_ok p"
    by (rule ms_invE)
  with array_ok_Clear [of r] array_ok_Clear [of p] show ?thesis
    by (auto simp: Reset_def Cancel_def ms_inv_def ms_view_def)
qed

section \<open>Merging the outcomes of a scan\<close>

definition outcome_fits :: "u64 list \<Rightarrow> MmapUint64 option \<Rightarrow> bool" where
  "outcome_fits xs out \<longleftrightarrow> (\<exists>caps. length xs \<le> caps \<and> leaves xs caps out)"

lemma run_tasks_fit:
  assumes "\<forall>i < n. \<exists>out. task i = Some out \<and> outcome_fits (xs i) out"
  shows "\<exists>bufs. run_tasks task n n = Some bufs \<and> list_all2 outcome_fits (map xs [0..<n]) bufs"
proof -
  have "\<forall>i < n. task i \<noteq> None" using assms by fastforce
  moreover have "list_all2 outcome_fits (map xs [0..<n]) (outcomes task n n {})"
    using assms by (fastforce simp: list_all2_conv_all_nth outcomes_def)
  ultimately show ?thesis by (intro exI [of _ "outcomes task n n {}"]) (simp add: run_tasks_outcomes)
qed

lemma merge_fits:
  assumes "list_all2 outcome_fits xss outs" "array_ok r" "mm_contents r = []" "length (concat xss) \<le> 2 ^ 57" "\<forall>k. sys k"
  shows "\<exists>r'. merge_buffers sys outs r = Some r' \<and> array_ok r' \<and> mm_contents r' = concat xss"
proof -
  have "list_all2 (\<lambda>xs out. \<exists>caps. length xs \<le> caps \<and> leaves xs caps out) xss outs"
    using assms(1) by (rule list_all2_mono) (simp add: outcome_fits_def)
  from merge_leaves [OF this, of r "2 ^ 57" "2 ^ 58" sys] assms(2-5) show ?thesis
    by (auto simp: array_ok_def)
qed

text \<open>A scan keeps the process, its maps and the context.\<close>

definition same_target :: "Memscan \<Rightarrow> Memscan \<Rightarrow> bool" where
  "same_target m m' \<longleftrightarrow> ms_proc m' = ms_proc m \<and> ms_maps m' = ms_maps m \<and> ms_ctx m' = ms_ctx m"

lemma finish_next_view:
  assumes "ms_inv m" "list_all2 outcome_fits xss bufs" "length (concat xss) \<le> 2 ^ 57" "\<forall>k. w_sys w k"
  shows "\<exists>m'. finish_next w bufs m = Some m' \<and> ms_inv m' \<and>
    ms_view m' = \<lparr>found = concat xss, before = found (ms_view m), rounds = rounds (ms_view m) + 1, undoable = True\<rparr> \<and>
    same_target m m'"
proof -
  from assms(1) obtain r p where m: "ms_results m = Some r" "ms_prevResults m = Some p" "array_ok r" "array_ok p"
    by (rule ms_invE)
  from merge_fits [OF assms(2) _ _ assms(3,4), of "mm_Clear p"] array_ok_Clear [OF m(4)] obtain p'
    where "merge_buffers (w_sys w) bufs (mm_Clear p) = Some p'" "array_ok p'" "mm_contents p' = concat xss" by auto
  with m show ?thesis
    by (auto simp: finish_next_def ms_inv_def ms_view_def same_target_def)
qed

section \<open>The sparse next scan\<close>

text \<open>Nothing outside the program goes wrong: mappings are granted, tasks admitted, nothing is cancelled.\<close>

definition calm :: "World \<Rightarrow> memory \<Rightarrow> int \<Rightarrow> bool" where
  "calm w mem pid \<longleftrightarrow> (\<forall>k. w_sys w k) \<and> (\<forall>i k. w_task_sys w i k) \<and> (\<forall>i. w_acquire w i) \<and> (\<forall>i k. \<not> w_ctx w i k) \<and>
     reads_memory (w_readv w) pid mem"

lemma launch_sparse_blocks:
  assumes "mm_inv r" "\<forall>i. w_acquire w i" "\<forall>start \<in> set starts. start < length (mm_contents r)"
  shows "launch_sparse w r (length (mm_contents r)) starts number =
    Some (map (\<lambda>start. take nextScanTaskSize (drop start (mm_contents r))) starts)"
  using assms(3)
proof (induction starts arbitrary: number)
  case (Cons start starts)
  define addrs where "addrs = mm_contents r"
  define n where "n = (if length addrs < start + nextScanTaskSize then int (length addrs) - int start else int nextScanTaskSize)"
  have start: "start < length addrs" using Cons.prems by (simp add: addrs_def)
  have "mm_GetN (int start) n r = Some (take (nat n) (drop start addrs))"
    using mm_GetN_correct [OF assms(1), of "int start" n] by (simp add: addrs_def)
  also have "take (nat n) (drop start addrs) = take nextScanTaskSize (drop start addrs)"
    using start by (auto simp: n_def nat_diff_distrib)
  finally have "mm_GetN (int start) n r = Some (take nextScanTaskSize (drop start addrs))" .
  moreover have "take nextScanTaskSize (drop start addrs) \<noteq> []"
    using start by (simp add: nextScanTaskSize_val)
  ultimately show ?case
    using Cons assms(2) by (simp add: Let_def n_def [unfolded addrs_def] addrs_def)
qed simp

lemma ceil_div:
  assumes "0 < (t :: nat)"
  shows "(n + t - 1) div t = n div t + (if n mod t \<noteq> 0 then 1 else 0)"
proof -
  have "n + t - 1 = (n mod t + t - 1) + n div t * t"
    using assms by (simp add: add.commute add.left_commute)
  then have "(n + t - 1) div t = (n mod t + t - 1) div t + n div t"
    using div_mult_self1 [of t "n mod t + t - 1" "n div t"] assms by (metis add.commute less_not_refl2)
  moreover have "(n mod t + t - 1) div t = (if n mod t \<noteq> 0 then 1 else 0)"
  proof (cases "n mod t")
    case (Suc k)
    then have "n mod t + t - 1 = k + t" "k < t" using mod_less_divisor [OF assms, of n] by auto
    with Suc assms show ?thesis by (simp add: div_add_self2)
  qed (use assms in simp)
  ultimately show ?thesis by simp
qed

lemma Value_Comparable_wf:
  assumes "wf_value v" "v_data v \<noteq> []"
  shows "\<exists>cmp. Value_Comparable v = Some cmp \<and> wf_comparable cmp \<and> comp_Size cmp = Value_Size v"
proof (cases "HasOption v")
  case True
  from HasOption_float [OF True] obtain f where f: "v_typ v = float_type f" by blast
  obtain lo hi where "float_bounds f (v_option v) (float_at f (v_data v)) = (lo, hi)" by fastforce
  from Value_Comparable_float [OF assms(1) f True this] f show ?thesis
    by (cases f) (auto simp: Value_Size_def float_type_def)
qed (use assms in \<open>simp add: Value_Comparable_def\<close>)

lemma nextScanSparse_filters:
  assumes "ms_inv m" "ms_proc m = Some pid" "ms_ctx m \<noteq> None" "calm w mem pid"
    and "Value_Comparable v = Some cmp" "wf_comparable cmp" "2 \<le> comp_Size cmp"
    and "told_apart mem cmp (found (ms_view m))"
  shows "\<exists>m'. nextScanSparse w v m = Some m' \<and> ms_inv m' \<and> ms_view m' = session_next (holds mem cmp) (ms_view m) \<and>
    same_target m m'"
proof -
  from assms(1) obtain r p where m: "ms_results m = Some r" "array_ok r" "found (ms_view m) = mm_contents r"
    by (rule ms_invE)
  define addrs where "addrs = mm_contents r"
  have r: "mm_inv r" "length addrs \<le> 2 ^ 57" using m(2) by (simp_all add: array_ok_def addrs_def)
  have pos: "0 < nextScanTaskSize" by (simp add: nextScanTaskSize_val)
  define starts where "starts = loop_starts (length addrs) nextScanTaskSize"
  define blocks where "blocks = map (\<lambda>start. take nextScanTaskSize (drop start addrs)) starts"
  have starts: "\<forall>start \<in> set starts. start < length addrs"
    using loop_starts_less [OF _ pos] by (auto simp: starts_def)
  have launch: "launch_sparse w r (length addrs) starts 0 = Some blocks"
    using launch_sparse_blocks [OF r(1), of w starts 0] assms(4) starts by (simp add: calm_def addrs_def blocks_def)
  have concat: "concat blocks = addrs"
    using loop_blocks [OF pos, of addrs] by (simp add: blocks_def starts_def)
  have len: "length addrs div nextScanTaskSize + (if length addrs mod nextScanTaskSize \<noteq> 0 then 1 else 0) = length blocks"
    using ceil_div [OF pos, of "length addrs"] by (simp add: blocks_def starts_def loop_starts_def)
  define task where "task i = taskNextScanSparse (w_task_sys w i) (w_readv w) pid (w_pooled w i) (blocks ! i) cmp" for i
  have "\<exists>out. task i = Some out \<and> outcome_fits (filter (holds mem cmp) (blocks ! i)) out" if "i < length blocks" for i
  proof -
    have b: "length (blocks ! i) \<le> nextScanTaskSize" "set (blocks ! i) \<subseteq> set addrs"
      using that by (auto simp: blocks_def dest!: in_set_takeD in_set_dropD)
    have "told_apart mem cmp (blocks ! i)"
      using assms(8) b(2) by (auto simp: told_apart_def list_all_iff m(3) addrs_def)
    with taskNextScanSparse_leaves [of "w_readv w" pid mem cmp "blocks ! i" "w_task_sys w i" "w_pooled w i"] assms(4,6,7) b(1)
    obtain out where "task i = Some out" "leaves (filter (holds mem cmp) (blocks ! i)) nextScanTaskSize out"
      by (auto simp: calm_def task_def)
    with order_trans [OF length_filter_le b(1)] show ?thesis unfolding outcome_fits_def by blast
  qed
  then obtain bufs where bufs: "run_tasks task (length blocks) (length blocks) = Some bufs"
    "list_all2 outcome_fits (map (\<lambda>i. filter (holds mem cmp) (blocks ! i)) [0..<length blocks]) bufs"
    using run_tasks_fit [of "length blocks" task "\<lambda>i. filter (holds mem cmp) (blocks ! i)"] by blast
  have all: "concat (map (\<lambda>i. filter (holds mem cmp) (blocks ! i)) [0..<length blocks]) = filter (holds mem cmp) addrs"
  proof -
    have "map (\<lambda>i. filter (holds mem cmp) (blocks ! i)) [0..<length blocks] = map (filter (holds mem cmp)) (map ((!) blocks) [0..<length blocks])"
      by simp
    also have "map ((!) blocks) [0..<length blocks] = blocks" by (rule map_nth)
    finally show ?thesis by (simp only: filter_concat [symmetric] concat)
  qed
  have "length (filter (holds mem cmp) addrs) \<le> 2 ^ 57" using r(2) by (meson length_filter_le le_trans)
  with finish_next_view [OF assms(1) bufs(2), of w] assms(4) obtain m' where m':
    "finish_next w bufs m = Some m'" "ms_inv m'" "same_target m m'"
    "ms_view m' = \<lparr>found = filter (holds mem cmp) addrs, before = found (ms_view m), rounds = rounds (ms_view m) + 1, undoable = True\<rparr>"
    by (auto simp: all calm_def)
  have "nat (mm_Len r) = length addrs" using r(1) by (simp add: mm_Len_inv addrs_def)
  moreover obtain c where "ms_ctx m = Some c" using assms(3) by auto
  ultimately have "nextScanSparse w v m = finish_next w bufs m"
    using m(1) assms(2,5) launch len bufs(1)
    by (simp add: nextScanSparse_def Let_def task_def [abs_def] flip: starts_def)
  with m' show ?thesis by (simp add: session_next_def m(3) addrs_def)
qed

section \<open>The dense next scan\<close>

text \<open>
  What the dense scan needs of the old results: ascending, aligned to the size of the value as a scan for a
  typed value finds them, in the half of the address space a process has, and with nothing unreadable between
  the first and the last page of each virtual region.
\<close>

definition dense_ready :: "memory \<Rightarrow> nat \<Rightarrow> u64 list \<Rightarrow> bool" where
  "dense_ready mem sz addrs \<longleftrightarrow> sorted_wrt (<) addrs \<and> size_aligned sz addrs \<and> list_all (\<lambda>a. unat a < 2 ^ 63) addrs \<and>
     list_all (\<lambda>region. readable mem (iov_addrs (vStart region, unat (vSize region)))) (BuildVirtualRegions addrs (of_nat sz))"

lemma typed_size:
  assumes "wf_value v" "v_data v \<noteq> []" "Aligned v"
  shows "0 < Value_Size v \<and> Value_Size v dvd 4096"
proof -
  have "length (v_data v) = ByteSize (v_typ v)" "Value_Size v = ByteSize (v_typ v)"
    using assms(1,3) by (simp_all add: wf_value_def Value_Size_def Aligned_def)
  moreover have "ByteSize (v_typ v) \<in> {0, 1, 2, 4, 8}" by (simp add: ByteSize_def)
  ultimately show ?thesis using assms(2) by auto
qed

lemma NewScanner_total:
  assumes "wf_value v" "v_data v \<noteq> []"
  shows "\<exists>scan. NewScanner v = Some scan"
proof (cases "HasOption v")
  case True
  from HasOption_float [OF True] obtain f where "v_typ v = float_type f" by blast
  from NewScannerBuffer_float [OF assms(1) this True] show ?thesis by (auto simp: NewScanner_def)
qed (simp add: NewScanner_def NewScannerBuffer_def Let_def)

lemma launched_all: "\<forall>i. w_acquire w i \<Longrightarrow> launched w n = n"
  by (simp add: launched_def takeWhile_eq_all_conv [THEN iffD2])

lemma concat_filter_regions:
  "concat (map (\<lambda>i. filter P (addresses (regions ! i))) [0..<length regions]) = filter P (concat (map addresses regions))"
proof -
  have "map (\<lambda>i. filter P (addresses (regions ! i))) [0..<length regions] =
      map (filter P) (map addresses (map ((!) regions) [0..<length regions]))"
    by simp
  also have "map ((!) regions) [0..<length regions] = regions" by (rule map_nth)
  finally show ?thesis by (simp only: filter_concat)
qed

lemma nextScanDense_filters:
  assumes "ms_inv m" "ms_proc m = Some pid" "ms_ctx m = Some False" "calm w mem pid"
    and "wf_value v" "v_data v \<noteq> []" "Aligned v" "Value_Comparable v = Some cmp"
    and "dense_ready mem (Value_Size v) (found (ms_view m))"
  shows "\<exists>m'. nextScanDense w v m = Some m' \<and> ms_inv m' \<and> ms_view m' = session_next (holds mem cmp) (ms_view m) \<and>
    same_target m m'"
proof -
  from assms(1) obtain r p where m: "ms_results m = Some r" "array_ok r" "found (ms_view m) = mm_contents r"
    by (rule ms_invE)
  define addrs where "addrs = mm_contents r"
  have r: "mm_inv r" "length addrs \<le> 2 ^ 57" using m(2) by (simp_all add: array_ok_def addrs_def)
  define sz where "sz = Value_Size v"
  have sz: "0 < sz" "sz dvd 4096" using typed_size [OF assms(5-7)] by (simp_all add: sz_def)
  then have "sz \<le> 4096" by (auto dest: dvd_imp_le)
  then have unat_sz: "unat (of_nat sz :: u64) = sz" by (simp add: unat_of_nat)
  have cmp: "comp_Size cmp = sz"
    using Value_Comparable_wf [OF assms(5,6)] assms(8) by (auto simp: sz_def)
  define regions where "regions = BuildVirtualRegions addrs (of_nat sz)"
  have ready: "bvr_pre (of_nat sz) addrs" "size_aligned sz addrs"
    "list_all (\<lambda>region. readable mem (iov_addrs (vStart region, unat (vSize region)))) regions"
    using assms(9) sz(1) \<open>sz \<le> 4096\<close> unat_sz
    by (auto simp: dense_ready_def bvr_pre_def list_all_iff m(3) simp flip: addrs_def sz_def regions_def)
  have good: "list_all (vr_good (of_nat sz)) regions" "concat (map addresses regions) = addrs"
    using regions_good [OF ready(1)] regions_partition by (simp_all add: regions_def)
  obtain scan where scan: "NewScanner v = Some scan" using NewScanner_total [OF assms(5,6)] by blast
  define task where "task i = taskNextScanDense (w_task_sys w i) (\<lambda>_. False) (w_readv w) pid scan (regions ! i)
    (unat (vSize (regions ! i)) div sz)" for i
  have "\<exists>out. task i = Some out \<and> outcome_fits (filter (holds mem cmp) (addresses (regions ! i))) out"
    if "i < length regions" for i
  proof -
    from that have i: "regions ! i \<in> set regions" by simp
    then have "set (addresses (regions ! i)) \<subseteq> set addrs" by (auto simp flip: good(2))
    with ready(2) have aligned: "size_aligned sz (addresses (regions ! i))" by (auto simp: size_aligned_def list_all_iff)
    have "vr_good (of_nat sz) (regions ! i)" "readable mem (iov_addrs (vStart (regions ! i), unat (vSize (regions ! i))))"
      using i good(1) ready(3) by (simp_all add: list_all_iff)
    from taskNextScanDense_leaves [of "w_readv w" pid mem v scan cmp "regions ! i" _ "w_task_sys w i", unfolded cmp,
        OF _ assms(5-7) scan assms(8) this(1) aligned this(2) sz refl] assms(4)
    show ?thesis unfolding outcome_fits_def task_def calm_def by blast
  qed
  then obtain bufs where bufs: "run_tasks task (length regions) (length regions) = Some bufs"
    "list_all2 outcome_fits (map (\<lambda>i. filter (holds mem cmp) (addresses (regions ! i))) [0..<length regions]) bufs"
    using run_tasks_fit [of "length regions" task "\<lambda>i. filter (holds mem cmp) (addresses (regions ! i))"] by blast
  have "length (filter (holds mem cmp) addrs) \<le> 2 ^ 57" using r(2) by (meson length_filter_le le_trans)
  with finish_next_view [OF assms(1) bufs(2), of w] assms(4) obtain m' where m':
    "finish_next w bufs m = Some m'" "ms_inv m'" "same_target m m'"
    "ms_view m' = \<lparr>found = filter (holds mem cmp) addrs, before = found (ms_view m), rounds = rounds (ms_view m) + 1, undoable = True\<rparr>"
    by (auto simp: concat_filter_regions good(2) calm_def)
  have "nextScanDense w v m = finish_next w bufs m"
    using m(1) assms(2-4) scan bufs(1) mm_Data_inv [OF r(1)] sz(1)
    by (simp add: nextScanDense_def Let_def task_def [abs_def] launched_all calm_def flip: addrs_def sz_def regions_def)
  with m' show ?thesis by (simp add: session_next_def m(3) addrs_def)
qed

end
