(* ===== verification/Scan_Session.thy ===== *)
theory Scan_Session
  imports Memscan_Spec
begin

text \<open>
  Whole scans: what the first scan finds, what the next scans leave of it, and undo. The theorems are about
  the entry points of the engine as the user interfaces call them.
\<close>

section \<open>The first scan\<close>

text \<open>The addresses of a region a scan reports, and how this is a filter of the region's addresses.\<close>

definition region_matches :: "memory \<Rightarrow> ValueComparable \<Rightarrow> Region \<Rightarrow> u64 list" where
  "region_matches mem cmp r = matching_addrs mem cmp (Start r) (unat (End r - Start r))"

definition aligned_holds :: "memory \<Rightarrow> ValueComparable \<Rightarrow> u64 \<Rightarrow> bool" where
  "aligned_holds mem cmp a \<longleftrightarrow> unat a mod comp_Size cmp = 0 \<and> holds mem cmp a"

lemma region_span:
  assumes "wf_region r"
  shows "unat (End r - Start r) = unat (End r) - unat (Start r)" "unat (Start r) + unat (End r - Start r) = unat (End r)"
  using assms by (simp_all add: wf_region_def unat_sub word_le_nat_alt)

lemma region_iov_addrs:
  assumes "wf_region r"
  shows "set (iov_addrs (Start r, unat (End r - Start r))) = set (region_addrs r)"
proof -
  have "(\<exists>i < unat (End r - Start r). a = Start r + of_nat i) \<longleftrightarrow> Start r \<le> a \<and> a < End r" for a
  proof
    assume "\<exists>i < unat (End r - Start r). a = Start r + of_nat i"
    then obtain i where i: "i < unat (End r - Start r)" "a = Start r + of_nat i" by blast
    then have "unat (Start r) + i < 2 ^ 64"
      using region_span(2) [OF assms] unsigned_less [of "End r", where 'a = nat] by simp
    then have "unat a = unat (Start r) + i" by (simp add: i(2) unat_word_ariths unat_of_nat)
    with i(1) region_span(2) [OF assms] show "Start r \<le> a \<and> a < End r"
      by (simp add: word_le_nat_alt word_less_nat_alt)
  next
    assume a: "Start r \<le> a \<and> a < End r"
    then have "unat a - unat (Start r) < unat (End r - Start r)"
      using region_span(2) [OF assms] unfolding word_le_nat_alt word_less_nat_alt by arith
    moreover have "a = Start r + of_nat (unat a - unat (Start r))"
      using a by (simp add: of_nat_diff word_le_nat_alt)
    ultimately show "\<exists>i < unat (End r - Start r). a = Start r + of_nat i" by blast
  qed
  then show ?thesis
    by (intro set_eqI) (simp add: iov_addrs_def region_addrs_def set_addr_range image_iff Bex_def)
qed

lemma paged_dvd:
  assumes "paged_region r" "sz dvd 4096"
  shows "sz dvd unat (Start r)" "sz dvd unat (End r)"
proof -
  have "4096 dvd unat (Start r)" "4096 dvd unat (End r)"
    using assms(1) by (simp_all add: paged_region_def page_aligned_def mod_0_imp_dvd)
  with assms(2) show "sz dvd unat (Start r)" "sz dvd unat (End r)" by (blast intro: dvd_trans)+
qed

lemma region_readable:
  assumes "wf_region r" "readable mem (region_addrs r)"
  shows "readable mem (iov_addrs (Start r, unat (End r - Start r)))"
  using assms by (simp add: readable_def list_all_iff region_iov_addrs)

lemma aligned_fits:
  assumes "wf_region r" "paged_region r" "0 < sz" "sz dvd 4096" "Start r \<le> a" "a < End r" "unat a mod sz = 0"
  shows "unat a - unat (Start r) + sz \<le> unat (End r - Start r)" "(unat a - unat (Start r)) mod sz = 0"
proof -
  have "sz dvd unat (Start r)" "sz dvd unat (End r)" "sz dvd unat a"
    using paged_dvd [OF assms(2,4)] assms(7) by (simp_all add: mod_0_imp_dvd)
  then have d: "sz dvd unat a - unat (Start r)" "sz dvd unat (End r) - unat a" by (simp_all add: dvd_diff_nat)
  then show "(unat a - unat (Start r)) mod sz = 0" by simp
  have "0 < unat (End r) - unat a" using assms(6) by (simp add: word_less_nat_alt)
  with d(2) have "sz \<le> unat (End r) - unat a" by (simp add: dvd_imp_le)
  then show "unat a - unat (Start r) + sz \<le> unat (End r - Start r)"
    using assms(5,6) region_span(1) [OF assms(1)] by (simp add: word_le_nat_alt word_less_nat_alt)
qed

lemma region_matches_filter:
  assumes "wf_region r" "paged_region r" "readable mem (region_addrs r)" "0 < comp_Size cmp" "comp_Size cmp dvd 4096"
  shows "region_matches mem cmp r = filter (aligned_holds mem cmp) (region_addrs r)"
proof (rule strict_sorted_equal)
  have "unat (Start r) + unat (End r - Start r) < 2 ^ 64"
    using region_span(2) [OF assms(1)] unsigned_less [of "End r", where 'a = nat] by simp
  then show "sorted_wrt (<) (region_matches mem cmp r)"
    unfolding region_matches_def by (rule matching_addrs_sorted)
  show "sorted_wrt (<) (filter (aligned_holds mem cmp) (region_addrs r))"
    by (intro sorted_wrt_filter) (simp add: region_addrs_def sorted_addr_range)
  note span = region_span(2) [OF assms(1)]
  have "a \<in> set (region_matches mem cmp r) \<longleftrightarrow> a \<in> set (filter (aligned_holds mem cmp) (region_addrs r))" for a
  proof -
    have "(\<exists>p. a = of_nat p + Start r \<and> p mod comp_Size cmp = 0 \<and> p + comp_Size cmp \<le> unat (End r - Start r)) \<longleftrightarrow>
        Start r \<le> a \<and> a < End r \<and> unat a mod comp_Size cmp = 0"
    proof
      assume "\<exists>p. a = of_nat p + Start r \<and> p mod comp_Size cmp = 0 \<and> p + comp_Size cmp \<le> unat (End r - Start r)"
      then obtain p where p: "a = of_nat p + Start r" "p mod comp_Size cmp = 0" "p + comp_Size cmp \<le> unat (End r - Start r)"
        by (elim exE conjE) (rule that; assumption)
      have "p + unat (Start r) < 2 ^ 64"
        using p(3) span unsigned_less [of "End r", where 'a = nat] by simp
      then have u: "unat a = p + unat (Start r)" by (simp add: p(1) unat_word_ariths unat_of_nat)
      have "comp_Size cmp dvd unat (Start r)" using paged_dvd [OF assms(2,5)] by blast
      moreover have "comp_Size cmp dvd p" using p(2) by (rule mod_0_imp_dvd)
      ultimately have "comp_Size cmp dvd p + unat (Start r)" by (intro dvd_add)
      then have "unat a mod comp_Size cmp = 0" unfolding u by (rule dvd_imp_mod_0)
      with u p(3) span assms(4) show "Start r \<le> a \<and> a < End r \<and> unat a mod comp_Size cmp = 0"
        by (simp add: word_le_nat_alt word_less_nat_alt)
    next
      assume a: "Start r \<le> a \<and> a < End r \<and> unat a mod comp_Size cmp = 0"
      with aligned_fits [OF assms(1,2,4,5), of a]
      show "\<exists>p. a = of_nat p + Start r \<and> p mod comp_Size cmp = 0 \<and> p + comp_Size cmp \<le> unat (End r - Start r)"
        by (intro exI [of _ "unat a - unat (Start r)"]) (auto simp: of_nat_diff word_le_nat_alt)
    qed
    then show ?thesis
      unfolding region_matches_def in_matching_addrs [OF region_readable [OF assms(1,3)] assms(4)]
      by (auto simp: aligned_holds_def region_addrs_def set_addr_range)
  qed
  then show "set (region_matches mem cmp r) = set (filter (aligned_holds mem cmp) (region_addrs r))" by blast
qed

lemma all_matches:
  assumes "list_all wf_region regions" "list_all paged_region regions" "readable mem (covered_addrs regions)"
    and "0 < comp_Size cmp" "comp_Size cmp dvd 4096"
  shows "concat (map (region_matches mem cmp) regions) = filter (aligned_holds mem cmp) (covered_addrs regions)"
  using assms(1-3)
  by (induction regions) (simp_all add: region_matches_filter assms(4,5) readable_def)

lemma aligned_few:
  assumes "piece_ok r" "paged_region r" "0 < comp_Size cmp" "comp_Size cmp dvd 4096"
  shows "length (filter (aligned_holds mem cmp) (region_addrs r)) \<le> 2097152 div comp_Size cmp"
proof -
  have wf: "wf_region r" "unat (End r - Start r) \<le> 2097152"
    using assms(1) by (auto simp: piece_ok_def wf_region_def)
  define xs where "xs = filter (aligned_holds mem cmp) (region_addrs r)"
  have "sorted_wrt (<) (map unat xs)"
    using sorted_wrt_filter [OF sorted_addr_range]
    by (simp add: sorted_wrt_map xs_def region_addrs_def word_less_nat_alt [abs_def])
  moreover have "list_all (\<lambda>a. unat (Start r) \<le> a \<and> a + comp_Size cmp \<le> unat (Start r) + unat (End r - Start r) \<and>
      (a - unat (Start r)) mod comp_Size cmp = 0) (map unat xs)"
    unfolding list_all_iff
  proof (intro ballI)
    fix b assume "b \<in> set (map unat xs)"
    then obtain a where "a \<in> set xs" and b: "b = unat a" by auto
    then have a: "Start r \<le> a" "a < End r" "unat a mod comp_Size cmp = 0"
      by (simp_all add: xs_def region_addrs_def set_addr_range aligned_holds_def)
    from aligned_fits [OF wf(1) assms(2-4) this] a(1)
    show "unat (Start r) \<le> b \<and> b + comp_Size cmp \<le> unat (Start r) + unat (End r - Start r) \<and>
        (b - unat (Start r)) mod comp_Size cmp = 0"
      by (simp add: word_le_nat_alt b)
  qed
  ultimately have "length xs \<le> unat (End r - Start r) div comp_Size cmp"
    using distinct_multiples [of "map unat xs" "unat (Start r)" "comp_Size cmp" "unat (End r - Start r)"] assms(3) by simp
  also have "\<dots> \<le> 2097152 div comp_Size cmp" using wf(2) by (rule div_le_mono)
  finally show ?thesis by (simp add: xs_def)
qed

lemma matches_bound:
  assumes "piece_ok r" "paged_region r" "readable mem (region_addrs r)" "0 < comp_Size cmp" "comp_Size cmp dvd 4096"
  shows "length (region_matches mem cmp r) \<le> 2097152 div comp_Size cmp"
proof -
  have "wf_region r" using assms(1) by (auto simp: piece_ok_def wf_region_def)
  with region_matches_filter [OF this assms(2-5)] aligned_few [OF assms(1,2,4,5)] show ?thesis by simp
qed

text \<open>The run of the tasks: what each leaves is as described for a single task.\<close>

lemma first_tasks:
  assumes "calm w mem pid" "list_all piece_ok regions" "readable mem (covered_addrs regions)"
    and "wf_value v" "v_data v \<noteq> []" "Aligned v" "NewScanner v = Some scan" "Value_Comparable v = Some cmp"
  shows "\<exists>bufs. run_tasks (\<lambda>i. taskFirstScan (w_task_sys w i) (w_ctx w i) (w_readv w) pid scan (regions ! i))
      (length regions) (length regions) = Some bufs \<and>
    list_all2 (\<lambda>r out. leaves (region_matches mem cmp r) regionResultsAllocCaps out) regions bufs"
proof -
  define task where "task i = taskFirstScan (w_task_sys w i) (w_ctx w i) (w_readv w) pid scan (regions ! i)" for i
  have task: "\<exists>out. task i = Some out \<and> leaves (region_matches mem cmp (regions ! i)) regionResultsAllocCaps out"
    if "i < length regions" for i
  proof -
    from that have r: "regions ! i \<in> set regions" by simp
    then have p: "wf_region (regions ! i)" "unat (End (regions ! i) - Start (regions ! i)) \<le> 2097152"
      using assms(2) by (auto simp: list_all_iff piece_ok_def wf_region_def)
    have "readable mem (region_addrs (regions ! i))"
      using assms(3) r by (auto simp: readable_def list_all_iff covered_addrs_def)
    moreover have "w_ctx w i = (\<lambda>_. False)" using assms(1) by (simp add: calm_def fun_eq_iff)
    ultimately show ?thesis
      using taskFirstScan_leaves [of "w_readv w" pid mem "regions ! i" _ v "w_task_sys w i" scan cmp]
        region_readable [OF p(1)] p(2) assms(1,4-8)
      by (simp add: task_def region_matches_def calm_def)
  qed
  then have "\<forall>i < length regions. task i \<noteq> None" by fastforce
  moreover have "list_all2 (\<lambda>r out. leaves (region_matches mem cmp r) regionResultsAllocCaps out) regions
      (outcomes task (length regions) (length regions) {})"
    using task by (fastforce simp: list_all2_conv_all_nth outcomes_def)
  ultimately show ?thesis
    unfolding task_def [symmetric] by (auto simp: run_tasks_outcomes)
qed

lemma leaves_fit:
  assumes "list_all2 (\<lambda>r out. leaves (xs r) caps out) regions bufs" "list_all (\<lambda>r. length (xs r) \<le> caps) regions"
  shows "list_all2 outcome_fits (map xs regions) bufs"
  using assms by (induction rule: list_all2_induct) (auto simp: outcome_fits_def)

lemma leaves_overfull:
  assumes "list_all2 (\<lambda>r out. leaves (xs r) caps out) regions bufs" "\<not> list_all (\<lambda>r. length (xs r) \<le> caps) regions"
  shows "\<exists>b. Some b \<in> set bufs \<and> overfull b"
  using assms by (induction rule: list_all2_induct) (auto simp: leaves_def split: if_splits)

text \<open>
  What a first scan starts from: a process that is alive with its maps open, whose text lists whole readable pages
  in the half of the address space a process has.
\<close>

definition mapped :: "World \<Rightarrow> memory \<Rightarrow> int \<Rightarrow> Memscan \<Rightarrow> Region list \<Rightarrow> bool" where
  "mapped w mem pid m regions \<longleftrightarrow> ms_proc m = Some pid \<and> w_alive w pid \<and>
     (\<exists>exe. ms_maps m = Some exe \<and> Maps_Parse exe (w_maps w) [REGION_ALL_RW] = Some regions) \<and>
     list_all wf_region regions \<and> list_all paged_region regions \<and> readable mem (covered_addrs regions) \<and>
     length (covered_addrs regions) \<le> 2 ^ 57"

definition typed_value :: "Value \<Rightarrow> ValueComparable \<Rightarrow> bool" where
  "typed_value v cmp \<longleftrightarrow> wf_value v \<and> v_data v \<noteq> [] \<and> Aligned v \<and> Value_Comparable v = Some cmp"

lemma typed_value_size:
  assumes "typed_value v cmp"
  shows "comp_Size cmp = Value_Size v" "0 < comp_Size cmp" "comp_Size cmp dvd 4096" "wf_comparable cmp"
  using assms typed_size [of v] Value_Comparable_wf [of v] by (auto simp: typed_value_def)

lemma FirstScan_unfold:
  assumes "ms_inv m" "calm w mem pid" "mapped w mem pid m regions" "typed_value v cmp" "RegionsOptimize regions = Some out"
  obtains r bufs where "array_ok r" "mm_contents r = []"
    "FirstScan w v m = do {
       results \<leftarrow> merge_buffers (w_sys w) bufs r;
       Some ((Reset m)\<lparr>ms_round := 1, ms_results := Some results\<rparr>)
     }"
    "list_all2 (\<lambda>r out. leaves (region_matches mem cmp r) regionResultsAllocCaps out) out bufs"
proof -
  have v: "wf_value v" "v_data v \<noteq> []" "Aligned v" "Value_Comparable v = Some cmp"
    using assms(4) by (simp_all add: typed_value_def)
  obtain exe where m: "ms_proc m = Some pid" "w_alive w pid" "ms_maps m = Some exe"
    "Maps_Parse exe (w_maps w) [REGION_ALL_RW] = Some regions" "list_all wf_region regions" "readable mem (covered_addrs regions)"
    using assms(3) by (auto simp: mapped_def)
  from RegionsOptimize_correct [OF m(5)] assms(5)
  have out: "covered_addrs out = covered_addrs regions" "list_all piece_ok out" by auto
  obtain scan where scan: "NewScanner v = Some scan" using NewScanner_total [OF v(1,2)] by blast
  obtain bufs where bufs:
    "run_tasks (\<lambda>i. taskFirstScan (w_task_sys w i) (w_ctx w i) (w_readv w) pid scan (out ! i)) (length out) (length out) = Some bufs"
    "list_all2 (\<lambda>r out. leaves (region_matches mem cmp r) regionResultsAllocCaps out) out bufs"
    using first_tasks [OF assms(2) out(2) _ v(1-3) scan v(4)] m(6) out(1) by auto
  have reset: "ms_inv (Reset m)" "found (ms_view (Reset m)) = []" using Reset_empty [OF assms(1)] by simp_all
  from reset(1) obtain r where r: "ms_results (Reset m) = Some r" "array_ok r" "mm_contents r = []"
    by (rule ms_invE) (simp add: reset(2))
  have "ms_proc (Reset m) = Some pid" "ms_maps (Reset m) = Some exe" "ms_round (Reset m) = 0"
    using m(1,3) by (simp_all add: Reset_def Cancel_def)
  with r(1) m(2,4) assms(2,5) scan bufs(1)
  have "FirstScan w v m = do {
       results \<leftarrow> merge_buffers (w_sys w) bufs r;
       Some ((Reset m)\<lparr>ms_round := 1, ms_results := Some results\<rparr>)
     }"
    by (simp add: FirstScan_def Let_def launched_all calm_def)
  with that r(2,3) bufs(2) show ?thesis by blast
qed

lemma FirstScan_found:
  assumes "ms_inv m" "calm w mem pid" "mapped w mem pid m regions" "typed_value v cmp" "RegionsOptimize regions = Some out"
    and "list_all (\<lambda>r. length (region_matches mem cmp r) \<le> regionResultsAllocCaps) out"
  shows "\<exists>m'. FirstScan w v m = Some m' \<and> ms_inv m' \<and> ms_proc m' = Some pid \<and> ms_ctx m' = Some False \<and>
    ms_view m' = \<lparr>found = filter (aligned_holds mem cmp) (covered_addrs regions), before = [], rounds = 1, undoable = False\<rparr>"
proof -
  obtain r bufs where r: "array_ok r" "mm_contents r = []"
    "FirstScan w v m = do {
       results \<leftarrow> merge_buffers (w_sys w) bufs r;
       Some ((Reset m)\<lparr>ms_round := 1, ms_results := Some results\<rparr>)
     }"
    "list_all2 (\<lambda>r out. leaves (region_matches mem cmp r) regionResultsAllocCaps out) out bufs"
    by (rule FirstScan_unfold [OF assms(1-5)])
  have m: "list_all wf_region regions" "list_all paged_region regions" "readable mem (covered_addrs regions)"
    "length (covered_addrs regions) \<le> 2 ^ 57" "ms_proc m = Some pid"
    using assms(3) by (auto simp: mapped_def)
  from RegionsOptimize_correct [OF m(1)] assms(5) m(2)
  have out: "covered_addrs out = covered_addrs regions" "list_all piece_ok out" "list_all paged_region out" by auto
  then have "list_all wf_region out" by (auto simp: piece_ok_def elim!: list.pred_mono_strong)
  from all_matches [OF this out(3)] m(3) typed_value_size [OF assms(4)]
  have all: "concat (map (region_matches mem cmp) out) = filter (aligned_holds mem cmp) (covered_addrs regions)"
    by (simp add: out(1))
  have "length (concat (map (region_matches mem cmp) out)) \<le> 2 ^ 57"
    unfolding all using m(4) by (meson length_filter_le le_trans)
  from merge_fits [OF leaves_fit [OF r(4) assms(6)] r(1,2) this, of "w_sys w"] assms(2)
  obtain r' where r': "merge_buffers (w_sys w) bufs r = Some r'" "array_ok r'"
    "mm_contents r' = filter (aligned_holds mem cmp) (covered_addrs regions)"
    by (auto simp: all calm_def)
  have reset: "ms_inv (Reset m)" "ms_view (Reset m) = \<lparr>found = [], before = [], rounds = 0, undoable = False\<rparr>"
    "ms_proc (Reset m) = Some pid" "ms_ctx (Reset m) = Some False"
    using Reset_empty [OF assms(1)] m(5) by (simp_all add: Reset_def Cancel_def)
  then obtain p where "ms_prevResults (Reset m) = Some p" "array_ok p" "mm_contents p = []"
    by (auto simp: ms_inv_def ms_view_def)
  with r' reset show ?thesis
    by (simp add: r(3) ms_inv_def ms_view_def)
qed

lemma FirstScan_overfull:
  assumes "ms_inv m" "calm w mem pid" "mapped w mem pid m regions" "typed_value v cmp" "RegionsOptimize regions = Some out"
    and "\<not> list_all (\<lambda>r. length (region_matches mem cmp r) \<le> regionResultsAllocCaps) out"
  shows "FirstScan w v m = None"
proof -
  obtain r bufs where r:
    "FirstScan w v m = do {
       results \<leftarrow> merge_buffers (w_sys w) bufs r;
       Some ((Reset m)\<lparr>ms_round := 1, ms_results := Some results\<rparr>)
     }"
    "list_all2 (\<lambda>r out. leaves (region_matches mem cmp r) regionResultsAllocCaps out) out bufs"
    by (rule FirstScan_unfold [OF assms(1-5)])
  from leaves_overfull [OF r(2) assms(6)] obtain b where "Some b \<in> set bufs" "overfull b" by blast
  moreover have "\<forall>k. w_sys w k" using assms(2) by (simp add: calm_def)
  ultimately have "merge_buffers (w_sys w) bufs r = None" by (rule merge_overfull)
  then show ?thesis by (simp add: r(1))
qed

text \<open>Values of eight bytes never overflow a region's buffer, smaller ones may.\<close>

lemma wide_values_fit:
  assumes "mapped w mem pid m regions" "typed_value v cmp" "RegionsOptimize regions = Some out" "8 \<le> Value_Size v"
  shows "list_all (\<lambda>r. length (region_matches mem cmp r) \<le> regionResultsAllocCaps) out"
  unfolding list_all_iff
proof
  fix r assume r: "r \<in> set out"
  have m: "list_all wf_region regions" "list_all paged_region regions" "readable mem (covered_addrs regions)"
    using assms(1) by (auto simp: mapped_def)
  from RegionsOptimize_correct [OF m(1)] assms(3) m(2)
  have out: "covered_addrs out = covered_addrs regions" "list_all piece_ok out" "list_all paged_region out" by auto
  have "set (region_addrs r) \<subseteq> set (covered_addrs out)"
    using r by (auto simp: covered_addrs_def)
  with m(3) have "readable mem (region_addrs r)"
    by (auto simp: readable_def list_all_iff out(1))
  with r out(2,3) typed_value_size [OF assms(2)]
  have "length (region_matches mem cmp r) \<le> 2097152 div comp_Size cmp"
    by (intro matches_bound) (auto simp: list_all_iff)
  also have "\<dots> \<le> 2097152 div 8"
    using assms(4) typed_value_size(1) [OF assms(2)] by (intro div_le_mono2) simp_all
  finally show "length (region_matches mem cmp r) \<le> regionResultsAllocCaps"
    by (simp add: regionResultsAllocCaps_val)
qed

section \<open>The next scans\<close>

text \<open>What a next scan needs of the results it starts from, by the way it will take.\<close>

definition sparse_ready :: "memory \<Rightarrow> Value \<Rightarrow> ValueComparable \<Rightarrow> u64 list \<Rightarrow> bool" where
  "sparse_ready mem v cmp addrs \<longleftrightarrow> wf_value v \<and> Value_Comparable v = Some cmp \<and> 2 \<le> Value_Size v \<and> told_apart mem cmp addrs"

definition next_ready :: "memory \<Rightarrow> Value \<Rightarrow> ValueComparable \<Rightarrow> u64 list \<Rightarrow> bool" where
  "next_ready mem v cmp addrs \<longleftrightarrow>
     (if nextScanSparseThreshold < length addrs then typed_value v cmp \<and> dense_ready mem (Value_Size v) addrs
      else sparse_ready mem v cmp addrs)"

text \<open>An engine with a process open and no scan cancelled.\<close>

definition engine_ready :: "int \<Rightarrow> Memscan \<Rightarrow> bool" where
  "engine_ready pid m \<longleftrightarrow> ms_inv m \<and> ms_proc m = Some pid \<and> ms_ctx m = Some False"

lemma sparse_scan:
  assumes "engine_ready pid m" "calm w mem pid" "sparse_ready mem v cmp (found (ms_view m))"
  shows "\<exists>m'. nextScanSparse w v m = Some m' \<and> engine_ready pid m' \<and> same_target m m' \<and>
    ms_view m' = session_next (holds mem cmp) (ms_view m)"
proof -
  have v: "wf_value v" "v_data v \<noteq> []" "Value_Comparable v = Some cmp" "2 \<le> Value_Size v"
    using assms(3) wf_value_Size [of v] by (auto simp: sparse_ready_def)
  with Value_Comparable_wf [OF v(1,2)] have cmp: "wf_comparable cmp" "2 \<le> comp_Size cmp" by auto
  from nextScanSparse_filters [OF _ _ _ assms(2) v(3) cmp, of m] assms(1,3) show ?thesis
    by (auto simp: engine_ready_def sparse_ready_def same_target_def)
qed

lemma dense_scan:
  assumes "engine_ready pid m" "calm w mem pid" "typed_value v cmp" "dense_ready mem (Value_Size v) (found (ms_view m))"
  shows "\<exists>m'. nextScanDense w v m = Some m' \<and> engine_ready pid m' \<and> same_target m m' \<and>
    ms_view m' = session_next (holds mem cmp) (ms_view m)"
  using nextScanDense_filters [of m pid w mem v cmp] assms
  by (auto simp: engine_ready_def typed_value_def same_target_def)

lemma Count_view: "ms_inv m \<Longrightarrow> Count m = int (length (found (ms_view m)))"
  by (erule ms_invE) (simp add: Count_def array_ok_def mm_Len_inv)

lemma next_scan_view:
  assumes "ms_inv m"
  shows "next_scan scan (Some v) m = (if found (ms_view m) = [] then Some m else scan v m)"
proof -
  from assms obtain r where "ms_results m = Some r" "array_ok r" "found (ms_view m) = mm_contents r" by (rule ms_invE)
  then show ?thesis by (simp add: next_scan_def array_ok_def mm_Len_inv)
qed

lemma next_scan_step:
  assumes "engine_ready pid m" "calm w mem pid" "next_ready mem v cmp (found (ms_view m))"
  shows "\<exists>m'. NextScan w (Some v) m = Some m' \<and> engine_ready pid m' \<and> same_target m m' \<and>
    ms_view m' = (if found (ms_view m) = [] then ms_view m else session_next (holds mem cmp) (ms_view m))"
proof (cases "found (ms_view m) = []")
  case True
  with assms(1) show ?thesis by (auto simp: NextScan_def next_scan_view engine_ready_def same_target_def)
next
  case False
  have inv: "ms_inv m" using assms(1) by (simp add: engine_ready_def)
  show ?thesis
  proof (cases "nextScanSparseThreshold < length (found (ms_view m))")
    case True
    with dense_scan [OF assms(1,2), of v cmp] assms(3) inv False show ?thesis
      by (simp add: NextScan_def next_scan_view Count_view next_ready_def)
  next
    case sparse: False
    with sparse_scan [OF assms(1,2), of v cmp] assms(3) inv False show ?thesis
      by (simp add: NextScan_def next_scan_view Count_view next_ready_def)
  qed
qed

section \<open>Opening a process\<close>

text \<open>What \<open>mapped\<close> says, of the process alone; an engine that opens it has it.\<close>

definition process_mapped :: "World \<Rightarrow> memory \<Rightarrow> int \<Rightarrow> string \<Rightarrow> Region list \<Rightarrow> bool" where
  "process_mapped w mem pid exe regions \<longleftrightarrow> w_alive w pid \<and> Maps_Parse exe (w_maps w) [REGION_ALL_RW] = Some regions \<and>
     list_all wf_region regions \<and> list_all paged_region regions \<and> readable mem (covered_addrs regions) \<and>
     length (covered_addrs regions) \<le> 2 ^ 57"

lemma mapped_process:
  "ms_proc m = Some pid \<Longrightarrow> ms_maps m = Some exe \<Longrightarrow> mapped w mem pid m regions \<longleftrightarrow> process_mapped w mem pid exe regions"
  by (auto simp: mapped_def process_mapped_def)

lemma Open_ready:
  assumes "ms_inv m"
  shows "\<exists>m'. Open pid (Some exe) m = (True, m') \<and> ms_inv m' \<and> ms_proc m' = Some pid \<and> ms_maps m' = Some exe"
proof -
  have "ms_inv ((Close m)\<lparr>ms_proc := Some pid, ms_maps := Some exe\<rparr>)"
    using assms by (simp add: ms_inv_def Close_def)
  from Reset_empty [OF this] show ?thesis by (simp add: Open_def Let_def Reset_def Cancel_def)
qed

end
