(* ===== verification/Scan_Results.thy ===== *)
theory Scan_Results
  imports Scan_Session
begin

text \<open>
  The properties of the engine: what the first scan finds and when it panics, the next scans as steps of the abstract
  session, the agreement of their two ways, undo, and whole sessions; then the operations on the results.
\<close>

section \<open>The results of a session\<close>

text \<open>
  C5: a first scan of a live process whose mapped pages can be read finds exactly the addresses, aligned to the
  size of the value, that hold a value its \<open>ValueComparable\<close> accepts, in ascending
  order of the mappings; provided the value has eight bytes or no region has more matches than its task's buffer has room.
\<close>

theorem FirstScan_finds:
  assumes "ms_inv m" "calm w mem pid" "mapped w mem pid m regions" "typed_value v cmp" "RegionsOptimize regions = Some out"
    and "8 \<le> Value_Size v \<or> list_all (\<lambda>r. length (region_matches mem cmp r) \<le> regionResultsAllocCaps) out"
  shows "\<exists>m'. FirstScan w v m = Some m' \<and> engine_ready pid m' \<and>
    ms_view m' = \<lparr>found = filter (aligned_holds mem cmp) (covered_addrs regions), before = [], rounds = 1, undoable = False\<rparr>"
  using FirstScan_found [OF assms(1-5)] wide_values_fit [OF assms(3-5)] assms(6)
  by (auto simp: engine_ready_def)

lemma covered_addrs_strip: "covered_addrs (map strip regions) = covered_addrs regions"
  by (simp add: covered_addrs_def region_addrs_def [abs_def] strip_def comp_def)

lemma mapped_parsed:
  assumes "parsed_regions (scan_lines (w_maps w)) = Some rs" "ms_maps m = Some exe"
    and "ms_proc m = Some pid" "w_alive w pid"
    and "rs' = filter (keep exe REGION_ALL_RW REGION_TYPE_MISC) rs"
    and "list_all wf_region rs'" "list_all paged_region rs'" "readable mem (covered_addrs rs')" "length (covered_addrs rs') \<le> 2 ^ 57"
  shows "\<exists>regions out. mapped w mem pid m regions \<and> RegionsOptimize regions = Some out \<and> map strip regions = rs'"
proof -
  from Parse_keeps [OF assms(1), of exe] assms(5) obtain regions where
    regions: "Maps_Parse exe (w_maps w) [REGION_ALL_RW] = Some regions" "map strip regions = rs'"
    by auto
  have "list_all wf_region regions" "list_all paged_region regions"
    using assms(6,7) unfolding regions(2) [symmetric]
    by (simp_all add: list_all_iff wf_region_def paged_region_def strip_def)
  moreover have "covered_addrs regions = covered_addrs rs'"
    by (simp add: covered_addrs_strip flip: regions(2))
  ultimately have "mapped w mem pid m regions"
    using assms regions(1) by (simp add: mapped_def)
  with RegionsOptimize_correct [OF \<open>list_all wf_region regions\<close>] regions(2) show ?thesis by blast
qed

text \<open>The example: a process with a heap of two pages and an anonymous page, and a one in its first word.\<close>

definition sample_memory :: memory where
  "sample_memory a = Some (if a = 0x1000 then 7 else 0)"

definition sample_world :: World where
  "sample_world = \<lparr>w_sys = \<lambda>_. True, w_task_sys = \<lambda>_ _. True, w_readv = sim_readv sample_memory, w_alive = \<lambda>_. True,
     w_maps = sample_maps, w_acquire = \<lambda>_. True, w_ctx = \<lambda>_ _. False, w_pooled = \<lambda>_. []\<rparr>"

definition sample_engine :: "u64 list \<Rightarrow> Memscan" where
  "sample_engine addrs = \<lparr>ms_proc = Some 1, ms_maps = Some ''/bin/game'',
     ms_results = Some \<lparr>mm_data = addrs, mm_raw = 0, mm_cursor = of_nat (length addrs)\<rparr>,
     ms_prevResults = Some \<lparr>mm_data = [], mm_raw = 0, mm_cursor = 0\<rparr>,
     ms_round = 1, ms_canUndo = False, ms_ctx = Some False\<rparr>"

lemma sample_engine_ready:
  assumes "length addrs < 2 ^ 57"
  shows "engine_ready 1 (sample_engine addrs)" "ms_inv (sample_engine addrs)"
    "ms_view (sample_engine addrs) = \<lparr>found = addrs, before = [], rounds = 1, undoable = False\<rparr>"
  using assms
  by (simp_all add: engine_ready_def ms_inv_def array_ok_def mm_inv_def mm_capacity_def mm_contents_def ms_view_def
      sample_engine_def unat_of_nat)

lemma sample_calm: "calm sample_world sample_memory 1"
  by (simp add: calm_def sample_world_def sim_readv_reads)

lemma sample_readable [simp]: "readable sample_memory addrs"
  by (simp add: readable_def list_all_iff sample_memory_def)

lemma sample_value:
  "typed_value (NewInt32 7) (CmpValue (NewInt32 7))" "Value_Size (NewInt32 7) = 4" "wf_value (NewInt32 7)"
  "rejects_unread (CmpValue (NewInt32 7))" "typed_value (NewInt64 7) (CmpValue (NewInt64 7))" "Value_Size (NewInt64 7) = 8"
  using value_rejects_unread [of "NewInt32 7"] wf_value_constructors(3,4) [of 7]
  by (auto simp: typed_value_def Aligned_def Value_Size_def Value_Comparable_def HasOption_def is_float_type_def
      NewInt32_def NewInt64_def ByteSize_simps simp flip: length_0_conv)

lemma sample_mapped:
  "\<exists>regions out. mapped sample_world sample_memory 1 (sample_engine addrs) regions \<and> RegionsOptimize regions = Some out \<and>
     map strip regions = [sample_region 4096 12288 11 ''[heap]'', sample_region 28672 32768 11 []]"
proof (rule mapped_parsed)
  show "parsed_regions (scan_lines (w_maps sample_world)) =
    Some [sample_region 4096 12288 11 ''[heap]'', sample_region 12288 16384 9 ''/data'',
          sample_region 20480 24576 11 ''/usr/lib/l.so'', sample_region 28672 32768 11 []]"
    using sample_maps_parsed by (simp add: sample_world_def)
  show "[sample_region 4096 12288 11 ''[heap]'', sample_region 28672 32768 11 []] =
    filter (keep ''/bin/game'' REGION_ALL_RW REGION_TYPE_MISC)
      [sample_region 4096 12288 11 ''[heap]'', sample_region 12288 16384 9 ''/data'',
       sample_region 20480 24576 11 ''/usr/lib/l.so'', sample_region 28672 32768 11 []]"
    by (simp add: keep_def useful_def sample_region_def perm_defs isSkipRegion_def regionSkipped_def)
qed (simp_all add: sample_engine_def sample_world_def sample_region_def wf_region_def paged_region_def page_aligned_def
    region_addrs_def length_addr_range)

theorem FirstScan_finds_witness:
  "\<exists>m' regions. FirstScan sample_world (NewInt64 7) (sample_engine [0x1000, 0x1004]) = Some m' \<and>
    map strip regions = [sample_region 4096 12288 11 ''[heap]'', sample_region 28672 32768 11 []] \<and>
    found (ms_view m') = filter (aligned_holds sample_memory (CmpValue (NewInt64 7))) (covered_addrs regions)"
proof -
  obtain regions out where r: "mapped sample_world sample_memory 1 (sample_engine [0x1000, 0x1004]) regions"
    "RegionsOptimize regions = Some out"
    "map strip regions = [sample_region 4096 12288 11 ''[heap]'', sample_region 28672 32768 11 []]"
    using sample_mapped [of "[0x1000, 0x1004]"] by (elim exE conjE) (rule that; assumption)
  have "ms_inv (sample_engine [0x1000, 0x1004])" by (simp add: sample_engine_ready)
  from FirstScan_finds [OF this sample_calm r(1) sample_value(5) r(2)] sample_value(6) obtain m' where
    "FirstScan sample_world (NewInt64 7) (sample_engine [0x1000, 0x1004]) = Some m'"
    "found (ms_view m') = filter (aligned_holds sample_memory (CmpValue (NewInt64 7))) (covered_addrs regions)"
    by auto
  with r(3) show ?thesis by (intro exI conjI)
qed

text \<open>
  C25: when a region holds more matches than its task's buffer has room (\<open>regionResultsAllocCaps\<close>, an eighth of
  2 MiB, which values of less than eight bytes can exceed), the first scan panics: the task's \<open>Put\<close> moves the
  cursor past the end of the mapping, and merging then slices beyond it.
\<close>

theorem FirstScan_overfull_panics:
  assumes "ms_inv m" "calm w mem pid" "mapped w mem pid m regions" "typed_value v cmp" "RegionsOptimize regions = Some out"
    and "r \<in> set out" "regionResultsAllocCaps < length (region_matches mem cmp r)"
  shows "FirstScan w v m = None"
proof -
  have "\<not> list_all (\<lambda>r. length (region_matches mem cmp r) \<le> regionResultsAllocCaps) out"
    using assms(6,7) by (force simp: list_all_iff)
  from FirstScan_overfull [OF assms(1-5) this] show ?thesis .
qed

text \<open>The example: one region of 2 MiB where every byte is a seven.\<close>

definition sevens_world :: World where
  "sevens_world = sample_world\<lparr>w_readv := sim_readv (\<lambda>_. Some 7), w_maps := ''200000-400000 rw-p 0 0:0 0 '' @ [CHR 0x0A]\<rparr>"

lemma sevens_parsed:
  "parsed_regions (scan_lines (w_maps sevens_world)) = Some [sample_region 0x200000 0x400000 11 []]"
proof -
  have "scan_lines (w_maps sevens_world) = [''200000-400000 rw-p 0 0:0 0 '']"
    using scan_lines_unlines [of "[''200000-400000 rw-p 0 0:0 0 '']"] by (simp add: sevens_world_def maps_text_line_def)
  then show ?thesis by (simp add: ParseRegion_eval sample_region_def)
qed

lemma sevens_matches:
  "length (matching_addrs (\<lambda>_. Some 7) (CmpValue (NewInt8 7)) a z) = z"
proof -
  have "take (Suc 0) (drop p (contents_at (\<lambda>_. Some 7) (iov_addrs (a, z)))) = [7]" if "p < z" for p
    using that by (simp add: contents_at_def iov_addrs_def take_Suc_conv_app_nth)
  then have "matching (CmpValue (NewInt8 7)) (contents_at (\<lambda>_. Some 7) (iov_addrs (a, z))) = [0..<z]"
    by (simp add: matching_def NewInt8_def Value_Size_def ByteSize_simps Value_EqualBytes_def contents_at_def iov_addrs_def
        filter_id_conv)
  then show ?thesis by (simp add: matching_addrs_def)
qed

lemma sevens_overfull:
  "\<exists>regions out r. mapped sevens_world (\<lambda>_. Some 7) 1 (sample_engine []) regions \<and> calm sevens_world (\<lambda>_. Some 7) 1 \<and>
     typed_value (NewInt8 7) (CmpValue (NewInt8 7)) \<and> RegionsOptimize regions = Some out \<and> r \<in> set out \<and>
     regionResultsAllocCaps < length (region_matches (\<lambda>_. Some 7) (CmpValue (NewInt8 7)) r)"
proof -
  have calm: "calm sevens_world (\<lambda>_. Some 7) 1"
    by (simp add: calm_def sevens_world_def sample_world_def sim_readv_reads)
  have seven: "typed_value (NewInt8 7) (CmpValue (NewInt8 7))"
    using wf_value_constructors(1) [of 7]
    by (simp add: typed_value_def Aligned_def Value_Comparable_def HasOption_def is_float_type_def NewInt8_def)
  have "\<exists>regions out. mapped sevens_world (\<lambda>_. Some 7) 1 (sample_engine []) regions \<and> RegionsOptimize regions = Some out \<and>
      map strip regions = [sample_region 0x200000 0x400000 11 []]"
  proof (rule mapped_parsed [OF sevens_parsed])
    show "[sample_region 0x200000 0x400000 11 []] =
      filter (keep ''/bin/game'' REGION_ALL_RW REGION_TYPE_MISC) [sample_region 0x200000 0x400000 11 []]"
      by (simp add: keep_def useful_def sample_region_def perm_defs isSkipRegion_def regionSkipped_def)
  qed (simp_all add: sample_engine_def sevens_world_def sample_world_def sample_region_def wf_region_def paged_region_def
      page_aligned_def region_addrs_def length_addr_range readable_def list_all_iff)
  then obtain r out where r: "mapped sevens_world (\<lambda>_. Some 7) 1 (sample_engine []) [r]" "RegionsOptimize [r] = Some out"
    "strip r = sample_region 0x200000 0x400000 11 []"
    by (auto simp: map_eq_Cons_conv)
  then have "Start r = 0x200000" "End r = 0x400000" "Size r = 0x200000"
    by (cases r; simp add: strip_def sample_region_def)+
  moreover from this r(2) have "r \<in> set out"
    by (auto simp: RegionsOptimize_def regionLargeSize_val)
  ultimately show ?thesis
    using calm seven r(1,2)
    by (intro exI [of _ "[r]"] exI [of _ out] exI [of _ r]) (simp add: region_matches_def sevens_matches regionResultsAllocCaps_val)
qed

theorem FirstScan_overfull_panics_witness: "FirstScan sevens_world (NewInt8 7) (sample_engine []) = None"
proof -
  have "ms_inv (sample_engine [])" by (simp add: sample_engine_ready)
  then show ?thesis using sevens_overfull FirstScan_overfull_panics [of "sample_engine []" sevens_world] by blast
qed

text \<open>
  C6: a next scan, by whichever of the two ways the number of results selects, returns and
  refines the step of the abstract session: the new results are the old ones whose values are now accepted, in order,
  the old ones are kept for undo and the round is counted. With no results it does nothing.
\<close>

theorem NextScan_refines:
  assumes "engine_ready pid m" "calm w mem pid" "next_ready mem v cmp (found (ms_view m))"
  shows "\<exists>m'. NextScan w (Some v) m = Some m' \<and> engine_ready pid m' \<and>
    ms_view m' = (if found (ms_view m) = [] then ms_view m else session_next (holds mem cmp) (ms_view m))"
  using next_scan_step [OF assms] by blast

lemma sample_sparse: "sparse_ready sample_memory (NewInt32 7) (CmpValue (NewInt32 7)) addrs"
  using sample_value by (simp add: sparse_ready_def told_apart_def typed_value_def)

lemma sample_holds:
  "holds sample_memory (CmpValue (NewInt32 7)) 0x1000" "\<not> holds sample_memory (CmpValue (NewInt32 7)) 0x1004"
proof -
  have "le_bytes 4 (7 :: 32 word) = [7, 0, 0, 0]" by code_simp
  then have "v_data (NewInt32 7) = [7, 0, 0, 0]" by (simp add: NewInt32_def)
  then show "holds sample_memory (CmpValue (NewInt32 7)) 0x1000" "\<not> holds sample_memory (CmpValue (NewInt32 7)) 0x1004"
    by (simp_all add: holds_def value_readable_def value_at_def contents_at_def iov_addrs_def upt_rec sample_value(2)
        Value_EqualBytes_def sample_memory_def)
qed

theorem NextScan_refines_witness:
  "\<exists>m'. NextScan sample_world (Some (NewInt32 7)) (sample_engine [0x1000, 0x1004]) = Some m' \<and>
    ms_view m' = \<lparr>found = [0x1000], before = [0x1000, 0x1004], rounds = 2, undoable = True\<rparr>"
proof -
  have s: "next_ready sample_memory (NewInt32 7) (CmpValue (NewInt32 7)) [0x1000, 0x1004]"
    by (simp add: next_ready_def sample_sparse nextScanSparseThreshold_def IOV_MAX_def)
  have "engine_ready 1 (sample_engine [0x1000, 0x1004])" by (simp add: sample_engine_ready)
  from NextScan_refines [OF this sample_calm, of "NewInt32 7" "CmpValue (NewInt32 7)"] s show ?thesis
    by (auto simp: sample_engine_ready session_next_def sample_holds)
qed

text \<open>
  C7: the two ways of a next scan agree: where both may be used, the dense scan, which reads whole
  virtual regions, and the sparse scan, which reads each address, end in the same session.
\<close>

theorem dense_agrees_sparse:
  assumes "engine_ready pid m" "calm w mem pid" "typed_value v cmp"
    and "dense_ready mem (Value_Size v) (found (ms_view m))" "sparse_ready mem v cmp (found (ms_view m))"
  shows "\<exists>d s. NextScanForceDense w (Some v) m = Some d \<and> NextScanForceSparse w (Some v) m = Some s \<and> ms_view d = ms_view s"
proof (cases "found (ms_view m) = []")
  case True
  with assms(1) show ?thesis
    by (simp add: NextScanForceDense_def NextScanForceSparse_def next_scan_view engine_ready_def)
next
  case False
  with dense_scan [OF assms(1-4)] sparse_scan [OF assms(1,2,5)] assms(1) show ?thesis
    by (auto simp: NextScanForceDense_def NextScanForceSparse_def next_scan_view engine_ready_def)
qed

theorem dense_agrees_sparse_witness:
  "\<exists>d s. NextScanForceDense sample_world (Some (NewInt32 7)) (sample_engine [0x1000, 0x1004]) = Some d \<and>
    NextScanForceSparse sample_world (Some (NewInt32 7)) (sample_engine [0x1000, 0x1004]) = Some s \<and> ms_view d = ms_view s"
proof (rule dense_agrees_sparse [OF _ sample_calm sample_value(1)])
  show "dense_ready sample_memory (Value_Size (NewInt32 7)) (found (ms_view (sample_engine [0x1000, 0x1004])))"
    by (simp add: dense_ready_def size_aligned_def sample_engine_ready sample_value list_all_iff)
qed (simp_all add: sample_engine_ready sample_sparse)

text \<open>A whole session: the rounds, each with what the world is then, its memory, the value and how it is compared.\<close>

type_synonym scan_round = "World \<times> memory \<times> Value \<times> ValueComparable"

definition next_scans :: "scan_round list \<Rightarrow> Memscan \<Rightarrow> Memscan go" where
  "next_scans = go_fold (\<lambda>(w, mem, v, cmp). NextScan w (Some v))"

fun rounds_ready :: "int \<Rightarrow> scan_round list \<Rightarrow> u64 list \<Rightarrow> bool" where
  "rounds_ready pid [] addrs = True"
| "rounds_ready pid ((w, mem, v, cmp) # rs) addrs \<longleftrightarrow>
     calm w mem pid \<and> next_ready mem v cmp addrs \<and> rounds_ready pid rs (filter (holds mem cmp) addrs)"

definition held :: "scan_round list \<Rightarrow> u64 \<Rightarrow> bool" where
  "held rs a \<longleftrightarrow> list_all (\<lambda>(w, mem, v, cmp). holds mem cmp a) rs"

lemma next_scans_held:
  assumes "engine_ready pid m" "rounds_ready pid rs (found (ms_view m))"
  shows "\<exists>m'. next_scans rs m = Some m' \<and> engine_ready pid m' \<and> found (ms_view m') = filter (held rs) (found (ms_view m))"
  using assms
proof (induction rs arbitrary: m)
  case Nil
  then show ?case by (simp add: next_scans_def held_def)
next
  case (Cons r rs)
  obtain w mem v cmp where r: "r = (w, mem, v, cmp)" by (cases r)
  with Cons.prems obtain m1 where m1: "NextScan w (Some v) m = Some m1" "engine_ready pid m1"
    "ms_view m1 = (if found (ms_view m) = [] then ms_view m else session_next (holds mem cmp) (ms_view m))"
    using next_scan_step [of pid m w mem v cmp] by auto
  then have f: "found (ms_view m1) = filter (holds mem cmp) (found (ms_view m))" by (auto simp: session_next_def)
  with Cons.IH [OF m1(2)] Cons.prems r obtain m' where "next_scans rs m1 = Some m'" "engine_ready pid m'"
    "found (ms_view m') = filter (held rs) (found (ms_view m1))" by auto
  moreover have "held (r # rs) = (\<lambda>a. holds mem cmp a \<and> held rs a)" by (simp add: held_def r fun_eq_iff)
  ultimately show ?case using m1(1) f r by (simp add: next_scans_def conj_commute)
qed

text \<open>
  C1: a session in which nothing outside the program fails ends with exactly the aligned addresses of the process's
  mappings that held an accepted value at every one of its scans. Its first scan is for a value of a number type, of eight bytes or
  such that no region has more matches than its task's buffer has room for (else it panics, as proved), over mappings of whole
  readable pages, at most 2^57 bytes. A next scan of more results than \<open>nextScanSparseThreshold\<close>, which reads densely, is for a
  value of a number type to whose size the results, ascending below 2^63, are aligned, with the pages around them readable; one of fewer results is for a value of two bytes or more
  that no unreadable address seems to match (\<open>told_apart\<close>).
\<close>

theorem session_finds:
  assumes "ms_inv m" "calm w mem pid" "mapped w mem pid m regions" "typed_value v cmp" "RegionsOptimize regions = Some out"
    and "8 \<le> Value_Size v \<or> list_all (\<lambda>r. length (region_matches mem cmp r) \<le> regionResultsAllocCaps) out"
    and "rounds_ready pid rs (filter (aligned_holds mem cmp) (covered_addrs regions))"
  shows "\<exists>m1 m2. FirstScan w v m = Some m1 \<and> next_scans rs m1 = Some m2 \<and>
    found (ms_view m2) = filter (\<lambda>a. aligned_holds mem cmp a \<and> held rs a) (covered_addrs regions)"
proof -
  have "list_all (\<lambda>r. length (region_matches mem cmp r) \<le> regionResultsAllocCaps) out"
    using assms(6) wide_values_fit [OF assms(3-5)] by blast
  from FirstScan_found [OF assms(1-5) this] obtain m1 where m1: "FirstScan w v m = Some m1" "engine_ready pid m1"
    "found (ms_view m1) = filter (aligned_holds mem cmp) (covered_addrs regions)"
    by (auto simp: engine_ready_def)
  with next_scans_held [OF m1(2), of rs] assms(7) obtain m2 where "next_scans rs m1 = Some m2"
    "found (ms_view m2) = filter (held rs) (found (ms_view m1))" by auto
  with m1(1,3) show ?thesis by (auto simp: conj_commute)
qed

theorem session_finds_witness:
  "\<exists>m1 m2 regions. FirstScan sample_world (NewInt64 7) (sample_engine []) = Some m1 \<and>
    next_scans [(sample_world, sample_memory, NewInt32 7, CmpValue (NewInt32 7))] m1 = Some m2 \<and>
    map strip regions = [sample_region 4096 12288 11 ''[heap]'', sample_region 28672 32768 11 []] \<and>
    found (ms_view m2) = filter (\<lambda>a. aligned_holds sample_memory (CmpValue (NewInt64 7)) a \<and>
      holds sample_memory (CmpValue (NewInt32 7)) a) (covered_addrs regions)"
proof -
  obtain regions out where r: "mapped sample_world sample_memory 1 (sample_engine []) regions"
    "map strip regions = [sample_region 4096 12288 11 ''[heap]'', sample_region 28672 32768 11 []]" "RegionsOptimize regions = Some out"
    using sample_mapped [of "[]"] by (elim exE conjE) (rule that; assumption)
  define addrs where "addrs = filter (aligned_holds sample_memory (CmpValue (NewInt64 7))) (covered_addrs regions)"
  have "length (covered_addrs regions) = 12288"
    unfolding covered_addrs_strip [of regions, symmetric] r(2)
    by (simp add: sample_region_def region_addrs_def length_addr_range)
  then have "length addrs \<le> 12288" unfolding addrs_def by (metis length_filter_le)
  then have "next_ready sample_memory (NewInt32 7) (CmpValue (NewInt32 7)) addrs"
    by (simp add: next_ready_def sample_sparse nextScanSparseThreshold_def IOV_MAX_def)
  then have rounds: "rounds_ready 1 [(sample_world, sample_memory, NewInt32 7, CmpValue (NewInt32 7))] addrs"
    using sample_calm by simp
  have "ms_inv (sample_engine [])" by (simp add: sample_engine_ready)
  from session_finds [OF this sample_calm r(1) sample_value(5) r(3) _ rounds [unfolded addrs_def]] sample_value(6) obtain m1 m2 where
    "FirstScan sample_world (NewInt64 7) (sample_engine []) = Some m1"
    "next_scans [(sample_world, sample_memory, NewInt32 7, CmpValue (NewInt32 7))] m1 = Some m2"
    "found (ms_view m2) = filter (\<lambda>a. aligned_holds sample_memory (CmpValue (NewInt64 7)) a \<and>
      holds sample_memory (CmpValue (NewInt32 7)) a) (covered_addrs regions)"
    by (auto simp: held_def)
  with r(2) show ?thesis by (intro exI conjI)
qed

end
