(* ===== verification/Results_View.thy ===== *)
theory Results_View
  imports Scan_Results
begin

text \<open>
  Looking at the results: searching an address among them, the rows a user interface shows, and writing to them.
\<close>

section \<open>Searching\<close>

text \<open>
  On ascending results, as scans leave them, \<open>SearchInResults\<close> gives the position of an address
  among them, and \<open>-1\<close> exactly for an address that is not a result.
\<close>

lemma SearchInResults_finds:
  assumes "ms_inv m" "sorted (found (ms_view m))"
  shows "\<exists>i. SearchInResults a m = Some i \<and>
    (if a \<in> set (found (ms_view m)) then 0 \<le> i \<and> i < Count m \<and> found (ms_view m) ! nat i = a else i = - 1)"
proof -
  obtain r where r: "ms_results m = Some r" "mm_inv r" "found (ms_view m) = mm_contents r"
    using ms_invE [OF assms(1)] by (metis array_ok_def)
  obtain i hit where b: "BinarySearch (mm_contents r) a = (i, hit)" by fastforce
  have sorted: "sorted (mm_contents r)" using assms(2) r(3) by simp
  from bs.search_member [OF sorted b] bs.search_found [OF sorted b] show ?thesis
    using r mm_Len_inv [OF r(2)] mm_Data_inv [OF r(2)] b
    by (auto simp: SearchInResults_def Count_def)
qed

section \<open>The rows\<close>

text \<open>The loop over the rows, for values that stay in some shape \<open>P\<close> and are then shown by \<open>g\<close>.\<close>

lemma render_fold:
  assumes "mm_inv results" "mm_contents results = addrs" "length addrs * sz \<le> length buf"
    and "\<And>u b. P u \<Longrightarrow> length b = sz \<Longrightarrow> P (SetBytes b u) \<and> Format sf [v_typ (SetBytes b u)] (SetBytes b u) = Some (g b)"
    and "list_all (\<lambda>i. i < length addrs) indices" "P u"
  shows "\<exists>u'. go_fold (\<lambda>i (u, rows). do {
      (addr, ok) \<leftarrow> mm_Index (int i) results;
      if \<not> ok then Some (u, rows)
      else do {
        let offset = i * sz;
        b \<leftarrow> slice buf (int offset) (int (offset + sz));
        let u = SetBytes b u;
        shown \<leftarrow> Format sf [v_typ u] u;
        Some (u, rows @ [(show_addr addr, shown)])
      }
    }) indices (u, rows) = Some (u', rows @ map (\<lambda>i. (show_addr (addrs ! i), g (chunk sz i buf))) indices)"
  using assms(5,6)
proof (induction indices arbitrary: u rows)
  case (Cons i indices)
  then have i: "i < length addrs" by simp
  have room: "i * sz + sz \<le> length buf" by (rule chunk_room [OF i assms(3)])
  then have "slice buf (int (i * sz)) (int (i * sz + sz)) = Some (chunk sz i buf)"
    by (rule slice_chunk)
  moreover have "mm_Index (int i) results = Some (addrs ! i, True)"
    using mm_Index_correct [OF assms(1), of "int i"] assms(2) i by simp
  moreover have "length (chunk sz i buf) = sz" using room by (simp add: chunk_def)
  ultimately show ?case
    using Cons.IH [of "SetBytes (chunk sz i buf) u" "rows @ [(show_addr (addrs ! i), g (chunk sz i buf))]"]
      assms(4) [of u "chunk sz i buf"] Cons.prems
    by (simp add: Let_def)
qed simp

text \<open>How the bytes of a value of a type are shown.\<close>

definition show_data :: "(fmt \<Rightarrow> fl \<Rightarrow> string) \<Rightarrow> Type \<Rightarrow> bytes \<Rightarrow> string" where
  "show_data sf t b = the (Format sf [t] \<lparr>v_typ = t, v_data = b, v_option = 0\<rparr>)"

lemma RenderResults_fold:
  assumes "ms_inv m" "ms_proc m = Some pid" "reads_memory (w_readv w) pid mem" "wf_value v" "2 \<le> Value_Size v"
    and "length (found (ms_view m)) \<le> IOV_MAX" "found (ms_view m) \<noteq> []"
    and "\<And>u b. P u \<Longrightarrow> length b = Value_Size v \<Longrightarrow>
      P (SetBytes b u) \<and> Format sf [v_typ (SetBytes b u)] (SetBytes b u) = Some (g b)"
    and "P (SetType (v_typ v) \<lparr>v_typ = 0, v_data = [], v_option = 0\<rparr>)"
  shows "\<exists>d buf. Value_DisturbingByte v = Some d \<and> values_read mem (Value_Size v) d (found (ms_view m)) (length (found (ms_view m))) buf \<and>
    RenderResults sf w (Some v) m =
      Some (map (\<lambda>i. (show_addr (found (ms_view m) ! i), g (chunk (Value_Size v) i buf))) [0..<length (found (ms_view m))])"
proof -
  obtain r where r: "ms_results m = Some r" "mm_inv r" "found (ms_view m) = mm_contents r"
    using ms_invE [OF assms(1)] by (metis array_ok_def)
  define addrs where "addrs = mm_contents r"
  define sz where "sz = Value_Size v"
  have "v_data v \<noteq> []" using wf_value_Size [OF assms(4)] assms(5) by auto
  then obtain d where d: "Value_DisturbingByte v = Some d" by (auto simp: Value_DisturbingByte_def index_def)
  define buf0 where "buf0 = getReadBuffer (w_pooled w 0) (length addrs * sz)"
  have "length buf0 = length addrs * sz" by (simp add: buf0_def getReadBuffer_clear)
  with readValuesRaw_total [OF assms(3), of addrs sz buf0 d] assms(5,6) obtain buf where
    buf: "readValuesRaw (w_readv w) pid addrs (int sz) d buf0 = Some buf" "length buf = length addrs * sz"
      "values_read mem sz d addrs (length addrs) buf"
    by (auto simp: addrs_def r(3) sz_def)
  have len: "length addrs * sz \<le> length buf" using buf(2) by simp
  have "list_all (\<lambda>i. i < length addrs) [0..<length addrs]" by (simp add: list_all_iff)
  from render_fold [OF r(2) _ len assms(8)[folded sz_def] this assms(9), of "[]"] obtain value' where
    "go_fold (\<lambda>i (value, rows). do {
      (addr, ok) \<leftarrow> mm_Index (int i) r;
      if \<not> ok then Some (value, rows)
      else do {
        let offset = i * sz;
        b \<leftarrow> slice buf (int offset) (int (offset + sz));
        let value = SetBytes b value;
        shown \<leftarrow> Format sf [v_typ value] value;
        Some (value, rows @ [(show_addr addr, shown)])
      }
    }) [0..<length addrs] (SetType (v_typ v) \<lparr>v_typ = 0, v_data = [], v_option = 0\<rparr>, []) =
      Some (value', map (\<lambda>i. (show_addr (addrs ! i), g (chunk sz i buf))) [0..<length addrs])"
    by (auto simp: addrs_def)
  moreover have "mm_Len r = int (length addrs)" "addrs \<noteq> []" "mm_Data r = Some addrs"
    using r assms(7) by (simp_all add: mm_Len_inv mm_Data_inv addrs_def)
  ultimately have "RenderResults sf w (Some v) m =
      Some (map (\<lambda>i. (show_addr (addrs ! i), g (chunk sz i buf))) [0..<length addrs])"
    using r(1) assms(2) d buf(1) by (simp add: RenderResults_def Let_def buf0_def flip: sz_def)
  with d buf(3) show ?thesis by (auto simp: r(3) addrs_def sz_def)
qed

lemma Format_typed:
  assumes "t \<noteq> Bytes" "length b = ByteSize t" "b \<noteq> []"
  shows "Format sf [t] \<lparr>v_typ = t, v_data = b, v_option = 0\<rparr> = Some (show_data sf t b)"
proof -
  have "t = Int8 \<or> t = Int16 \<or> t = Int32 \<or> t = Int64 \<or> t = Float32 \<or> t = Float64"
    using assms(2,3) by (auto simp: ByteSize_def split: if_splits)
  moreover define c where "c = copy_at (replicate (ByteSize t) 0) 0 b"
  moreover have "length c = length b" using assms(2) by (simp add: c_def length_copy_at)
  moreover from this have "c \<noteq> []" using assms(3) by auto
  ultimately have "ToRaw t \<lparr>v_typ = t, v_data = b, v_option = 0\<rparr> \<noteq> None"
    using assms(2) by (elim disjE) (simp_all add: ToRaw_def ByteSize_simps Uint_def index_def flip: c_def)
  with assms(1) show ?thesis by (auto simp: Format_def show_data_def)
qed

lemma SetBytes_typed:
  assumes "v_typ u = t" "length (v_data u) = length b" "v_option u = 0"
  shows "SetBytes b u = \<lparr>v_typ = t, v_data = b, v_option = 0\<rparr>"
  using assms by (cases u) (simp add: SetBytes_def copy_at_def)

text \<open>
  When the values of the results can be read, \<open>RenderResults\<close> shows for each its address in hexadecimal and
  the number that is in memory there, in the order of the results.
\<close>

lemma RenderResults_shown:
  assumes "ms_inv m" "ms_proc m = Some pid" "reads_memory (w_readv w) pid mem" "wf_value v" "Aligned v" "2 \<le> Value_Size v"
    and "length (found (ms_view m)) \<le> IOV_MAX" "list_all (value_readable mem (Value_Size v)) (found (ms_view m))"
  shows "RenderResults sf w (Some v) m =
    Some (map (\<lambda>a. (show_addr a, show_data sf (v_typ v) (value_at mem (Value_Size v) a))) (found (ms_view m)))"
proof (cases "found (ms_view m) = []")
  case True
  with assms(1) show ?thesis
    by (elim ms_invE) (simp add: RenderResults_def Let_def array_ok_def mm_Len_inv)
next
  case False
  have t: "v_typ v \<noteq> Bytes" "ByteSize (v_typ v) = Value_Size v"
    using assms(5) by (simp_all add: Aligned_def Value_Size_def)
  define P where "P u \<longleftrightarrow> v_typ u = v_typ v \<and> length (v_data u) = Value_Size v \<and> v_option u = 0" for u :: Value
  have step: "P (SetBytes b u) \<and> Format sf [v_typ (SetBytes b u)] (SetBytes b u) = Some (show_data sf (v_typ v) b)"
    if "P u" "length b = Value_Size v" for u b
  proof -
    have "b \<noteq> []" using that(2) assms(6) by auto
    with SetBytes_typed [of u "v_typ v" b] Format_typed [OF t(1), of b sf] t(2) that show ?thesis by (simp add: P_def)
  qed
  have "P (SetType (v_typ v) \<lparr>v_typ = 0, v_data = [], v_option = 0\<rparr>)"
    using t(2) by (simp add: P_def SetType_def)
  from RenderResults_fold [OF assms(1-4,6,7) False step this] obtain d buf where
    buf: "values_read mem (Value_Size v) d (found (ms_view m)) (length (found (ms_view m))) buf"
      "RenderResults sf w (Some v) m =
        Some (map (\<lambda>i. (show_addr (found (ms_view m) ! i), show_data sf (v_typ v) (chunk (Value_Size v) i buf))) [0..<length (found (ms_view m))])"
    by blast
  have "map (\<lambda>i. (show_addr (found (ms_view m) ! i), show_data sf (v_typ v) (chunk (Value_Size v) i buf))) [0..<length (found (ms_view m))] =
      map (\<lambda>a. (show_addr a, show_data sf (v_typ v) (value_at mem (Value_Size v) a))) (found (ms_view m))"
    using buf(1) assms(8) by (intro nth_equalityI) (auto simp: values_read_def list_all_length)
  with buf(2) show ?thesis by simp
qed

text \<open>
  Byte strings are not shown: \<open>SetType\<close> leaves the value empty and \<open>SetBytes\<close> copies into nothing, so every row
  says \<open>00\<close>.
\<close>

lemma RenderResults_bytes_blank:
  assumes "ms_inv m" "ms_proc m = Some pid" "reads_memory (w_readv w) pid mem" "wf_value v" "v_typ v = Bytes" "2 \<le> Value_Size v"
    and "length (found (ms_view m)) \<le> IOV_MAX" "found (ms_view m) \<noteq> []"
  shows "RenderResults sf w (Some v) m = Some (map (\<lambda>a. (show_addr a, ''00'')) (found (ms_view m)))"
proof -
  define P where "P u \<longleftrightarrow> v_typ u = Bytes \<and> v_data u = []" for u :: Value
  have "P (SetBytes b u) \<and> Format sf [v_typ (SetBytes b u)] (SetBytes b u) = Some ''00''" if "P u" for u b
    using that by (simp add: P_def SetBytes_def copy_at_def Format_def Value_String_def)
  moreover have "P (SetType (v_typ v) \<lparr>v_typ = 0, v_data = [], v_option = 0\<rparr>)"
    using assms(5) by (simp add: P_def SetType_def ByteSize_def)
  ultimately obtain buf where "RenderResults sf w (Some v) m =
      Some (map (\<lambda>i. (show_addr (found (ms_view m) ! i), ''00'')) [0..<length (found (ms_view m))])"
    using RenderResults_fold [OF assms(1-4,6-8), of P sf "\<lambda>_. ''00''"] by blast
  moreover have "map (\<lambda>i. (show_addr (found (ms_view m) ! i), ''00'')) [0..<length (found (ms_view m))] =
      map (\<lambda>a. (show_addr a, ''00'')) (found (ms_view m))"
    by (intro nth_equalityI) simp_all
  ultimately show ?thesis by simp
qed

text \<open>There are at most as many rows as results.\<close>

lemma go_fold_rows:
  assumes "\<And>x u rows u1 rows1. f x (u, rows) = Some (u1, rows1) \<Longrightarrow> length rows1 \<le> Suc (length rows)"
    and "go_fold f xs (u, rows) = Some (u', rows')"
  shows "length rows' \<le> length rows + length xs"
  using assms(2)
proof (induction xs arbitrary: u rows)
  case (Cons x xs)
  then obtain u1 rows1 where step: "f x (u, rows) = Some (u1, rows1)" "go_fold f xs (u1, rows1) = Some (u', rows')"
    by (auto split: Option.bind_splits)
  from Cons.IH [OF step(2)] assms(1) [OF step(1)] show ?case by simp
qed simp

lemma RenderResults_length:
  assumes "RenderResults sf w v m = Some rows"
  shows "length rows \<le> nat (Count m)"
proof (cases "v = None \<or> ms_results m = None \<or> Count m = 0")
  case True
  with assms show ?thesis
    by (auto simp: RenderResults_def Count_def Let_def split: option.splits)
next
  case False
  then obtain v' r where v: "v = Some v'" and r: "ms_results m = Some r" by auto
  with False have "mm_Len r \<noteq> 0" by (simp add: Count_def)
  with assms v r obtain buf u u' where "go_fold (\<lambda>i (u, rows). do {
      (addr, ok) \<leftarrow> mm_Index (int i) r;
      if \<not> ok then Some (u, rows)
      else do {
        let offset = i * Value_Size v';
        b \<leftarrow> slice buf (int offset) (int (offset + Value_Size v'));
        let u = SetBytes b u;
        shown \<leftarrow> Format sf [v_typ u] u;
        Some (u, rows @ [(show_addr addr, shown)])
      }
    }) [0..<nat (mm_Len r)] (u, []) = Some (u', rows)"
    by (auto simp: RenderResults_def Let_def split: Option.bind_splits)
  then have "length rows \<le> length ([] :: (string \<times> string) list) + length [0..<nat (mm_Len r)]"
    by (rule go_fold_rows [rotated]) (auto simp: Let_def split: Option.bind_splits if_splits prod.splits)
  with r show ?thesis by (simp add: Count_def)
qed

section \<open>Writing\<close>

text \<open>The results chosen: all when no index is given, otherwise those at the valid indices.\<close>

definition chosen :: "int list \<Rightarrow> u64 list \<Rightarrow> u64 list" where
  "chosen indices addrs =
     (if indices = [] then addrs
      else map (\<lambda>i. addrs ! nat i) (filter (\<lambda>i. 0 \<le> i \<and> i < int (length addrs)) indices))"

lemma choose_fold:
  assumes "mm_inv r"
  shows "go_fold (\<lambda>idx address.
      if - 1 < idx \<and> idx < int (length (mm_contents r)) then do {
        (addr, ok) \<leftarrow> mm_Index idx r;
        Some (if ok then address @ [addr] else address)
      } else Some address) indices acc =
    Some (acc @ map (\<lambda>i. mm_contents r ! nat i) (filter (\<lambda>i. 0 \<le> i \<and> i < int (length (mm_contents r))) indices))"
proof (induction indices arbitrary: acc)
  case (Cons i indices)
  have "- 1 < i \<longleftrightarrow> 0 \<le> i" by linarith
  with Cons show ?case by (simp add: mm_Index_correct [OF assms])
qed simp

lemma ChangeResultsValues_written:
  assumes "ms_inv m" "ms_proc m = Some pid" "writes_memory vm pid writable" "wf_value v" "2 \<le> length (v_data v)"
    and "length (chosen indices (found (ms_view m))) \<le> IOV_MAX" "clean writable (length (v_data v)) (chosen indices (found (ms_view m)))"
  shows "ChangeResultsValues vm indices v m mem =
    Some (fold (write_value writable (v_data v)) (chosen indices (found (ms_view m))) mem)"
proof -
  obtain r where r: "ms_results m = Some r" "mm_inv r" "found (ms_view m) = mm_contents r"
    using ms_invE [OF assms(1)] by (metis array_ok_def)
  define addrs where "addrs = chosen indices (mm_contents r)"
  have n: "Count m = int (length (mm_contents r))" using Count_view [OF assms(1)] r(3) by simp
  have choose: "(if indices = [] then mm_Data r
      else go_fold (\<lambda>idx address.
        if - 1 < idx \<and> idx < int (length (mm_contents r)) then do {
          (addr, ok) \<leftarrow> mm_Index idx r;
          Some (if ok then address @ [addr] else address)
        } else Some address) indices []) = Some addrs"
    unfolding choose_fold [OF r(2)] by (simp add: addrs_def chosen_def mm_Data_inv [OF r(2)])
  show ?thesis
  proof (cases "mm_contents r = []")
    case True
    moreover have "chosen indices [] = []" by (auto simp: chosen_def)
    ultimately show ?thesis by (simp add: ChangeResultsValues_def n r(3))
  next
    case False
    from writeValues_total [OF assms(3), of addrs v mem] assms(4-7) obtain tot err where
      "writeValues vm pid addrs v mem = Some ((tot, err), fold (write_value writable (v_data v)) addrs mem)"
      by (auto simp: r(3) addrs_def)
    with False r(1) assms(2) choose show ?thesis
      by (simp add: ChangeResultsValues_def n r(3) flip: addrs_def)
  qed
qed

text \<open>
  C12: writing to results stores the value at exactly the chosen ones that can be written, all results when no index is
  given and otherwise those at the valid indices, and changes no other memory; invalid indices are ignored.
\<close>

theorem ChangeResultsValues_writes:
  assumes "ms_inv m" "ms_proc m = Some pid" "writes_memory vm pid writable" "wf_value v" "2 \<le> length (v_data v)"
    and "length (chosen indices (found (ms_view m))) \<le> IOV_MAX" "clean writable (length (v_data v)) (chosen indices (found (ms_view m)))"
  shows "ChangeResultsValues vm indices v m mem =
    Some (fold (write_value writable (v_data v)) (chosen indices (found (ms_view m))) mem)"
  by (rule ChangeResultsValues_written [OF assms])

theorem ChangeResultsValues_writes_witness:
  "\<exists>mem'. ChangeResultsValues (sim_writev (\<lambda>a. a < 0x2000)) [7, 1, 0] (NewBytes [1, 2]) (sample_engine [0x1000, 0x5000]) (\<lambda>_. Some 0) =
     Some mem' \<and> mem' 0x1000 = Some 1 \<and> mem' 0x1001 = Some 2 \<and> mem' 0x5000 = Some 0"
proof -
  define W :: "u64 \<Rightarrow> bool" where "W = (\<lambda>a. a < 0x2000)"
  have m: "ms_inv (sample_engine [0x1000, 0x5000])" "ms_proc (sample_engine [0x1000, 0x5000]) = Some 1"
    "found (ms_view (sample_engine [0x1000, 0x5000])) = [0x1000, 0x5000]"
    by (simp_all add: sample_engine_ready) (simp add: sample_engine_def)
  have addrs: "chosen [7, 1, 0] [0x1000, 0x5000 :: u64] = [0x5000, 0x1000]" by (simp add: chosen_def)
  have "value_writable W 2 0x1000" "\<not> value_writable W 2 0x5000" "\<not> W 0x5000"
    by (simp_all add: W_def value_writable_def iov_addrs_def upt_rec)
  then have "clean W (Suc (Suc 0)) [0x5000, 0x1000]"
    "fold (write_value W [1, 2]) [0x5000, 0x1000] (\<lambda>_. Some 0) = ((\<lambda>_. Some 0)(0x1000 := Some 1))(0x1001 := Some 2)"
    by (simp_all add: clean_def write_value_def write_bytes_def iov_addrs_def numeral_2_eq_2)
  moreover have "v_data (NewBytes [1, 2]) = [1, 2]" by (simp_all add: NewBytes_def)
  ultimately show ?thesis
    using ChangeResultsValues_writes [OF m(1,2) sim_writev_writes, of "NewBytes [1, 2]" "[7, 1, 0]" W "\<lambda>_. Some 0"]
      wf_value_constructors(7) [of "[1, 2]"] addrs
    unfolding W_def [symmetric] m(3) by (fastforce simp: IOV_MAX_def)
qed

end
