(* ===== verification/Process.thy ===== *)
theory Process
  imports Value Maps
begin

text \<open>
  Processes (\<^verbatim>\<open>deck/process.go\<close>): parsing \<^verbatim>\<open>/proc/pid/stat\<close>, \<^verbatim>\<open>cmdline\<close> and \<^verbatim>\<open>status\<close>, and the
  score by which games are told from helpers. The contents of the files are arguments, \<open>None\<close> when a file
  cannot be read.
\<close>

section \<open>Text functions of the standard library\<close>

text \<open>\<^verbatim>\<open>strings.Contains(s, substr)\<close> and \<^verbatim>\<open>bytes.LastIndexByte\<close>.\<close>

fun Contains :: "string \<Rightarrow> string \<Rightarrow> bool" where
  "Contains [] sub \<longleftrightarrow> sub = []"
| "Contains (c # cs) sub \<longleftrightarrow> prefix sub (c # cs) \<or> Contains cs sub"

lemma Contains_sublist: "Contains s sub \<longleftrightarrow> sublist sub s"
  by (induction s) (auto simp: sublist_Cons_right)

fun LastIndexByte :: "string \<Rightarrow> char \<Rightarrow> int" where
  "LastIndexByte [] c = -1"
| "LastIndexByte (x # xs) c =
     (let r = LastIndexByte xs c in if 0 \<le> r then r + 1 else if x = c then 0 else -1)"

text \<open>\<^verbatim>\<open>bytes.Fields\<close>: the pieces between runs of white space; \<open>cur\<close> is the piece being read.\<close>

fun fields_from :: "string \<Rightarrow> string \<Rightarrow> string list" where
  "fields_from cur [] = (if cur = [] then [] else [cur])"
| "fields_from cur (c # cs) =
     (let n = space_rune (c # cs) in
      if n = 0 then fields_from (cur @ [c]) cs
      else (if cur = [] then [] else [cur]) @ fields_from [] (drop (n - 1) cs))"

definition Fields :: "string \<Rightarrow> string list" where
  "Fields = fields_from []"

text \<open>\<^verbatim>\<open>bytes.TrimSpace\<close>: leading white space, then the runes of white space the text ends with.\<close>

fun trim_left :: "string \<Rightarrow> string" where
  "trim_left [] = []"
| "trim_left (c # cs) = (let n = space_rune (c # cs) in if n = 0 then c # cs else trim_left (drop (n - 1) cs))"

definition space_suffix :: "string \<Rightarrow> nat" where
  "space_suffix s =
     (if s \<noteq> [] \<and> space_rune (drop (length s - 1) s) = 1 then 1
      else if 2 \<le> length s \<and> space_rune (drop (length s - 2) s) = 2 then 2
      else if 3 \<le> length s \<and> space_rune (drop (length s - 3) s) = 3 then 3
      else 0)"

function trim_right :: "string \<Rightarrow> string" where
  "trim_right s = (let n = space_suffix s in if n = 0 then s else trim_right (take (length s - n) s))"
  by pat_completeness auto
termination
  by (relation "measure length") (auto simp: space_suffix_def Let_def split: if_splits)

declare trim_right.simps [simp del]

definition TrimSpace :: "string \<Rightarrow> string" where
  "TrimSpace s = trim_right (trim_left s)"

text \<open>
  \<^verbatim>\<open>strings.ToLower\<close> as far as a search for ASCII text can see: ASCII letters, and the only two other
  runes whose lower case is ASCII, the Kelvin sign and the dotted capital I.
\<close>

fun ToLower_ascii :: "string \<Rightarrow> string" where
  "ToLower_ascii (a # b # c # s) =
     (if [a, b, c] = [CHR 0xE2, CHR 0x84, CHR 0xAA] then CHR ''k'' # ToLower_ascii s
      else if [a, b] = [CHR 0xC4, CHR 0xB0] then CHR ''i'' # ToLower_ascii (c # s)
      else to_lower a # ToLower_ascii (b # c # s))"
| "ToLower_ascii [a, b] = (if [a, b] = [CHR 0xC4, CHR 0xB0] then ''i'' else [to_lower a, to_lower b])"
| "ToLower_ascii [a] = [to_lower a]"
| "ToLower_ascii [] = []"

text \<open>\<^verbatim>\<open>strconv.Atoi\<close>, the value it gives beside an error included.\<close>

definition Atoi :: "string \<Rightarrow> int \<times> num_error option" where
  "Atoi s = ParseInt s 10 64"

section \<open>The stat line\<close>

text \<open>
  \<^verbatim>\<open>fmt.Sscanf\<close> with \<^verbatim>\<open>%c %d %d\<close>: a rune that must fit a byte, then twice white space, which must
  not reach a new line, and a signed decimal number. What was scanned before an error has been
  stored.
\<close>

fun scan_spaces :: "string \<Rightarrow> string" where
  "scan_spaces [] = []"
| "scan_spaces (c # cs) =
     (let n = space_rune (c # cs) in
      if c = CHR 0x0A \<or> n = 0 then c # cs else scan_spaces (drop (n - 1) cs))"

definition scan_number :: "string \<Rightarrow> (int \<times> string) option" where
  "scan_number s =
     (if s \<noteq> [] \<and> space_rune s = 0 then None
      else
        let s = scan_spaces s;
            sign = (if s \<noteq> [] \<and> (hd s = CHR ''+'' \<or> hd s = CHR ''-'') then [hd s] else []);
            rest = drop (length sign) s;
            ds = takeWhile (\<lambda>c. c \<in> set ''0123456789'') rest in
        if ds = [] then None
        else case ParseInt (sign @ ds) 10 64 of
            (i, None) \<Rightarrow> Some (i, drop (length ds) rest)
          | _ \<Rightarrow> None)"

record Process =
  p_AppID :: int
  p_PID :: int
  p_PPID :: int
  p_PGRP :: int
  p_Comm :: string
  p_Command :: string
  p_State :: u8
  p_RSS :: u64

definition scan_stat :: "string \<Rightarrow> Process \<Rightarrow> bool \<times> Process" where
  "scan_stat s proc =
     (if s = [] \<or> 128 \<le> (of_char (hd s) :: nat) then (False, proc)
      else
        let proc = proc\<lparr>p_State := of_char (hd s)\<rparr> in
        case scan_number (tl s) of
          None \<Rightarrow> (False, proc)
        | Some (ppid, rest) \<Rightarrow>
            let proc = proc\<lparr>p_PPID := ppid\<rparr> in
            (case scan_number rest of
               None \<Rightarrow> (False, proc)
             | Some (pgrp, _) \<Rightarrow> (True, proc\<lparr>p_PGRP := pgrp\<rparr>)))"

definition ProcessState_String :: "u8 \<Rightarrow> string" where
  "ProcessState_String state =
     (if state < 128 then [char_of (unat state)]
      else [char_of (0xC0 + unat state div 64), char_of (0x80 + unat state mod 64)])"

text \<open>The last component of a path, by slashes and otherwise by backslashes; \<open>-1\<close> for no separator.\<close>

definition last_separator :: "string \<Rightarrow> int" where
  "last_separator s =
     (let n = LastIndexByte s (CHR ''/'') in if n < 0 then LastIndexByte s (CHR 0x5C) else n)"

definition procNameInvalid :: "string list" where
  "procNameInvalid = [''Main'', ''MainThread'']"

text \<open>The name and the command line, from the contents of \<^verbatim>\<open>cmdline\<close>.\<close>

definition read_cmdline :: "string \<Rightarrow> Process \<Rightarrow> Process go" where
  "read_cmdline buf proc = do {
     proc \<leftarrow> (if length (p_Comm proc) = 15 then do {
         p \<leftarrow> slice buf 0 (IndexByte buf (CHR 0x00));
         let n = last_separator p;
         Some (proc\<lparr>p_Comm := if - 1 < n \<and> n < int (length p) then drop (nat (n + 1)) p else p\<rparr>)
       } else Some proc);
     let buf = map (\<lambda>c. if c = CHR 0x00 then CHR '' '' else c) buf;
     Some (proc\<lparr>p_Command := TrimSpace buf\<rparr>)
   }"

definition rename_invalid :: "Process \<Rightarrow> Process" where
  "rename_invalid proc =
     (if p_Comm proc \<in> set procNameInvalid then
        let comm = p_Command proc;
            n = last_separator comm in
        if - 1 < n then
          let comm = drop (nat (n + 1)) comm;
              k = IndexByte comm (CHR '' '') in
          proc\<lparr>p_Comm := if - 1 < k then take (nat k) comm else comm\<rparr>
        else proc\<lparr>p_Comm := comm\<rparr>
      else proc)"

text \<open>\<open>Refresh\<close> from the contents of the two files: whether it returns no error, and the process.\<close>

definition Refresh :: "string option \<Rightarrow> string option \<Rightarrow> Process \<Rightarrow> (bool \<times> Process) go" where
  "Refresh stat cmdline proc =
     (case stat of
        None \<Rightarrow> Some (False, proc)
      | Some buf \<Rightarrow>
          let l = IndexByte buf (CHR ''(''); r = LastIndexByte buf (CHR '')'') in
          if l < 0 \<or> r \<le> l then Some (False, proc)
          else do {
            comm \<leftarrow> slice buf (l + 1) r;
            let proc = proc\<lparr>p_Comm := comm\<rparr>;
            rest \<leftarrow> slice buf (r + 2) (int (length buf));
            let (ok, proc) = scan_stat rest proc;
            if \<not> ok then Some (False, proc)
            else do {
              let statParts = Fields buf;
              let proc = (if 24 \<le> length statParts
                          then proc\<lparr>p_RSS := of_nat (fst (ParseUint (statParts ! 23) 10 64))\<rparr> else proc);
              proc \<leftarrow> (case cmdline of None \<Rightarrow> Some proc | Some buf \<Rightarrow> read_cmdline buf proc);
              Some (cmdline \<noteq> None, rename_invalid proc)
            }
          })"

section \<open>What the system tells\<close>

text \<open>
  The files of all processes, who owns them, the targets of their descriptors, which are alive, and the logarithm term of
  the score, \<^verbatim>\<open>int(math.Log2(mb) * 20)\<close>.
\<close>

text \<open>What \<^verbatim>\<open>os.Stat\<close> tells of a path: an error, information that is not a \<^verbatim>\<open>Stat_t\<close>, or the user id of one.\<close>

datatype file_info = StatError | OtherInfo | StatUID nat

definition GetPathUID :: "file_info \<Rightarrow> nat" where
  "GetPathUID info = (case info of StatError \<Rightarrow> 0 | OtherInfo \<Rightarrow> 0 | StatUID uid \<Rightarrow> uid)"

record System =
  fs_names :: "string list option"
  fs_info :: "string \<Rightarrow> file_info"
  fs_self :: int
  fs_stat :: "int \<Rightarrow> string option"
  fs_cmdline :: "int \<Rightarrow> string option"
  fs_status :: "int \<Rightarrow> string option"
  fs_fds :: "int \<Rightarrow> string list option"
  fs_log_term :: "int \<Rightarrow> int"

definition NewProcess :: "System \<Rightarrow> int \<Rightarrow> (Process \<times> bool) go" where
  "NewProcess sys pid = do {
     (ok, proc) \<leftarrow> Refresh (fs_stat sys pid) (fs_cmdline sys pid)
       \<lparr>p_AppID = 0, p_PID = pid, p_PPID = 0, p_PGRP = 0, p_Comm = [], p_Command = [], p_State = 0, p_RSS = 0\<rparr>;
     Some (proc, ok)
   }"

definition newProcess :: "System \<Rightarrow> string \<Rightarrow> Process option go" where
  "newProcess sys pidStr =
     (let (pid, err) = Atoi pidStr in
      if err \<noteq> None then Some None
      else if pid = fs_self sys then Some None
      else do { (proc, ok) \<leftarrow> NewProcess sys pid; Some (if ok then Some proc else None) })"

definition DeckUID :: nat where
  "DeckUID = 1000"

definition EnumDeckProcesses :: "System \<Rightarrow> Process list option go" where
  "EnumDeckProcesses sys =
     (case fs_names sys of
        None \<Rightarrow> Some None
      | Some names \<Rightarrow>
          map_option Some (go_fold (\<lambda>name results. do {
              c \<leftarrow> index name 0;
              if (of_char c :: nat) < 48 \<or> 57 < (of_char c :: nat) then Some results
              else if GetPathUID (fs_info sys name) = DeckUID then do {
                process \<leftarrow> newProcess sys name;
                Some (case process of None \<Rightarrow> results | Some p \<Rightarrow> results @ [p])
              } else Some results
            }) names []))"

definition hasFileDescriptor :: "System \<Rightarrow> Process \<Rightarrow> string \<Rightarrow> bool" where
  "hasFileDescriptor sys proc target =
     (case fs_fds sys (p_PID proc) of None \<Rightarrow> False | Some dests \<Rightarrow> list_ex (\<lambda>dest. Contains dest target) dests)"

text \<open>The two numbers of \<^verbatim>\<open>status\<close>; the loop stops after the second line it has read one from.\<close>

fun read_status :: "string list \<Rightarrow> nat \<Rightarrow> int \<times> int \<Rightarrow> int \<times> int" where
  "read_status [] n (threads, vmdata) = (threads, vmdata)"
| "read_status (line # lines) n (threads, vmdata) =
     (let parts = Fields line;
          val = (if 2 \<le> length parts then Some (fst (ParseInt (parts ! 1) 10 64)) else None) in
      if prefix ''Threads:'' line then
        let threads = (case val of None \<Rightarrow> threads | Some v \<Rightarrow> v) in
        if n + 1 = 2 then (threads, vmdata) else read_status lines (n + 1) (threads, vmdata)
      else if prefix ''VmData:'' line then
        let vmdata = (case val of None \<Rightarrow> vmdata | Some v \<Rightarrow> v) in
        if n + 1 = 2 then (threads, vmdata) else read_status lines (n + 1) (threads, vmdata)
      else read_status lines n (threads, vmdata))"

definition readProcStatus :: "System \<Rightarrow> Process \<Rightarrow> int \<times> int" where
  "readProcStatus sys proc =
     (case fs_status sys (p_PID proc) of None \<Rightarrow> (0, 0) | Some text \<Rightarrow> read_status (scan_lines text) 0 (0, 0))"

definition excludeKeywords :: "string list" where
  "excludeKeywords =
     [''steamwebhelper'', ''reaper'', ''explorer.exe'', ''services.exe'',
      ''svchost.exe'', ''winedevice.exe'', ''plugplay.exe'', ''conhost.exe'',
      ''tabtip.exe'', ''monitor.exe'', ''rpcss.exe'', ''spoolsv.exe'',
      ''xalia.exe'', ''wineserver'']"

text \<open>Go's \<open>int\<close> arithmetic wraps at 64 bits.\<close>

definition wrap_int :: "int \<Rightarrow> int" where
  "wrap_int i = sint (of_int i :: u64)"

definition GetIdentityScore :: "System \<Rightarrow> Process \<Rightarrow> int" where
  "GetIdentityScore sys proc =
     (let cmd = ToLower_ascii (p_Command proc) in
      if list_ex (Contains cmd) excludeKeywords then - 5000
      else
        let score = (if hasFileDescriptor sys proc ''renderD128'' then 500 else 0);
            (threads, vmdata) = readProcStatus sys proc;
            score = wrap_int (score + threads * 10) in
        if 0 < vmdata \<and> 1024 < vmdata then wrap_int (score + fs_log_term sys vmdata) else score)"

section \<open>Reading back what the kernel writes\<close>

lemma digits_decimal: "set (digits 10 n) \<subseteq> set ''0123456789''"
proof (induction "10 :: nat" n rule: digits.induct)
  case (1 n)
  have "list_all (\<lambda>d. digit_char d \<in> set ''0123456789'') [0..<10]" by code_simp
  then have "digit_char d \<in> set ''0123456789''" if "d < 10" for d
    using that by (simp add: list_all_iff)
  with 1 show ?case by (simp add: digits.simps [of 10 n])
qed

definition signed_text :: "int \<Rightarrow> string" where
  "signed_text i = (if i < 0 then ''-'' else [])"

lemma show_int_split: "show_int i = signed_text i @ digits 10 (nat \<bar>i\<bar>)"
  by (simp add: show_int_def signed_text_def)

lemma set_show_int: "set (show_int i) \<subseteq> set ''-0123456789''"
proof -
  have "set (signed_text i) \<subseteq> {CHR ''-''}" by (auto simp: signed_text_def)
  moreover have "set ''-0123456789'' = insert (CHR ''-'') (set ''0123456789'')" by simp
  ultimately show ?thesis
    unfolding show_int_split set_append using digits_decimal [of "nat \<bar>i\<bar>"] by blast
qed

lemma space_rune_number:
  assumes "s \<noteq> []" "hd s \<in> set ''-0123456789''"
  shows "space_rune s = 0"
proof -
  have "list_all (\<lambda>c. 33 \<le> (of_char c :: nat) \<and> (of_char c :: nat) < 128) ''-0123456789''" by simp
  then have "33 \<le> (of_char (hd s) :: nat) \<and> (of_char (hd s) :: nat) < 128"
    using assms(2) unfolding list_all_iff by blast
  then show ?thesis using assms(1) by (cases s) (auto simp: space_rune_def)
qed

lemma hd_show_int: "show_int i \<noteq> [] \<and> hd (show_int i) \<in> set ''-0123456789''"
proof -
  have "show_int i \<noteq> []" by (simp add: show_int_split digits_nonempty)
  then show ?thesis using set_show_int [of i] by (meson hd_in_set subsetD)
qed

lemma takeWhile_stop: "list_all P xs \<Longrightarrow> rest = [] \<or> \<not> P (hd rest) \<Longrightarrow> takeWhile P (xs @ rest) = xs"
  by (cases rest) (auto simp: list_all_iff takeWhile_append2)

lemma scan_number_shown:
  assumes "- (2 ^ 63) \<le> i" "i < 2 ^ 63" "rest = [] \<or> hd rest \<notin> set ''0123456789''"
  shows "scan_number (CHR '' '' # show_int i @ rest) = Some (i, rest)"
proof -
  have s: "show_int i @ rest \<noteq> []" "hd (show_int i @ rest) \<in> set ''-0123456789''" "hd (show_int i @ rest) \<noteq> CHR 0x0A"
    using hd_show_int [of i] by auto
  have "scan_spaces (CHR '' '' # show_int i @ rest) = show_int i @ rest"
  proof -
    obtain c cs where c: "show_int i @ rest = c # cs" using s(1) by (cases "show_int i @ rest") auto
    with s(2,3) space_rune_number [of "c # cs"] have "scan_spaces (c # cs) = c # cs" by simp
    moreover have "space_rune (CHR '' '' # show_int i @ rest) = 1" by (simp add: space_rune_def)
    ultimately show ?thesis by (simp add: c)
  qed
  moreover have "space_rune (CHR '' '' # show_int i @ rest) \<noteq> 0" by (simp add: space_rune_def)
  moreover have "(if hd (show_int i @ rest) = CHR ''+'' \<or> hd (show_int i @ rest) = CHR ''-'' then [hd (show_int i @ rest)] else []) =
      signed_text i"
  proof (cases "i < 0")
    case False
    have "hd (digits 10 (nat \<bar>i\<bar>)) \<in> set ''0123456789''"
      using hd_in_set [OF digits_nonempty] digits_decimal by (rule subsetD [rotated])
    then have "hd (digits 10 (nat \<bar>i\<bar>)) \<noteq> CHR ''+''" "hd (digits 10 (nat \<bar>i\<bar>)) \<noteq> CHR ''-''" by auto
    with False show ?thesis
      by (simp add: show_int_split signed_text_def digits_nonempty)
  qed (simp add: show_int_split signed_text_def)
  moreover have "takeWhile (\<lambda>c. c \<in> set ''0123456789'') (digits 10 (nat \<bar>i\<bar>) @ rest) = digits 10 (nat \<bar>i\<bar>)"
  proof (rule takeWhile_stop)
    show "list_all (\<lambda>c. c \<in> set ''0123456789'') (digits 10 (nat \<bar>i\<bar>))"
      unfolding list_all_iff using digits_decimal by blast
  qed (rule assms(3))
  moreover have "ParseInt (signed_text i @ digits 10 (nat \<bar>i\<bar>)) 10 64 = (i, None)"
    using ParseInt_show_int [of 64 i] assms(1,2) by (simp add: show_int_split)
  moreover have "drop (length (signed_text i)) (show_int i @ rest) = digits 10 (nat \<bar>i\<bar>) @ rest"
    by (simp add: show_int_split)
  ultimately show ?thesis
    using s(1) by (simp add: scan_number_def Let_def digits_nonempty)
qed

lemma LastIndexByte_neg: "c \<notin> set ys \<Longrightarrow> LastIndexByte ys c = -1"
  by (induction ys) auto

lemma LastIndexByte_append: "c \<notin> set ys \<Longrightarrow> LastIndexByte (xs @ c # ys) c = int (length xs)"
  by (induction xs) (simp_all add: LastIndexByte_neg)

text \<open>The line of \<^verbatim>\<open>/proc/pid/stat\<close> up to the process group; the rest are numbers.\<close>

definition stat_line :: "nat \<Rightarrow> string \<Rightarrow> char \<Rightarrow> int \<Rightarrow> int \<Rightarrow> string \<Rightarrow> string" where
  "stat_line pid comm state ppid pgrp rest =
     digits 10 pid @ '' ('' @ comm @ '') '' @ state # '' '' @ show_int ppid @ '' '' @ show_int pgrp @ '' '' @ rest"

text \<open>
  C35: from the line the kernel writes, \<open>Refresh\<close> reads the name whatever it contains, parentheses and spaces
  included, the state, the parent and the process group, and takes the command line with its arguments separated by
  spaces.
\<close>

theorem Refresh_stat_line:
  assumes "(of_char state :: nat) < 128" "state \<noteq> CHR '')''" "CHR '')'' \<notin> set rest"
    and "- (2 ^ 63) \<le> ppid" "ppid < 2 ^ 63" "- (2 ^ 63) \<le> pgrp" "pgrp < 2 ^ 63"
    and "length comm \<noteq> 15" "comm \<notin> set procNameInvalid"
  shows "\<exists>rss. Refresh (Some (stat_line pid comm state ppid pgrp rest)) (Some cmdline) proc =
    Some (True, proc\<lparr>p_Comm := comm, p_State := of_char state, p_PPID := ppid, p_PGRP := pgrp, p_RSS := rss,
      p_Command := TrimSpace (map (\<lambda>c. if c = CHR 0x00 then CHR '' '' else c) cmdline)\<rparr>)"
proof -
  define buf where "buf = stat_line pid comm state ppid pgrp rest"
  define pre where "pre = digits 10 pid @ '' ''"
  define tail where "tail = state # '' '' @ show_int ppid @ '' '' @ show_int pgrp @ '' '' @ rest"
  have buf: "buf = pre @ CHR ''('' # comm @ CHR '')'' # CHR '' '' # tail"
    by (simp add: buf_def stat_line_def pre_def tail_def)
  have "CHR ''('' \<notin> set pre" using digits_decimal [of pid] by (auto simp: pre_def)
  then have l: "IndexByte buf (CHR ''('') = int (length pre)" by (simp add: buf IndexByte_append)
  have "CHR '')'' \<notin> set (CHR '' '' # tail)"
    using assms(2,3) set_show_int [of ppid] set_show_int [of pgrp] by (auto simp: tail_def)
  note last = LastIndexByte_append [OF this, of "pre @ CHR ''('' # comm"]
  define k where "k = int (length pre + 1 + length comm)"
  from last have r: "LastIndexByte buf (CHR '')'') = k" "\<not> k \<le> int (length pre)" by (simp_all add: buf k_def)
  have comm: "slice buf (int (length pre) + 1) k = Some comm"
    by (simp add: slice_def buf nat_add_distrib k_def)
  have tail: "slice buf (k + 2) (int (length buf)) = Some tail"
    by (simp add: slice_def buf nat_add_distrib numeral_3_eq_3 k_def)
  define p1 where "p1 = proc\<lparr>p_Comm := comm, p_State := of_char state, p_PPID := ppid, p_PGRP := pgrp\<rparr>"
  have stat: "scan_stat tail (proc\<lparr>p_Comm := comm\<rparr>) = (True, p1)"
    using assms(1) scan_number_shown [OF assms(4,5), of "'' '' @ show_int pgrp @ '' '' @ rest"]
      scan_number_shown [OF assms(6,7), of "'' '' @ rest"]
    by (simp add: scan_stat_def tail_def p1_def Let_def not_le)
  define p2 where "p2 = (if 24 \<le> length (Fields buf) then p1\<lparr>p_RSS := of_nat (fst (ParseUint (Fields buf ! 23) 10 64))\<rparr> else p1)"
  define p3 where "p3 = p2\<lparr>p_Command := TrimSpace (map (\<lambda>c. if c = CHR 0x00 then CHR '' '' else c) cmdline)\<rparr>"
  have p3: "read_cmdline cmdline p2 = Some p3" "rename_invalid p3 = p3"
    using assms(8,9) by (simp_all add: read_cmdline_def rename_invalid_def p3_def p2_def p1_def)
  have "Refresh (Some buf) (Some cmdline) proc = Some (True, p3)"
    using r(2) by (simp add: Refresh_def Let_def l r(1) comm tail stat p3 flip: p2_def)
  moreover have "\<exists>rss. p2 = p1\<lparr>p_RSS := rss\<rparr>"
    by (cases "24 \<le> length (Fields buf)") (auto simp: p2_def intro: exI [of _ "p_RSS p1"])
  ultimately show ?thesis by (auto simp: buf_def p1_def p3_def)
qed

theorem Refresh_stat_line_witness:
  "\<exists>rss. Refresh (Some (stat_line 7 ''a) (b'' (CHR ''S'') 6 5 ''0 -1'')) (Some ''a b'')
      \<lparr>p_AppID = 0, p_PID = 7, p_PPID = 0, p_PGRP = 0, p_Comm = [], p_Command = [], p_State = 0, p_RSS = 0\<rparr> =
    Some (True, \<lparr>p_AppID = 0, p_PID = 7, p_PPID = 6, p_PGRP = 5, p_Comm = ''a) (b'', p_Command = ''a b'', p_State = 83, p_RSS = rss\<rparr>)"
  using Refresh_stat_line [of "CHR ''S''" "''0 -1''" 6 5 "''a) (b''" 7 "''a b''"
      "\<lparr>p_AppID = 0, p_PID = 7, p_PPID = 0, p_PGRP = 0, p_Comm = [], p_Command = [], p_State = 0, p_RSS = 0\<rparr>"]
  by (simp add: procNameInvalid_def TrimSpace_def space_rune_def trim_right.simps space_suffix_def)

text \<open>
  A process with a name of fifteen characters and an empty command line, a zombie for one, makes \<open>Refresh\<close> panic: there is
  no zero byte to cut the command line at.
\<close>

lemma Refresh_empty_cmdline_panics:
  assumes "length (p_Comm proc) = 15" "CHR 0x00 \<notin> set cmdline"
  shows "read_cmdline cmdline proc = None"
proof -
  have "IndexByte cmdline (CHR 0x00) < 0" using assms(2) by (simp add: IndexByte_neg)
  with assms(1) show ?thesis by (simp add: read_cmdline_def slice_def)
qed

end
