(* ===== verification/Deck.thy ===== *)
theory Deck
  imports Process "HOL-Library.Multiset"
begin

text \<open>
  Finding the processes of a game (\<^verbatim>\<open>deck/deck.go\<close>). Steam starts a game as a chain of processes, a
  reaper, a wrapper and an adverb, whose children are the candidates. \<open>slices.SortFunc\<close> is an
  argument, as which of two equal elements comes first is not specified; what it promises is the law
  \<open>sorts\<close>.
\<close>

type_synonym proc_sort = "(Process \<Rightarrow> Process \<Rightarrow> int) \<Rightarrow> Process list \<Rightarrow> Process list"

text \<open>\<^verbatim>\<open>slices.IndexFunc\<close>.\<close>

fun IndexFunc :: "('a \<Rightarrow> bool) \<Rightarrow> 'a list \<Rightarrow> int" where
  "IndexFunc f [] = -1"
| "IndexFunc f (x # xs) = (if f x then 0 else (let r = IndexFunc f xs in if r < 0 then -1 else r + 1))"

definition findSteamLaunchGameProcesses :: "proc_sort \<Rightarrow> System \<Rightarrow> Process list \<Rightarrow> int \<Rightarrow> Process list go" where
  "findSteamLaunchGameProcesses sortf sys processes reaperPID =
     (let wrapIndex = IndexFunc (\<lambda>proc. p_PPID proc = reaperPID) processes in
      if wrapIndex = -1 then Some []
      else do {
        wrap \<leftarrow> index processes wrapIndex;
        let adverbIndex = IndexFunc (\<lambda>proc. p_PPID proc = p_PID wrap) (drop (nat wrapIndex) processes);
        if adverbIndex = -1 then Some []
        else do {
          let adverbIndex = adverbIndex + wrapIndex;
          adverb \<leftarrow> index processes adverbIndex;
          let children = filter (\<lambda>proc. p_PPID proc = p_PID adverb) (drop (nat adverbIndex) processes);
          if children = [] then Some []
          else Some (sortf (\<lambda>a b. wrap_int (GetIdentityScore sys b - GetIdentityScore sys a)) children)
        }
      })"

definition SteamLaunch_pattern :: "int \<Rightarrow> string" where
  "SteamLaunch_pattern appID = ''SteamLaunch AppId='' @ (if 0 < appID then show_int appID else [])"

definition by_pid :: "Process \<Rightarrow> Process \<Rightarrow> int" where
  "by_pid a b = wrap_int (p_PID a - p_PID b)"

definition EnumGameProcesses :: "proc_sort \<Rightarrow> System \<Rightarrow> int list \<Rightarrow> Process list go" where
  "EnumGameProcesses sortf sys args = do {
     listed \<leftarrow> EnumDeckProcesses sys;
     (case listed of
        None \<Rightarrow> Some []
      | Some processes \<Rightarrow>
          let processes = sortf by_pid processes;
              appID = (if args \<noteq> [] \<and> 0 < hd args then hd args else 0);
              reaperIndex = IndexFunc (\<lambda>proc. Contains (p_Command proc) (SteamLaunch_pattern appID)) processes in
          if reaperIndex = -1 then Some []
          else do {
            reaper \<leftarrow> index processes reaperIndex;
            processes \<leftarrow> findSteamLaunchGameProcesses sortf sys (drop (nat reaperIndex) processes) (p_PID reaper);
            let processes = filter (\<lambda>proc. \<not> GetIdentityScore sys proc \<le> 0) processes;
            Some (if 0 < appID then map (\<lambda>proc. proc\<lparr>p_AppID := appID\<rparr>) processes else processes)
          })
   }"

definition FindGameWithAppID :: "proc_sort \<Rightarrow> System \<Rightarrow> int \<Rightarrow> Process option go" where
  "FindGameWithAppID sortf sys appID = do {
     processes \<leftarrow> EnumGameProcesses sortf sys [appID];
     Some (case processes of [] \<Rightarrow> None | p # _ \<Rightarrow> Some p)
   }"

definition FindGameWithInstanceID :: "proc_sort \<Rightarrow> System \<Rightarrow> int \<Rightarrow> Process option go" where
  "FindGameWithInstanceID sortf sys instanceID = do {
     listed \<leftarrow> EnumDeckProcesses sys;
     (case listed of
        None \<Rightarrow> Some None
      | Some processes \<Rightarrow> do {
          processes \<leftarrow> findSteamLaunchGameProcesses sortf sys (sortf by_pid processes) instanceID;
          Some (case processes of [] \<Rightarrow> None | p # _ \<Rightarrow> Some p)
        })
   }"

text \<open>
  The deprecated listing by command lines. Each regular expression of the exclusion list is the test it stands for;
  \<open>sort.Slice\<close> is an argument, its law \<open>sorts_less\<close>.
\<close>

type_synonym slice_sort = "(Process \<Rightarrow> Process \<Rightarrow> bool) \<Rightarrow> Process list \<Rightarrow> Process list"

definition gameProcessExclude :: "(string \<Rightarrow> bool) list" where
  "gameProcessExclude =
     [prefix ''/usr/'', prefix ''Xwayland'', prefix [CHR 0x5C, CHR 0x5C], \<lambda>s. prefix ''c:'' s \<or> prefix ''C:'' s,
      \<lambda>s. Contains s ''/home/deck/homebrew/plugins/'', \<lambda>s. Contains s ''/home/deck/.local/share/Steam/ubuntu'',
      \<lambda>s. Contains s ''/home/deck/.local/share/Steam/steamapps/common/Proton'' \<or>
          Contains s ''/home/deck/.local/share/Steam/steamapps/common/GE-Proton'',
      \<lambda>s. Contains s ''/home/deck/.local/share/Steam/compatibilitytools.d/'',
      \<lambda>s. Contains s ''/home/deck/.local/share/Steam/steamapps/common/Steam'']"

definition better_score :: "System \<Rightarrow> Process \<Rightarrow> Process \<Rightarrow> bool" where
  "better_score sys p q =
     (let scoreI = GetIdentityScore sys p; scoreJ = GetIdentityScore sys q in
      if scoreI \<noteq> scoreJ then scoreJ < scoreI else p_RSS q < p_RSS p)"

definition LegacyEnumGameProcesses :: "slice_sort \<Rightarrow> System \<Rightarrow> Process list go" where
  "LegacyEnumGameProcesses sortl sys = do {
     listed \<leftarrow> EnumDeckProcesses sys;
     (case listed of
        None \<Rightarrow> Some []
      | Some processes \<Rightarrow>
          let candidates = filter (\<lambda>p. 0 < GetIdentityScore sys p \<and> \<not> list_ex (\<lambda>reg. reg (p_Command p)) gameProcessExclude)
                processes in
          Some (sortl (better_score sys) candidates))
   }"

section \<open>The law of sorting\<close>

text \<open>
  For a comparison that orders the elements by a key, \<open>slices.SortFunc\<close> permutes them into an order in
  which no element is less than one before it.
\<close>

definition keyed :: "('a \<Rightarrow> 'a \<Rightarrow> int) \<Rightarrow> ('a \<Rightarrow> int) \<Rightarrow> 'a list \<Rightarrow> bool" where
  "keyed cmp key xs \<longleftrightarrow> (\<forall>a \<in> set xs. \<forall>b \<in> set xs. cmp a b < 0 \<longleftrightarrow> key a < key b)"

definition sorts :: "proc_sort \<Rightarrow> bool" where
  "sorts sortf \<longleftrightarrow> (\<forall>cmp key xs. keyed cmp key xs \<longrightarrow>
     mset (sortf cmp xs) = mset xs \<and> sorted_wrt (\<lambda>a b. key a \<le> key b) (sortf cmp xs))"

lemma sortsD:
  assumes "sorts sortf" "keyed cmp key xs"
  shows "set (sortf cmp xs) = set xs" "length (sortf cmp xs) = length xs" "sorted_wrt (\<lambda>a b. key a \<le> key b) (sortf cmp xs)"
proof -
  have m: "mset (sortf cmp xs) = mset xs" "sorted_wrt (\<lambda>a b. key a \<le> key b) (sortf cmp xs)"
    using assms by (auto simp: sorts_def)
  from m(1) show "set (sortf cmp xs) = set xs" "length (sortf cmp xs) = length xs"
    by (auto dest: mset_eq_setD mset_eq_length)
  show "sorted_wrt (\<lambda>a b. key a \<le> key b) (sortf cmp xs)" by (rule m(2))
qed

text \<open>A sort that keeps the law: insertion by the comparison.\<close>

fun insert_by :: "('a \<Rightarrow> 'a \<Rightarrow> int) \<Rightarrow> 'a \<Rightarrow> 'a list \<Rightarrow> 'a list" where
  "insert_by cmp x [] = [x]"
| "insert_by cmp x (y # ys) = (if cmp y x < 0 then y # insert_by cmp x ys else x # y # ys)"

definition insertion_sort :: "('a \<Rightarrow> 'a \<Rightarrow> int) \<Rightarrow> 'a list \<Rightarrow> 'a list" where
  "insertion_sort cmp xs = foldr (insert_by cmp) xs []"

lemma mset_insert_by [simp]: "mset (insert_by cmp x ys) = add_mset x (mset ys)"
  by (induction ys) auto

lemma set_insert_by [simp]: "set (insert_by cmp x ys) = insert x (set ys)"
  by (induction ys) auto

lemma sorted_insert_by:
  assumes "keyed cmp key (x # ys)" "sorted_wrt (\<lambda>a b. key a \<le> key b) ys"
  shows "sorted_wrt (\<lambda>a b. key a \<le> key b) (insert_by cmp x ys)"
  using assms by (induction ys) (auto simp: keyed_def not_less intro: order_trans)

lemma insertion_sort_sorts: "sorts insertion_sort"
proof -
  have "mset (insertion_sort cmp xs) = mset xs \<and> sorted_wrt (\<lambda>a b. key a \<le> key b) (insertion_sort cmp xs)"
    if "keyed cmp key xs" for cmp :: "Process \<Rightarrow> Process \<Rightarrow> int" and key xs
    using that
  proof (induction xs)
    case (Cons x xs)
    then have IH: "mset (insertion_sort cmp xs) = mset xs" "sorted_wrt (\<lambda>a b. key a \<le> key b) (insertion_sort cmp xs)"
      by (auto simp: keyed_def)
    moreover have "set (insertion_sort cmp xs) = set xs" using IH(1) by (rule mset_eq_setD)
    ultimately show ?case
      using sorted_insert_by [of cmp key x "insertion_sort cmp xs"] Cons.prems
      by (simp add: insertion_sort_def keyed_def)
  qed (simp add: insertion_sort_def)
  then show ?thesis by (auto simp: sorts_def)
qed

text \<open>\<open>sort.Slice\<close> keeps the same law, for an order given as a test of less.\<close>

definition sorts_less :: "slice_sort \<Rightarrow> bool" where
  "sorts_less sortl \<longleftrightarrow> (\<forall>less key xs. keyed (\<lambda>a b. if less a b then - 1 else 0) key xs \<longrightarrow>
     mset (sortl less xs) = mset xs \<and> sorted_wrt (\<lambda>a b. key a \<le> key b) (sortl less xs))"

lemma insertion_sort_sorts_less: "sorts_less (\<lambda>less. insertion_sort (\<lambda>a b. if less a b then - 1 else 0))"
  using insertion_sort_sorts unfolding sorts_def sorts_less_def by blast

text \<open>The deprecated listing has every process with a positive score that is not excluded, the best first.\<close>

lemma lex_key:
  fixes i j a b K :: int
  assumes "0 \<le> a" "a < K" "0 \<le> b" "b < K"
  shows "j * K + b < i * K + a \<longleftrightarrow> j < i \<or> j = i \<and> b < a"
proof -
  have step: "k * K + K \<le> l * K" if "k < l" for k l :: int
    using mult_right_mono [of "k + 1" l K] that assms by (simp add: distrib_right)
  show ?thesis
    using step [of j i] step [of i j] assms by (cases i j rule: linorder_cases) auto
qed

definition legacy_key :: "System \<Rightarrow> Process \<Rightarrow> int" where
  "legacy_key sys p = - (GetIdentityScore sys p * 2 ^ 64 + uint (p_RSS p))"

lemma legacy_key_less: "legacy_key sys p < legacy_key sys q \<longleftrightarrow> better_score sys p q"
proof -
  have "0 \<le> uint (p_RSS r)" "uint (p_RSS r) < 2 ^ 64" for r
    using uint_lt2p [of "p_RSS r"] by simp_all
  from lex_key [OF this this] show ?thesis
    by (auto simp only: legacy_key_def neg_less_iff_less better_score_def Let_def word_less_def split: if_splits)
qed

lemma better_score_keyed: "keyed (\<lambda>a b. if better_score sys a b then - 1 else 0) (legacy_key sys) xs"
  by (simp add: keyed_def legacy_key_less)

lemma LegacyEnumGameProcesses_lists:
  assumes "sorts_less sortl" "EnumDeckProcesses sys = Some (Some ps)"
  shows "\<exists>out. LegacyEnumGameProcesses sortl sys = Some out \<and>
    set out = {p \<in> set ps. 0 < GetIdentityScore sys p \<and> \<not> list_ex (\<lambda>reg. reg (p_Command p)) gameProcessExclude} \<and>
    sorted_wrt (\<lambda>p q. GetIdentityScore sys q \<le> GetIdentityScore sys p) out"
proof -
  define cs where "cs = filter (\<lambda>p. 0 < GetIdentityScore sys p \<and> \<not> list_ex (\<lambda>reg. reg (p_Command p)) gameProcessExclude) ps"
  have s: "mset (sortl (better_score sys) cs) = mset cs"
    "sorted_wrt (\<lambda>p q. legacy_key sys p \<le> legacy_key sys q) (sortl (better_score sys) cs)"
    using assms(1) better_score_keyed [of sys cs] unfolding sorts_less_def by blast+
  have "GetIdentityScore sys q \<le> GetIdentityScore sys p" if "legacy_key sys p \<le> legacy_key sys q" for p q
    using that unfolding not_less [symmetric] legacy_key_less by (auto simp: better_score_def Let_def)
  then have "sorted_wrt (\<lambda>p q. GetIdentityScore sys q \<le> GetIdentityScore sys p) (sortl (better_score sys) cs)"
    by (intro sorted_wrt_mono_rel [OF _ s(2)]) blast
  moreover have "set (sortl (better_score sys) cs) = set cs" using s(1) by (rule mset_eq_setD)
  ultimately show ?thesis
    by (auto simp: LegacyEnumGameProcesses_def assms(2) cs_def)
qed

section \<open>The chain of processes\<close>

lemma IndexFunc_ge: "-1 \<le> IndexFunc f xs"
  by (induction xs) (auto simp: Let_def)

lemma IndexFunc_hit:
  assumes "IndexFunc f xs \<noteq> -1"
  shows "0 \<le> IndexFunc f xs \<and> nat (IndexFunc f xs) < length xs \<and> f (xs ! nat (IndexFunc f xs))"
  using assms by (induction xs) (auto simp: Let_def nat_add_distrib split: if_splits)

lemma index_hit:
  assumes "IndexFunc f xs \<noteq> -1"
  obtains x where "index xs (IndexFunc f xs) = Some x" "x \<in> set xs" "f x" "xs ! nat (IndexFunc f xs) = x"
proof -
  from IndexFunc_hit [OF assms] have "0 \<le> IndexFunc f xs" "nat (IndexFunc f xs) < length xs" "f (xs ! nat (IndexFunc f xs))"
    by blast+
  then show ?thesis by (intro that) (auto simp: index_def)
qed

lemma wrap_int_id: "- (2 ^ 63) \<le> i \<Longrightarrow> i < 2 ^ 63 \<Longrightarrow> wrap_int i = i"
  by (simp add: wrap_int_def sint_sbintrunc' signed_take_bit_int_eq_self)

text \<open>Scores are small numbers: their differences do not wrap.\<close>

definition small_scores :: "System \<Rightarrow> Process list \<Rightarrow> bool" where
  "small_scores sys ps \<longleftrightarrow> list_all (\<lambda>p. \<bar>GetIdentityScore sys p\<bar> < 2 ^ 62) ps"

text \<open>The chain a candidate hangs from.\<close>

definition launched_by :: "Process list \<Rightarrow> int \<Rightarrow> Process \<Rightarrow> bool" where
  "launched_by ps reaperPID p \<longleftrightarrow> p \<in> set ps \<and>
     (\<exists>wrap \<in> set ps. \<exists>adverb \<in> set ps. p_PPID wrap = reaperPID \<and> p_PPID adverb = p_PID wrap \<and> p_PPID p = p_PID adverb)"

lemma findSteamLaunch_chain:
  assumes "sorts sortf" "small_scores sys ps"
  shows "\<exists>out. findSteamLaunchGameProcesses sortf sys ps reaperPID = Some out \<and> list_all (launched_by ps reaperPID) out \<and>
    sorted_wrt (\<lambda>a b. GetIdentityScore sys b \<le> GetIdentityScore sys a) out"
proof (cases "IndexFunc (\<lambda>proc. p_PPID proc = reaperPID) ps = -1")
  case True
  then show ?thesis by (simp add: findSteamLaunchGameProcesses_def)
next
  case False
  define w where "w = IndexFunc (\<lambda>proc. p_PPID proc = reaperPID) ps"
  from index_hit [OF False] obtain wrap where wrap: "index ps w = Some wrap" "wrap \<in> set ps" "p_PPID wrap = reaperPID"
    by (auto simp: w_def)
  have w: "0 \<le> w" "w \<noteq> -1" using IndexFunc_hit [OF False] by (simp_all add: w_def)
  define a where "a = IndexFunc (\<lambda>proc. p_PPID proc = p_PID wrap) (drop (nat w) ps)"
  show ?thesis
  proof (cases "a = -1")
    case True
    with w wrap(1) show ?thesis by (simp add: findSteamLaunchGameProcesses_def Let_def flip: w_def a_def)
  next
    case False
    from index_hit [OF False [unfolded a_def]] obtain adverb where
      adverb: "adverb \<in> set (drop (nat w) ps)" "p_PPID adverb = p_PID wrap" "drop (nat w) ps ! nat a = adverb"
      by (auto simp: a_def)
    have a: "0 \<le> a" "nat a < length (drop (nat w) ps)"
      using IndexFunc_hit [OF False [unfolded a_def]] by (simp_all add: a_def)
    then have "index ps (a + w) = Some adverb"
      using adverb(3) w(1) by (auto simp: index_def nat_add_distrib add.commute)
    moreover define children where "children = filter (\<lambda>proc. p_PPID proc = p_PID adverb) (drop (nat (a + w)) ps)"
    moreover define cmp where "cmp = (\<lambda>a b. wrap_int (GetIdentityScore sys b - GetIdentityScore sys a))"
    ultimately have find: "findSteamLaunchGameProcesses sortf sys ps reaperPID =
        Some (if children = [] then [] else sortf cmp children)"
      using w(2) wrap(1) False by (simp add: findSteamLaunchGameProcesses_def Let_def flip: w_def a_def)
    have sub: "set children \<subseteq> set ps" by (auto simp: children_def dest: in_set_dropD)
    have "keyed cmp (\<lambda>p. - GetIdentityScore sys p) children"
      unfolding keyed_def
    proof (intro ballI)
      fix x y assume "x \<in> set children" "y \<in> set children"
      with sub assms(2) have "\<bar>GetIdentityScore sys x\<bar> < 2 ^ 62" "\<bar>GetIdentityScore sys y\<bar> < 2 ^ 62"
        by (auto simp: small_scores_def list_all_iff)
      then have "cmp x y = GetIdentityScore sys y - GetIdentityScore sys x"
        unfolding cmp_def by (intro wrap_int_id) (simp_all add: abs_less_iff)
      then show "cmp x y < 0 \<longleftrightarrow> - GetIdentityScore sys x < - GetIdentityScore sys y" by linarith
    qed
    note s = sortsD [OF assms(1) this]
    have "launched_by ps reaperPID p" if "p \<in> set children" for p
      using that sub wrap(2,3) adverb(1,2) by (auto simp: launched_by_def children_def dest: in_set_dropD)
    with s show ?thesis by (auto simp: find list_all_iff)
  qed
qed

lemma drop_index_hit:
  assumes "IndexFunc f xs \<noteq> -1"
  shows "xs ! nat (IndexFunc f xs) \<in> set (drop (nat (IndexFunc f xs)) xs)"
proof -
  have "nat (IndexFunc f xs) < length xs" using IndexFunc_hit [OF assms] by blast
  then show ?thesis by (simp add: Cons_nth_drop_Suc [symmetric])
qed

definition small_pids :: "Process list \<Rightarrow> bool" where
  "small_pids ps \<longleftrightarrow> list_all (\<lambda>p. 0 \<le> p_PID p \<and> p_PID p < 2 ^ 62) ps"

lemma by_pid_keyed: "small_pids ps \<Longrightarrow> keyed by_pid p_PID ps"
  unfolding keyed_def
proof (intro ballI)
  fix a b assume "small_pids ps" "a \<in> set ps" "b \<in> set ps"
  then have "0 \<le> p_PID a \<and> p_PID a < 2 ^ 62" "0 \<le> p_PID b \<and> p_PID b < 2 ^ 62"
    by (auto simp: small_pids_def list_all_iff)
  then have "by_pid a b = p_PID a - p_PID b"
    unfolding by_pid_def by (intro wrap_int_id) simp_all
  then show "by_pid a b < 0 \<longleftrightarrow> p_PID a < p_PID b" by simp
qed

text \<open>
  C32: what is listed for a game are processes of the user which hang from a Steam reaper by a wrapper and an adverb, the
  reaper's command line naming the application, all with a positive score, the highest first;
  with an application number given, each is labelled with it.
\<close>

theorem EnumGameProcesses_chain:
  assumes "sorts sortf" "EnumDeckProcesses sys = Some (Some ps)" "small_pids ps" "small_scores sys ps"
  shows "\<exists>out. EnumGameProcesses sortf sys [appID] = Some out \<and>
    list_all (\<lambda>p. \<exists>q reaper. reaper \<in> set ps \<and> Contains (p_Command reaper) (SteamLaunch_pattern appID) \<and>
      launched_by ps (p_PID reaper) q \<and> 0 < GetIdentityScore sys q \<and> p = (if 0 < appID then q\<lparr>p_AppID := appID\<rparr> else q)) out \<and>
    sorted_wrt (\<lambda>p q. GetIdentityScore sys q \<le> GetIdentityScore sys p) out"
proof -
  define procs where "procs = sortf by_pid ps"
  have procs: "set procs = set ps" using sortsD [OF assms(1) by_pid_keyed [OF assms(3)]] by (simp add: procs_def)
  define r where "r = IndexFunc (\<lambda>proc. Contains (p_Command proc) (SteamLaunch_pattern appID)) procs"
  define labelled where "labelled = (\<lambda>ps :: Process list. if 0 < appID then map (\<lambda>proc. proc\<lparr>p_AppID := appID\<rparr>) ps else ps)"
  have unfolded: "EnumGameProcesses sortf sys [appID] = (if r = -1 then Some [] else do {
      reaper \<leftarrow> index procs r;
      out \<leftarrow> findSteamLaunchGameProcesses sortf sys (drop (nat r) procs) (p_PID reaper);
      Some (labelled (filter (\<lambda>proc. \<not> GetIdentityScore sys proc \<le> 0) out))
    })"
  proof (cases "0 < appID")
    case False
    then have "SteamLaunch_pattern 0 = SteamLaunch_pattern appID" by (simp add: SteamLaunch_pattern_def)
    with False show ?thesis
      by (simp add: EnumGameProcesses_def assms(2) Let_def labelled_def flip: procs_def r_def)
  qed (simp add: EnumGameProcesses_def assms(2) Let_def labelled_def flip: procs_def r_def)
  show ?thesis
  proof (cases "r = -1")
    case True
    then show ?thesis by (simp add: unfolded)
  next
    case False
    from index_hit [OF False [unfolded r_def]] obtain reaper where
      reaper: "index procs r = Some reaper" "reaper \<in> set procs" "Contains (p_Command reaper) (SteamLaunch_pattern appID)"
      by (auto simp: r_def)
    define sub where "sub = drop (nat r) procs"
    have "small_scores sys sub"
      using assms(4) procs by (auto simp: small_scores_def list_all_iff sub_def dest!: in_set_dropD)
    from findSteamLaunch_chain [OF assms(1) this, of "p_PID reaper"] obtain out where
      out: "findSteamLaunchGameProcesses sortf sys sub (p_PID reaper) = Some out" "list_all (launched_by sub (p_PID reaper)) out"
        "sorted_wrt (\<lambda>a b. GetIdentityScore sys b \<le> GetIdentityScore sys a) out" by blast
    have "set sub \<subseteq> set ps" using procs by (auto simp: sub_def dest: in_set_dropD)
    then have chain: "launched_by ps (p_PID reaper) q" if "q \<in> set out" for q
      using out(2) that by (force simp: list_all_iff launched_by_def)
    define good where "good = filter (\<lambda>proc. \<not> GetIdentityScore sys proc \<le> 0) out"
    have good: "sorted_wrt (\<lambda>a b. GetIdentityScore sys b \<le> GetIdentityScore sys a) good"
      unfolding good_def by (rule sorted_wrt_filter [OF out(3)])
    have label: "GetIdentityScore sys (q\<lparr>p_AppID := appID\<rparr>) = GetIdentityScore sys q" for q
      by (simp add: GetIdentityScore_def hasFileDescriptor_def readProcStatus_def)
    have "EnumGameProcesses sortf sys [appID] = Some (labelled good)"
      using False reaper(1) out(1) by (simp add: unfolded good_def flip: sub_def)
    moreover have "list_all (\<lambda>p. \<exists>q reaper. reaper \<in> set ps \<and> Contains (p_Command reaper) (SteamLaunch_pattern appID) \<and>
        launched_by ps (p_PID reaper) q \<and> 0 < GetIdentityScore sys q \<and> p = (if 0 < appID then q\<lparr>p_AppID := appID\<rparr> else q)) (labelled good)"
      using chain reaper(2,3) procs by (force simp: list_all_iff good_def labelled_def)
    moreover have "sorted_wrt (\<lambda>p q. GetIdentityScore sys q \<le> GetIdentityScore sys p) (labelled good)"
      using good by (simp add: sorted_wrt_map label labelled_def)
    ultimately show ?thesis by blast
  qed
qed

text \<open>The example: a reaper with its wrapper, adverb and a game of three threads.\<close>

definition sample_system :: System where
  "sample_system = \<lparr>fs_names = Some [''5'', ''6'', ''7'', ''8'', ''net''], fs_info = \<lambda>_. StatUID 1000, fs_self = 1,
     fs_stat = (\<lambda>pid. if pid = 5 then Some ''5 (reaper) S 1 5'' else if pid = 6 then Some ''6 (wrap) S 5 5''
       else if pid = 7 then Some ''7 (adverb) S 6 5'' else Some ''8 (game) S 7 5''),
     fs_cmdline = (\<lambda>pid. if pid = 5 then Some ''reaper SteamLaunch AppId=12'' else Some ''game''),
     fs_status = (\<lambda>pid. if pid = 8 then Some ''Threads: 3'' else None), fs_fds = \<lambda>_. None, fs_log_term = \<lambda>_. 0\<rparr>"

definition sample_process :: "int \<Rightarrow> string \<Rightarrow> int \<Rightarrow> string \<Rightarrow> Process" where
  "sample_process pid comm ppid command = \<lparr>p_AppID = 0, p_PID = pid, p_PPID = ppid, p_PGRP = 5, p_Comm = comm,
     p_Command = command, p_State = 83, p_RSS = 0\<rparr>"

lemmas Refresh_eval =
  Refresh_def scan_stat_def scan_number_def Fields_def space_rune_def TrimSpace_def trim_right.simps space_suffix_def
  ParseInt_def ParseUint_def digit_value_def slice_def read_cmdline_def rename_invalid_def procNameInvalid_def

lemma sample_refreshed:
  "NewProcess sample_system 5 = Some (sample_process 5 ''reaper'' 1 ''reaper SteamLaunch AppId=12'', True)"
  "NewProcess sample_system 6 = Some (sample_process 6 ''wrap'' 5 ''game'', True)"
  "NewProcess sample_system 7 = Some (sample_process 7 ''adverb'' 6 ''game'', True)"
  "NewProcess sample_system 8 = Some (sample_process 8 ''game'' 7 ''game'', True)"
  by (simp_all add: NewProcess_def sample_system_def sample_process_def Refresh_eval Let_def)

lemma sample_listed:
  "EnumDeckProcesses sample_system = Some (Some [sample_process 5 ''reaper'' 1 ''reaper SteamLaunch AppId=12'',
     sample_process 6 ''wrap'' 5 ''game'', sample_process 7 ''adverb'' 6 ''game'', sample_process 8 ''game'' 7 ''game''])"
proof -
  have "fs_names sample_system = Some [''5'', ''6'', ''7'', ''8'', ''net'']" "fs_info sample_system = (\<lambda>_. StatUID 1000)" "fs_self sample_system = 1"
    by (simp_all add: sample_system_def)
  then show ?thesis
    by (simp add: EnumDeckProcesses_def GetPathUID_def newProcess_def index_def DeckUID_def Atoi_def ParseInt_def ParseUint_def digit_value_def
        sample_refreshed)
qed

lemma sample_scores:
  "GetIdentityScore sample_system (sample_process 5 ''reaper'' 1 ''reaper SteamLaunch AppId=12'') = - 5000"
  "GetIdentityScore sample_system (sample_process 6 ''wrap'' 5 ''game'') = 0"
  "GetIdentityScore sample_system (sample_process 7 ''adverb'' 6 ''game'') = 0"
  "GetIdentityScore sample_system (sample_process 8 ''game'' 7 ''game'') = 30"
  by (simp_all add: GetIdentityScore_def excludeKeywords_def sample_process_def sample_system_def to_lower_def hasFileDescriptor_def
      readProcStatus_def wrap_int_def scan_lines.simps dropCR_def Fields_def space_rune_def ParseInt_def ParseUint_def digit_value_def Let_def)

theorem EnumGameProcesses_chain_witness:
  "\<exists>out. EnumGameProcesses insertion_sort sample_system [12] = Some out \<and>
    sorted_wrt (\<lambda>p q. GetIdentityScore sample_system q \<le> GetIdentityScore sample_system p) out"
proof -
  let ?ps = "[sample_process 5 ''reaper'' 1 ''reaper SteamLaunch AppId=12'',
     sample_process 6 ''wrap'' 5 ''game'', sample_process 7 ''adverb'' 6 ''game'', sample_process 8 ''game'' 7 ''game'']"
  have pids: "small_pids ?ps" by (simp add: small_pids_def sample_process_def)
  have scores: "small_scores sample_system ?ps" by (simp add: small_scores_def sample_scores)
  from EnumGameProcesses_chain [OF insertion_sort_sorts sample_listed pids scores, of 12] show ?thesis by blast
qed

text \<open>What is found for the example.\<close>

lemma sample_games:
  "map_option (map (\<lambda>p. (p_PID p, p_AppID p))) (EnumGameProcesses insertion_sort sample_system [1]) = Some [(8, 1)]"
  "EnumGameProcesses insertion_sort sample_system [] = Some [sample_process 8 ''game'' 7 ''game'']"
proof -
  let ?reaper = "sample_process 5 ''reaper'' 1 ''reaper SteamLaunch AppId=12''"
  let ?wrap = "sample_process 6 ''wrap'' 5 ''game''"
  let ?adverb = "sample_process 7 ''adverb'' 6 ''game''"
  let ?game = "sample_process 8 ''game'' 7 ''game''"
  have sel: "p_PID ?reaper = 5" "p_PID ?wrap = 6" "p_PID ?adverb = 7" "p_PID ?game = 8"
    "p_PPID ?reaper = 1" "p_PPID ?wrap = 5" "p_PPID ?adverb = 6" "p_PPID ?game = 7"
    "p_Command ?reaper = ''reaper SteamLaunch AppId=12''"
    by (simp_all add: sample_process_def)
  have "insertion_sort by_pid [?reaper, ?wrap, ?adverb, ?game] = [?reaper, ?wrap, ?adverb, ?game]"
    by (simp add: insertion_sort_def by_pid_def sel wrap_int_id)
  moreover have "SteamLaunch_pattern 1 = ''SteamLaunch AppId=1''" "SteamLaunch_pattern 0 = ''SteamLaunch AppId=''"
    by (simp_all add: SteamLaunch_pattern_def show_int_def digits.simps digit_char_def) code_simp
  ultimately show
    "map_option (map (\<lambda>p. (p_PID p, p_AppID p))) (EnumGameProcesses insertion_sort sample_system [1]) = Some [(8, 1)]"
    "EnumGameProcesses insertion_sort sample_system [] = Some [?game]"
    by (simp_all add: EnumGameProcesses_def findSteamLaunchGameProcesses_def sample_listed index_def sel sample_scores Let_def
        insertion_sort_def)
qed

text \<open>
  The application is searched as text: asked for application 1, the game of application 12 is found, as its number
  begins with the one asked for.
\<close>

lemma EnumGameProcesses_prefix:
  "map_option (map (\<lambda>p. (p_PID p, p_AppID p))) (EnumGameProcesses insertion_sort sample_system [1]) = Some [(8, 1)]"
  by (rule sample_games)

end
