(* ===== verification/Backend.thy ===== *)
theory Backend
  imports Results_View Deck
begin

text \<open>
  The library behind the plugin's user interface (\<^verbatim>\<open>cmd/backend/main.go\<close>, \<^verbatim>\<open>cmd/backend/app.go\<close>): the parsing of
  the values it is given and the state between its calls. The encoding of results as JSON and the time a scan took
  are left out.
\<close>

section \<open>Parsing a value\<close>

text \<open>\<^verbatim>\<open>i == 0\<close> for a float, of either sign.\<close>

definition is_zero :: "fl \<Rightarrow> bool" where
  "is_zero x \<longleftrightarrow> (\<exists>s. x = Fin s 0)"

lemma is_zero_code [code]: "is_zero x = (case x of Fin s m \<Rightarrow> m = 0 | _ \<Rightarrow> False)"
  by (cases x) (auto simp: is_zero_def)

definition parseValue :: "string \<Rightarrow> Type \<Rightarrow> bool list \<Rightarrow> Value option" where
  "parseValue rawValue valueType args =
     (let allowZeroValue = (if args \<noteq> [] then hd args else False);
          rawValue = dropWhile (\<lambda>c. c = CHR ''0'') rawValue;
          rawValue = (if rawValue = [] then ''0'' else rawValue) in
      if \<not> allowZeroValue \<and> rawValue = ''0'' then None
      else if valueType = Int8 then
        (case ParseUint rawValue 10 8 of (i, None) \<Rightarrow> Some (NewInt8 (of_nat i)) | _ \<Rightarrow> None)
      else if valueType = Int16 then
        (case ParseUint rawValue 10 16 of (i, None) \<Rightarrow> Some (NewInt16 (of_nat i)) | _ \<Rightarrow> None)
      else if valueType = Int32 then
        (case ParseUint rawValue 10 32 of (i, None) \<Rightarrow> Some (NewInt32 (of_nat i)) | _ \<Rightarrow> None)
      else if valueType = Int64 then
        (case ParseUint rawValue 10 64 of (i, None) \<Rightarrow> Some (NewInt64 (of_nat i)) | _ \<Rightarrow> None)
      else if valueType = Float32 then
        (case ParseFloat rawValue 32 of
           (i, None) \<Rightarrow> if \<not> allowZeroValue \<and> is_zero i then None else Some (NewFloat32 (to32 i) [])
         | _ \<Rightarrow> None)
      else if valueType = Float64 then
        (case ParseFloat rawValue 64 of
           (i, None) \<Rightarrow> if \<not> allowZeroValue \<and> is_zero i then None else Some (NewFloat64 i [])
         | _ \<Rightarrow> None)
      else None)"

section \<open>The application\<close>

definition MinResultsThreshold :: int where "MinResultsThreshold = 10"

definition MaxResultsThreshold :: int where "MaxResultsThreshold = 100"

definition defRenderResultsThreshold :: int where "defRenderResultsThreshold = 10"

record App =
  app_scan :: Memscan
  app_game :: "Process option"
  app_value :: "Value option"
  app_threshold :: int

record Results =
  res_Count :: int
  res_List :: "(string \<times> string) list"
  res_Round :: u64
  res_CanUndo :: bool

text \<open>
  What a call meets outside: the processes, sorting, whether the maps of a process can be opened and where its executable is,
  the printing of floats, and the world of the scans.
\<close>

record Host =
  h_sort :: proc_sort
  h_sys :: System
  h_maps :: "int \<Rightarrow> bool"
  h_exe :: "int \<Rightarrow> string option"
  h_float :: "fmt \<Rightarrow> fl \<Rightarrow> string"
  h_world :: World

definition h_opened :: "Host \<Rightarrow> int \<Rightarrow> string option" where
  "h_opened h pid = OpenMaps (h_maps h pid) (h_exe h pid)"

definition app_init :: "(nat \<Rightarrow> bool) \<Rightarrow> App go" where
  "app_init sys = do {
     scan \<leftarrow> NewMemscan sys;
     Some \<lparr>app_scan = scan, app_game = None, app_value = None, app_threshold = defRenderResultsThreshold\<rparr>
   }"

definition SetRenderResultsThreshold :: "int \<Rightarrow> App \<Rightarrow> App" where
  "SetRenderResultsThreshold val app =
     (if MinResultsThreshold \<le> val \<and> val \<le> MaxResultsThreshold \<and> val \<noteq> app_threshold app
      then app\<lparr>app_threshold := val\<rparr> else app)"

definition ResetScan :: "App \<Rightarrow> App" where
  "ResetScan app = app\<lparr>app_scan := Reset (app_scan app), app_value := None\<rparr>"

definition app_Clear :: "App \<Rightarrow> App" where
  "app_Clear app = ResetScan (app\<lparr>app_scan := Reset (app_scan app)\<rparr>)"

definition GetGameProcesses :: "Host \<Rightarrow> int \<Rightarrow> Process list go" where
  "GetGameProcesses h appID = EnumGameProcesses (h_sort h) (h_sys h) [appID]"

text \<open>\<open>NewProcess\<close> always gives a process, so that one is selected whether or not it could be read.\<close>

definition SelectGameProcess :: "Host \<Rightarrow> int \<Rightarrow> int \<Rightarrow> App \<Rightarrow> (Process option \<times> App) go" where
  "SelectGameProcess h appID pid app = do {
     (proc, ok) \<leftarrow> NewProcess (h_sys h) pid;
     let app = app\<lparr>app_game := Some (proc\<lparr>p_AppID := appID\<rparr>)\<rparr>;
     Some (app_game app, app)
   }"

definition AutoSelectGameProcess :: "Host \<Rightarrow> int \<Rightarrow> App \<Rightarrow> (Process option \<times> App) go" where
  "AutoSelectGameProcess h appID app = do {
     let keep = (case app_game app of None \<Rightarrow> False | Some game \<Rightarrow> p_AppID game = appID \<and> w_alive (h_world h) (p_PID game));
     app \<leftarrow> (if keep then Some app
            else do { game \<leftarrow> FindGameWithAppID (h_sort h) (h_sys h) appID; Some (app\<lparr>app_game := game\<rparr>) });
     Some (app_game app, app)
   }"

definition render :: "Host \<Rightarrow> App \<Rightarrow> Results go" where
  "render h app = do {
     let results = \<lparr>res_Count = Count (app_scan app), res_List = [], res_Round = Rounds (app_scan app),
                    res_CanUndo = CanUndo (app_scan app)\<rparr>;
     if res_Count results \<le> app_threshold app then do {
       rows \<leftarrow> RenderResults (h_float h) (h_world h) (app_value app) (app_scan app);
       Some (results\<lparr>res_List := rows\<rparr>)
     }
     else Some results
   }"

type_synonym answer = "Results option \<times> App"

definition answer_render :: "Host \<Rightarrow> App \<Rightarrow> answer go" where
  "answer_render h app = do { results \<leftarrow> render h app; Some (Some results, app) }"

definition app_FirstScan :: "Host \<Rightarrow> int \<Rightarrow> string \<Rightarrow> Type \<Rightarrow> Option \<Rightarrow> App \<Rightarrow> answer go" where
  "app_FirstScan h appID val valueType opt app = do {
     (game, app) \<leftarrow> AutoSelectGameProcess h appID app;
     (case game of
        None \<Rightarrow> Some (None, app)
      | Some game \<Rightarrow>
          let (ok, scan) = Open (p_PID game) (h_opened h (p_PID game)) (Reset (app_scan app));
              app = app\<lparr>app_scan := scan\<rparr> in
          if \<not> ok then Some (None, app)
          else
            let app = app\<lparr>app_value := parseValue val valueType []\<rparr> in
            (case app_value app of
               None \<Rightarrow> Some (None, app)
             | Some v \<Rightarrow> do {
                 let v = WithOption opt v;
                 let app = app\<lparr>app_value := Some v\<rparr>;
                 scan \<leftarrow> FirstScan (h_world h) v (app_scan app);
                 answer_render h (app\<lparr>app_scan := scan\<rparr>)
               }))
   }"

definition app_NextScan :: "Host \<Rightarrow> string \<Rightarrow> App \<Rightarrow> answer go" where
  "app_NextScan h val app =
     (case (app_game app, app_value app) of
        (Some game, Some old) \<Rightarrow>
          if Rounds (app_scan app) < 1 then Some (None, app)
          else if Count (app_scan app) = 0 then answer_render h app
          else
            let opt = v_option old;
                app = app\<lparr>app_value := parseValue val (v_typ old) [True]\<rparr> in
            (case app_value app of
               None \<Rightarrow> answer_render h app
             | Some v \<Rightarrow> do {
                 let v = WithOption opt v;
                 let app = app\<lparr>app_value := Some v\<rparr>;
                 scan \<leftarrow> NextScan (h_world h) (Some v) (app_scan app);
                 answer_render h (app\<lparr>app_scan := scan\<rparr>)
               })
      | _ \<Rightarrow> Some (None, app))"

definition app_UndoScan :: "Host \<Rightarrow> App \<Rightarrow> answer go" where
  "app_UndoScan h app =
     (case (app_game app, app_value app) of
        (Some game, Some v) \<Rightarrow> do {
          (ok, scan) \<leftarrow> UndoScan (app_scan app);
          let app = app\<lparr>app_scan := scan\<rparr>;
          if ok then answer_render h app else Some (None, app)
        }
      | _ \<Rightarrow> Some (None, app))"

text \<open>\<open>ChangeValues\<close> changes the memory \<open>mem\<close>, which is then read by \<open>readv\<close>.\<close>

definition app_ChangeValues ::
  "Host \<Rightarrow> vm_writev \<Rightarrow> (memory \<Rightarrow> vm_readv) \<Rightarrow> string \<Rightarrow> int list \<Rightarrow> App \<Rightarrow> memory \<Rightarrow> (answer \<times> memory) go" where
  "app_ChangeValues h vm readv val indexes app mem =
     (case (app_game app, app_value app) of
        (Some game, Some old) \<Rightarrow>
          if Count (app_scan app) = 0 \<or> app_threshold app < Count (app_scan app) then Some ((None, app), mem)
          else
            let app = app\<lparr>app_value := parseValue val (v_typ old) [True]\<rparr> in
            (case app_value app of
               None \<Rightarrow> Some ((None, app), mem)
             | Some v \<Rightarrow> do {
                 mem \<leftarrow> ChangeResultsValues vm indexes v (app_scan app) mem;
                 answer \<leftarrow> answer_render (h\<lparr>h_world := (h_world h)\<lparr>w_readv := readv mem\<rparr>\<rparr>) app;
                 Some (answer, mem)
               })
      | _ \<Rightarrow> Some ((None, app), mem))"

definition RefreshValues :: "Host \<Rightarrow> App \<Rightarrow> answer go" where
  "RefreshValues h app =
     (case (app_game app, app_value app) of
        (Some game, Some v) \<Rightarrow>
          if Count (app_scan app) = 0 \<or> app_threshold app < Count (app_scan app) then Some (None, app)
          else answer_render h app
      | _ \<Rightarrow> Some (None, app))"

section \<open>Parsed values\<close>

lemma parseValue_shape:
  assumes "parseValue s t args = Some v"
  shows "(t = Int8 \<and> (\<exists>i. v = NewInt8 i)) \<or> (t = Int16 \<and> (\<exists>i. v = NewInt16 i)) \<or> (t = Int32 \<and> (\<exists>i. v = NewInt32 i)) \<or>
    (t = Int64 \<and> (\<exists>i. v = NewInt64 i)) \<or> (t = Float32 \<and> (\<exists>x. v = NewFloat32 x [])) \<or> (t = Float64 \<and> (\<exists>x. v = NewFloat64 x []))"
  using assms unfolding parseValue_def Let_def
  by (simp split: if_splits prod.splits option.splits) blast+

lemma parseValue_typed:
  assumes "parseValue s t args = Some v"
  shows "v_typ v = t \<and> wf_value v \<and> Aligned v \<and> v_data v \<noteq> []"
proof -
  have "v_typ v = t \<and> wf_value v \<and> ByteSize t \<noteq> 0 \<and> t \<noteq> Bytes"
    using parseValue_shape [OF assms]
    by (elim disjE conjE exE)
      (simp_all add: wf_value_constructors ByteSize_simps, simp_all add: NewInt8_def NewInt16_def NewInt32_def NewInt64_def
        NewFloat32_def NewFloat64_def)
  moreover from this have "length (v_data v) = ByteSize t" by (simp add: wf_value_def)
  ultimately show ?thesis by (auto simp: Aligned_def)
qed

lemma WithOption_typed:
  "v_typ (WithOption opt v) = v_typ v" "v_data (WithOption opt v) = v_data v"
  by (simp_all add: WithOption_def)

section \<open>What holds in every state\<close>

definition app_ok :: "App \<Rightarrow> bool" where
  "app_ok app \<longleftrightarrow> 10 \<le> app_threshold app \<and> app_threshold app \<le> 100 \<and>
     (case app_value app of None \<Rightarrow> True | Some v \<Rightarrow> wf_value v \<and> Aligned v \<and> v_data v \<noteq> [])"

inductive app_step :: "App \<Rightarrow> Results option \<Rightarrow> App \<Rightarrow> bool" where
  threshold: "app_step app None (SetRenderResultsThreshold n app)"
| clear: "app_step app None (app_Clear app)"
| reset: "app_step app None (ResetScan app)"
| select: "SelectGameProcess h appID pid app = Some (game, app') \<Longrightarrow> app_step app None app'"
| auto: "AutoSelectGameProcess h appID app = Some (game, app') \<Longrightarrow> app_step app None app'"
| first: "app_FirstScan h appID s t opt app = Some (res, app') \<Longrightarrow> app_step app res app'"
| again: "app_NextScan h s app = Some (res, app') \<Longrightarrow> app_step app res app'"
| undo: "app_UndoScan h app = Some (res, app') \<Longrightarrow> app_step app res app'"
| change: "app_ChangeValues h vm readv s indexes app mem = Some ((res, app'), mem') \<Longrightarrow> app_step app res app'"
| refresh: "RefreshValues h app = Some (res, app') \<Longrightarrow> app_step app res app'"

definition rows_bounded :: "Results option \<Rightarrow> bool" where
  "rows_bounded res \<longleftrightarrow> (case res of None \<Rightarrow> True | Some r \<Rightarrow> length (res_List r) \<le> 100)"

lemma answer_render_ok:
  assumes "answer_render h app = Some (res, app')" "app_ok app"
  shows "app' = app \<and> rows_bounded res"
proof -
  obtain r where r: "render h app = Some r" "res = Some r" "app' = app"
    using assms(1) by (auto simp: answer_render_def split: Option.bind_splits)
  have "length (res_List r) \<le> 100"
  proof (cases "Count (app_scan app) \<le> app_threshold app")
    case True
    with r(1) obtain rows where "RenderResults (h_float h) (h_world h) (app_value app) (app_scan app) = Some rows" "res_List r = rows"
      by (auto simp: render_def Let_def split: Option.bind_splits)
    with RenderResults_length True assms(2) show ?thesis by (fastforce simp: app_ok_def)
  qed (use r(1) in \<open>auto simp: render_def Let_def\<close>)
  with r show ?thesis by (simp add: rows_bounded_def)
qed

lemma app_ok_fields:
  "app_ok app \<Longrightarrow> app_ok (app\<lparr>app_scan := scan\<rparr>)" "app_ok app \<Longrightarrow> app_ok (app\<lparr>app_game := game\<rparr>)"
  "app_ok app \<Longrightarrow> app_ok (app\<lparr>app_value := None\<rparr>)"
  "app_ok app \<Longrightarrow> parseValue s t args = Some v \<Longrightarrow> app_ok (app\<lparr>app_value := Some (WithOption opt v)\<rparr>)"
  "app_ok app \<Longrightarrow> parseValue s t args = Some v \<Longrightarrow> app_ok (app\<lparr>app_value := Some v\<rparr>)"
  using parseValue_typed [of s t args v]
  by (auto simp: app_ok_def Aligned_def wf_value_def WithOption_typed)

lemma rows_bounded_None [simp]: "rows_bounded None"
  by (simp add: rows_bounded_def)

lemma AutoSelect_ok:
  assumes "AutoSelectGameProcess h appID app = Some (game, app')" "app_ok app"
  shows "app_ok app'"
  using assms by (auto simp: AutoSelectGameProcess_def Let_def app_ok_fields split: Option.bind_splits if_splits)

lemma app_FirstScan_ok:
  assumes "app_FirstScan h appID s t opt app = Some (res, app')" "app_ok app"
  shows "app_ok app' \<and> rows_bounded res"
proof -
  obtain game app1 where auto: "AutoSelectGameProcess h appID app = Some (game, app1)"
    using assms(1) by (auto simp: app_FirstScan_def split: Option.bind_splits)
  from AutoSelect_ok [OF this assms(2)] have ok1: "app_ok app1" .
  show ?thesis
  proof (cases game)
    case None
    with assms(1) auto ok1 show ?thesis by (auto simp: app_FirstScan_def)
  next
    case (Some g)
    define opened where "opened = Open (p_PID g) (h_opened h (p_PID g)) (Reset (app_scan app1))"
    obtain ok scan where o: "opened = (ok, scan)" by fastforce
    show ?thesis
    proof (cases "ok \<and> parseValue s t [] \<noteq> None")
      case False
      with assms(1) auto ok1 Some o show ?thesis
        by (auto simp: app_FirstScan_def Let_def app_ok_fields simp flip: opened_def split: if_splits)
    next
      case True
      then obtain v where v: "parseValue s t [] = Some v" by blast
      with assms(1) auto Some o True obtain scan' where
        "answer_render h (app1\<lparr>app_value := Some (WithOption opt v), app_scan := scan'\<rparr>) = Some (res, app')"
        by (auto simp: app_FirstScan_def Let_def simp flip: opened_def split: Option.bind_splits)
      from answer_render_ok [OF this] app_ok_fields(1) [OF app_ok_fields(4) [OF ok1 v, of opt], of scan'] show ?thesis by simp
    qed
  qed
qed

lemma app_NextScan_ok:
  assumes "app_NextScan h s app = Some (res, app')" "app_ok app"
  shows "app_ok app' \<and> rows_bounded res"
proof (cases "app_game app = None \<or> app_value app = None \<or> Rounds (app_scan app) < 1")
  case True
  with assms show ?thesis by (auto simp: app_NextScan_def split: option.splits if_splits)
next
  case False
  then obtain game old where go: "app_game app = Some game" "app_value app = Some old" "\<not> Rounds (app_scan app) < 1" by auto
  show ?thesis
  proof (cases "Count (app_scan app) = 0")
    case True
    with assms(1) go have "answer_render h app = Some (res, app')" by (simp add: app_NextScan_def)
    from answer_render_ok [OF this assms(2)] assms(2) show ?thesis by simp
  next
    case count: False
    show ?thesis
    proof (cases "parseValue s (v_typ old) [True]")
      case None
      with assms(1) go count have "answer_render h (app\<lparr>app_value := None\<rparr>) = Some (res, app')"
        by (simp add: app_NextScan_def Let_def)
      from answer_render_ok [OF this app_ok_fields(3) [OF assms(2)]] app_ok_fields(3) [OF assms(2)] show ?thesis by simp
    next
      case (Some v)
      with assms(1) go count obtain scan where
        "answer_render h (app\<lparr>app_value := Some (WithOption (v_option old) v), app_scan := scan\<rparr>) = Some (res, app')"
        by (auto simp: app_NextScan_def Let_def split: Option.bind_splits)
      from answer_render_ok [OF this] app_ok_fields(1) [OF app_ok_fields(4) [OF assms(2) Some, of "v_option old"], of scan]
      show ?thesis by simp
    qed
  qed
qed

lemma app_ChangeValues_ok:
  assumes "app_ChangeValues h vm readv s indexes app mem = Some ((res, app'), mem')" "app_ok app"
  shows "app_ok app' \<and> rows_bounded res"
proof (cases "app_game app = None \<or> app_value app = None \<or> Count (app_scan app) = 0 \<or> app_threshold app < Count (app_scan app)")
  case True
  with assms show ?thesis by (auto simp: app_ChangeValues_def split: option.splits if_splits)
next
  case False
  then obtain game old where go: "app_game app = Some game" "app_value app = Some old"
    "\<not> (Count (app_scan app) = 0 \<or> app_threshold app < Count (app_scan app))" by auto
  show ?thesis
  proof (cases "parseValue s (v_typ old) [True]")
    case None
    with assms go show ?thesis by (auto simp: app_ChangeValues_def Let_def app_ok_fields)
  next
    case (Some v)
    with assms(1) go obtain h' where "answer_render h' (app\<lparr>app_value := Some v\<rparr>) = Some (res, app')"
      by (auto simp: app_ChangeValues_def Let_def split: Option.bind_splits)
    from answer_render_ok [OF this] app_ok_fields(5) [OF assms(2) Some] show ?thesis by simp
  qed
qed

lemma app_step_ok:
  assumes "app_step app res app'" "app_ok app"
  shows "app_ok app' \<and> rows_bounded res"
  using assms
proof (cases rule: app_step.cases)
  case (threshold n)
  with assms(2) show ?thesis
    by (auto simp: SetRenderResultsThreshold_def app_ok_def MinResultsThreshold_def MaxResultsThreshold_def)
next
  case clear
  with assms(2) show ?thesis by (simp add: app_Clear_def ResetScan_def app_ok_fields)
next
  case reset
  with assms(2) show ?thesis by (simp add: ResetScan_def app_ok_fields)
next
  case (select h appID pid game)
  with assms(2) show ?thesis by (auto simp: SelectGameProcess_def app_ok_fields split: Option.bind_splits)
next
  case (auto h appID game)
  with AutoSelect_ok assms(2) show ?thesis by simp
next
  case (first h appID s t opt)
  from app_FirstScan_ok [OF first assms(2)] show ?thesis .
next
  case (again h s)
  from app_NextScan_ok [OF again assms(2)] show ?thesis .
next
  case (undo h)
  show ?thesis
  proof (cases "app_game app = None \<or> app_value app = None")
    case True
    with undo assms(2) show ?thesis by (auto simp: app_UndoScan_def split: option.splits)
  next
    case False
    with undo obtain ok scan where u: "UndoScan (app_scan app) = Some (ok, scan)"
      by (auto simp: app_UndoScan_def split: Option.bind_splits)
    show ?thesis
    proof (cases ok)
      case True
      with undo False u have "answer_render h (app\<lparr>app_scan := scan\<rparr>) = Some (res, app')"
        by (auto simp: app_UndoScan_def Let_def)
      from answer_render_ok [OF this] app_ok_fields(1) [OF assms(2), of scan] show ?thesis by simp
    next
      case no: False
      with undo False u assms(2) show ?thesis by (auto simp: app_UndoScan_def Let_def app_ok_fields)
    qed
  qed
next
  case (change h vm readv s indexes mem mem')
  from app_ChangeValues_ok [OF change assms(2)] show ?thesis .
next
  case (refresh h)
  with answer_render_ok [of h app res app'] assms(2) show ?thesis
    by (auto simp: RefreshValues_def split: option.splits if_splits)
qed

text \<open>The states the calls of the library lead to from its start.\<close>

definition app_reachable :: "App \<Rightarrow> bool" where
  "app_reachable app \<longleftrightarrow> (\<exists>sys app0. app_init sys = Some app0 \<and> (\<lambda>a b. \<exists>r. app_step a r b)\<^sup>*\<^sup>* app0 app)"

lemma app_reachable_ok: "app_reachable app \<Longrightarrow> app_ok app"
proof -
  assume "app_reachable app"
  then obtain sys app0 where init: "app_init sys = Some app0" and steps: "(\<lambda>a b. \<exists>r. app_step a r b)\<^sup>*\<^sup>* app0 app"
    by (auto simp: app_reachable_def)
  have "app_ok app0"
    using init by (auto simp: app_init_def app_ok_def defRenderResultsThreshold_def split: Option.bind_splits)
  with steps show ?thesis
    by (induction rule: rtranclp_induct) (use app_step_ok in blast)+
qed

text \<open>
  Whatever the calls, their arguments and what they meet, the library keeps its threshold between 10 and 100 and its
  value, if any, a well-formed number, never a byte string; and no answer lists more than 100 rows, so that the
  limit of a single read, which \<open>RenderResults\<close> does not look at, is never passed.
\<close>

lemma App_invariant:
  assumes "app_reachable app" "app_step app res app'"
  shows "app_ok app' \<and> rows_bounded res"
  using app_step_ok [OF assms(2) app_reachable_ok [OF assms(1)]] .

section \<open>Decimal numbers\<close>

text \<open>The integer values as the constructors of each width build them.\<close>

definition int_value :: "Type \<Rightarrow> nat \<Rightarrow> Value" where
  "int_value t n = (if t = Int8 then NewInt8 (of_nat n) else if t = Int16 then NewInt16 (of_nat n)
     else if t = Int32 then NewInt32 (of_nat n) else NewInt64 (of_nat n))"

lemma hd_digits_nonzero: "0 < n \<Longrightarrow> hd (digits 10 n) \<noteq> CHR ''0''"
proof (induction "10 :: nat" n rule: digits.induct)
  case (1 n)
  show ?case
  proof (cases "n < 10")
    case True
    have "list_all (\<lambda>d. digit_char d \<noteq> CHR ''0'') [1..<10]" by code_simp
    with True 1(2) show ?thesis by (simp add: digits.simps [of 10 n] list_all_iff)
  next
    case False
    with 1(1) show ?thesis by (simp add: digits.simps [of 10 n] hd_append digits_nonempty)
  qed
qed

lemma drop_zeros:
  "dropWhile (\<lambda>c. c = CHR ''0'') (replicate j (CHR ''0'') @ digits 10 n) = (if n = 0 then [] else digits 10 n)"
proof (cases "n = 0")
  case True
  have "digits 10 0 = ''0''" by code_simp
  with True show ?thesis by simp
next
  case False
  then have "hd (digits 10 n) \<noteq> CHR ''0''" by (intro hd_digits_nonzero) simp
  with False show ?thesis by (induction j) (simp_all add: dropWhile_eq_self_iff)
qed

lemma parseValue_digits:
  assumes "t \<in> {Int8, Int16, Int32, Int64}"
  shows "parseValue (replicate j (CHR ''0'') @ digits 10 n) t [zero_ok] =
    (if n < 2 ^ BitSize t \<and> (0 < n \<or> zero_ok) then Some (int_value t n) else None)"
proof -
  define raw where "raw = digits 10 n"
  have zero: "digits 10 0 = ''0''" by code_simp
  have norm: "(if dropWhile (\<lambda>c. c = CHR ''0'') (replicate j (CHR ''0'') @ raw) = [] then ''0''
      else dropWhile (\<lambda>c. c = CHR ''0'') (replicate j (CHR ''0'') @ raw)) = raw"
    using zero by (simp add: drop_zeros raw_def digits_nonempty)
  have is0: "raw = ''0'' \<longleftrightarrow> n = 0"
    using hd_digits_nonzero [of n] zero by (cases "n = 0") (auto simp: raw_def)
  have parse: "ParseUint raw 10 w = (if n < 2 ^ w then (n, None) else (2 ^ w - 1, Some ErrRange))" for w
  proof (cases "n < 2 ^ w")
    case False
    have "2 ^ w - 1 < (2 :: nat) ^ w" by simp
    with False have "2 ^ w - 1 < n" by linarith
    with False ParseUint_loop_overflow [of 10 "2 ^ w - 1" n] show ?thesis
      by (simp add: ParseUint_def raw_def digits_nonempty)
  qed (use ParseUint_digits [of 10 n w 0] in \<open>simp add: raw_def\<close>)
  have eq: "parseValue (replicate j (CHR ''0'') @ raw) t [zero_ok] =
    (if \<not> zero_ok \<and> n = 0 then None
     else if t = Int8 then (if n < 2 ^ 8 then Some (NewInt8 (of_nat n)) else None)
     else if t = Int16 then (if n < 2 ^ 16 then Some (NewInt16 (of_nat n)) else None)
     else if t = Int32 then (if n < 2 ^ 32 then Some (NewInt32 (of_nat n)) else None)
     else (if n < 2 ^ 64 then Some (NewInt64 (of_nat n)) else None))"
    using assms unfolding parseValue_def Let_def norm is0 parse by (elim insertE emptyE) simp_all
  show ?thesis
    using assms unfolding raw_def [symmetric] eq
    by (elim insertE emptyE) (simp_all add: int_value_def BitSize_def)
qed

text \<open>
  A decimal number, leading zeros or not, is parsed to the value of its type exactly when it fits the type's width
  and is not a zero where none is allowed; everything larger is refused.
\<close>

lemma parseValue_decimal:
  assumes "t \<in> {Int8, Int16, Int32, Int64}"
  shows "parseValue (replicate j (CHR ''0'') @ digits 10 n) t [zero_ok] =
    (if n < 2 ^ BitSize t \<and> (0 < n \<or> zero_ok) then Some (int_value t n) else None)"
  by (rule parseValue_digits [OF assms])

section \<open>Losing the value\<close>

text \<open>
  A text that is not parsed leaves the library without a value: the answer to that call is still rendered, but every later
  next scan, undo, change or refresh answers nothing until a new first scan.
\<close>

lemma app_NextScan_unparsed:
  assumes "app_game app = Some g" "app_value app = Some old" "\<not> Rounds (app_scan app) < 1" "Count (app_scan app) \<noteq> 0"
    and "parseValue s (v_typ old) [True] = None" "app_NextScan h s app = Some (res, app')"
  shows "app_NextScan h s' app' = Some (None, app') \<and> app_UndoScan h app' = Some (None, app') \<and>
    RefreshValues h app' = Some (None, app')"
proof -
  have "answer_render h (app\<lparr>app_value := None\<rparr>) = Some (res, app')"
    using assms by (simp add: app_NextScan_def Let_def)
  then have "app_value app' = None"
    by (auto simp: answer_render_def split: Option.bind_splits)
  then show ?thesis
    by (simp add: app_NextScan_def app_UndoScan_def RefreshValues_def split: option.split)
qed

end
