(* ===== verification/Console.thy ===== *)
theory Console
  imports Results_View Deck
begin

text \<open>
  The terminal program (\<^verbatim>\<open>cmd/memscan-cli/console.go\<close>): a loop over steps, each of which shows a prompt or
  runs a scan and says which step is next. What the prompts return, the colouring of labels and the printed
  duration of a scan are arguments; the library that draws the prompts returns an index of the
  items it was given, or an error on which the program ends; an index outside the items is no input.
\<close>

section \<open>State\<close>

datatype ConsoleStep =
    ConsoleStepSelectGame | ConsoleStepSelectType | ConsoleStepEnterScanValue | ConsoleStepEnterChangeValue
  | ConsoleStepFirstScan | ConsoleStepNext | ConsoleStepNextScan | ConsoleExit

record Console =
  c_step :: ConsoleStep
  c_selectIndex :: int
  c_value :: Value
  c_mscan :: Memscan
  c_lastScan :: string

text \<open>What a step meets outside; \<open>t_duration\<close> is how a duration would be printed.\<close>

record Terminal =
  t_sort :: proc_sort
  t_sys :: System
  t_maps :: "int \<Rightarrow> bool"
  t_exe :: "int \<Rightarrow> string option"
  t_float :: "fmt \<Rightarrow> fl \<Rightarrow> string"
  t_paint :: "string \<Rightarrow> string"
  t_duration :: string
  t_world :: World
  t_writev :: vm_writev

definition t_opened :: "Terminal \<Rightarrow> int \<Rightarrow> string option" where
  "t_opened t pid = OpenMaps (t_maps t pid) (t_exe t pid)"

text \<open>What a prompt returns: an item, a text, or an error.\<close>

datatype input = Choose nat | Enter string | Failed

text \<open>A step ends the program (\<open>Quit\<close>), waits for another text, or goes on; a panic is \<open>None\<close>.\<close>

datatype outcome = Quit | Go Console

section \<open>Steps\<close>

definition label :: "(string \<Rightarrow> string) \<Rightarrow> Console \<Rightarrow> string go" where
  "label paint c = do {
     (text, help) \<leftarrow>
       (case c_step c of
          ConsoleStepSelectGame \<Rightarrow> Some (paint ''<SELECT GAME>'', ''Press [J] [K] to navigate'')
        | ConsoleStepSelectType \<Rightarrow> Some (paint ''<VALUE TYPE>'', ''Press [J] [K] to navigate'')
        | ConsoleStepEnterScanValue \<Rightarrow>
            if Rounds (c_mscan c) = 0 then Some (paint ''<SCAN VALUE>'', ''Enter first scan value'')
            else Some (paint ''<NEXT SCAN>'', ''Enter next scan value'')
        | ConsoleStepEnterChangeValue \<Rightarrow> do {
            results \<leftarrow> Results (c_mscan c);
            help \<leftarrow> (if - 1 < c_selectIndex c then map_option show_addr (index results (c_selectIndex c)) else Some ''All'');
            Some (paint ''<CHANGE VALUE>'', help)
          }
        | ConsoleStepNext \<Rightarrow>
            Some (paint (Memscan_String (c_mscan c) @ '' ('' @ c_lastScan c @ '')''), ''Press [J] [K] to navigate'')
        | _ \<Rightarrow> Some ([], []));
     Some (text @ '' ['' @ help @ '']'')
   }"

definition selectGame :: "Terminal \<Rightarrow> input \<Rightarrow> Console \<Rightarrow> outcome go" where
  "selectGame t inp c = do {
     processes \<leftarrow> EnumGameProcesses (t_sort t) (t_sys t) [];
     if processes = [] then Some Quit
     else do {
       text \<leftarrow> label (t_paint t) c;
       (case inp of
          Choose i \<Rightarrow> do {
            proc \<leftarrow> index processes (int i);
            let (ok, scan) = Open (p_PID proc) (t_opened t (p_PID proc)) (c_mscan c);
            if \<not> ok then Some Quit
            else Some (Go (c\<lparr>c_mscan := scan, c_step := ConsoleStepSelectType\<rparr>))
          }
        | _ \<Rightarrow> Some Quit)
     }
   }"

definition type_items :: "Type list" where
  "type_items = [Bytes, Int8, Int16, Int32, Int64, Float32, Float64]"

definition selectValueType :: "Terminal \<Rightarrow> input \<Rightarrow> Console \<Rightarrow> outcome go" where
  "selectValueType t inp c = do {
     text \<leftarrow> label (t_paint t) c;
     (case inp of
        Choose i \<Rightarrow> do {
          typ \<leftarrow> index type_items (int i);
          Some (Go (c\<lparr>c_value := SetType typ (c_value c), c_step := ConsoleStepEnterScanValue\<rparr>))
        }
      | _ \<Rightarrow> Some Quit)
   }"

text \<open>The help a rejected text is answered with; the floats are printed as \<^verbatim>\<open>%g\<close> prints the largest.\<close>

definition inputError_Error :: "Type \<Rightarrow> string" where
  "inputError_Error typ =
     ''invalid input. '' @
     (if typ = Int8 then ''Int8: 8bit (-128 to 127) or (0 to 255)''
      else if typ = Int16 then ''Int16: 16bit (-32768 to 32767) or (0 to 65535)''
      else if typ = Int32 then ''Int32: 32bit (-2147483648 to 2147483647) or (0 to 4294967295)''
      else if typ = Int64 then ''Int64: 64bit (-9223372036854775808 to 9223372036854775807) or (0 to 18446744073709551615)''
      else if typ = Float32 then ''Float32: 32bit (max: 3.4028234663852886e+38)''
      else if typ = Float64 then ''Float64: 64bit (max: 1.7976931348623157e+308)''
      else if typ = Bytes then ''Bytes: should be a hex string, e.g. '' @ [CHR 0x22] @ ''FF 01'' @ [CHR 0x22]
      else [])"

definition validate :: "string \<Rightarrow> Value \<Rightarrow> (string option \<times> Value) go" where
  "validate inp v = do {
     (err, v) \<leftarrow> FromString inp v;
     Some (if err \<noteq> None then Some (inputError_Error (v_typ v)) else None, v)
   }"

text \<open>
  Every text typed is parsed into the value by \<open>validate\<close>, also one the prompt then does not accept, and the prompt
  waits on.
\<close>

definition enterScanValue :: "Terminal \<Rightarrow> input \<Rightarrow> Console \<Rightarrow> memory \<Rightarrow> (outcome \<times> memory) go" where
  "enterScanValue t inp c mem = do {
     text \<leftarrow> label (t_paint t) c;
     (case inp of
        Enter s \<Rightarrow> do {
          (err, val) \<leftarrow> validate s (c_value c);
          let c = c\<lparr>c_value := val\<rparr>;
          if err \<noteq> None then Some (Go c, mem)
          else
            let isNextScan = 0 < Rounds (c_mscan c);
                isChangeValue = (c_step c = ConsoleStepEnterChangeValue);
                retIndexes = (if isChangeValue \<and> - 1 < c_selectIndex c then [c_selectIndex c] else []) in
            if isChangeValue then do {
              mem \<leftarrow> ChangeResultsValues (t_writev t) retIndexes val (c_mscan c) mem;
              Some (Go (c\<lparr>c_step := ConsoleStepNext\<rparr>), mem)
            }
            else if isNextScan then Some (Go (c\<lparr>c_step := ConsoleStepNextScan\<rparr>), mem)
            else Some (Go (c\<lparr>c_step := ConsoleStepFirstScan\<rparr>), mem)
        }
      | _ \<Rightarrow> Some (Quit, mem))
   }"

definition firstScan :: "Terminal \<Rightarrow> Console \<Rightarrow> outcome go" where
  "firstScan t c = do {
     scan \<leftarrow> FirstScan (t_world t) (c_value c) (c_mscan c);
     Some (Go (c\<lparr>c_mscan := scan, c_lastScan := t_duration t, c_step := ConsoleStepNext\<rparr>))
   }"

definition nextScan :: "Terminal \<Rightarrow> Console \<Rightarrow> outcome go" where
  "nextScan t c = do {
     scan \<leftarrow> NextScanForceSparse (t_world t) (Some (c_value c)) (c_mscan c);
     Some (Go (c\<lparr>c_mscan := scan, c_lastScan := t_duration t, c_step := ConsoleStepNext\<rparr>))
   }"

definition pad2 :: "nat \<Rightarrow> string" where
  "pad2 i = (if i < 10 then CHR '' '' # digits 10 i else digits 10 i)"

text \<open>The items of the menu: the rows, then what can be done next.\<close>

definition next_items :: "(string \<times> string) list \<Rightarrow> int \<Rightarrow> string list go" where
  "next_items display n =
     (let opts = length display;
          rows = map (\<lambda>(i, a, v). pad2 i @ ''. ['' @ a @ ''] '' @ v) (zip [0..<opts] display);
          items = rows @ [''Next Scan''] in
      if n = 0 then
        (if nat n < length items then Some (items[nat n := ''New Scan'']) else None)
      else Some (items @ [''New Scan''] @ (if 1 < n \<and> 0 < opts then [''Change All''] else [])))"

definition next_step :: "Terminal \<Rightarrow> input \<Rightarrow> Console \<Rightarrow> outcome go" where
  "next_step t inp c = do {
     let c = c\<lparr>c_selectIndex := - 1\<rparr>;
     let n = Count (c_mscan c);
     display \<leftarrow> (if n \<le> 10 then RenderResults (t_float t) (t_world t) (Some (c_value c)) (c_mscan c) else Some []);
     items \<leftarrow> next_items display n;
     let opts = length display;
     text \<leftarrow> label (t_paint t) c;
     (case inp of
        Choose i \<Rightarrow>
          if \<not> i < length items then None
          else if i = opts then
            Some (Go ((if n = 0 then c\<lparr>c_mscan := Reset (c_mscan c)\<rparr> else c)\<lparr>c_step := ConsoleStepEnterScanValue\<rparr>))
          else if i = opts + 1 then Some (Go (c\<lparr>c_mscan := Reset (c_mscan c), c_step := ConsoleStepSelectType\<rparr>))
          else if i = opts + 2 then Some (Go (c\<lparr>c_step := ConsoleStepEnterChangeValue\<rparr>))
          else Some (Go (c\<lparr>c_selectIndex := int i, c_step := ConsoleStepEnterChangeValue\<rparr>))
      | _ \<Rightarrow> Some Quit)
   }"

text \<open>One turn of the loop in \<open>Run\<close>.\<close>

definition console_turn :: "Terminal \<Rightarrow> input \<Rightarrow> Console \<Rightarrow> memory \<Rightarrow> (outcome \<times> memory) go" where
  "console_turn t inp c mem =
     (let same = map_option (\<lambda>out. (out, mem)) in
      case c_step c of
        ConsoleStepSelectGame \<Rightarrow> same (selectGame t inp c)
      | ConsoleStepSelectType \<Rightarrow> same (selectValueType t inp c)
      | ConsoleStepEnterScanValue \<Rightarrow> enterScanValue t inp c mem
      | ConsoleStepEnterChangeValue \<Rightarrow> enterScanValue t inp c mem
      | ConsoleStepFirstScan \<Rightarrow> same (firstScan t c)
      | ConsoleStepNext \<Rightarrow> same (next_step t inp c)
      | ConsoleStepNextScan \<Rightarrow> same (nextScan t c)
      | ConsoleExit \<Rightarrow> Some (Quit, mem))"

definition console_Close :: "Console \<Rightarrow> Console" where
  "console_Close c = c\<lparr>c_mscan := Close (c_mscan c)\<rparr>"

definition runConsole :: "(nat \<Rightarrow> bool) \<Rightarrow> Console go" where
  "runConsole sys = do {
     scan \<leftarrow> NewMemscan sys;
     Some \<lparr>c_step = ConsoleStepSelectGame, c_selectIndex = 0, c_value = \<lparr>v_typ = 0, v_data = [], v_option = 0\<rparr>, c_mscan = scan,
           c_lastScan = ''0s''\<rparr>
   }"

section \<open>Turns\<close>

inductive turn :: "Console \<Rightarrow> Console \<Rightarrow> bool" where
  turn: "console_turn t inp c mem = Some (Go c', mem') \<Longrightarrow> turn c c'"

inductive_cases turnE: "turn c c'"

text \<open>
  When a value is about to be changed, the row chosen is one of the results, and the program is never at its
  exit step.
\<close>

definition console_ok :: "Console \<Rightarrow> bool" where
  "console_ok c \<longleftrightarrow> c_step c \<noteq> ConsoleExit \<and> - 1 \<le> c_selectIndex c \<and>
     (c_step c = ConsoleStepEnterChangeValue \<longrightarrow> c_selectIndex c < Count (c_mscan c))"

lemma sint_le_unat64: "sint (w :: u64) \<le> int (unat w)"
proof -
  have "- (2 ^ 63) \<le> uint w" by (rule order_trans [of _ 0]) simp_all
  then have "signed_take_bit 63 (uint w) \<le> uint w"
    by (simp add: signed_take_bit_int_less_eq_self_iff)
  then show ?thesis by (simp add: sint_uint)
qed

lemma Count_bound:
  assumes "Results m = Some xs" "0 \<le> i" "i < Count m"
  shows "i < int (length xs)"
proof -
  from assms obtain r where r: "ms_results m = Some r" by (cases "ms_results m") (auto simp: Count_def)
  with assms(1) have data: "slice (mm_data r) 0 (uint (mm_cursor r)) = Some xs"
    by (simp add: Results_def mm_Data_def)
  then have "length xs = unat (mm_cursor r)" by (auto simp: slice_uint split: if_splits)
  moreover have "Count m = sint (mm_cursor r)" using r by (simp add: Count_def mm_Len_def)
  moreover have "sint (mm_cursor r) \<le> int (unat (mm_cursor r))" by (rule sint_le_unat64)
  ultimately show ?thesis using assms(3) by simp
qed

lemma next_items_length:
  assumes "next_items display n = Some items"
  shows "length items \<le> length display + 3 \<and> (n \<le> 1 \<longrightarrow> length items \<le> length display + 2)"
  using assms by (auto simp: next_items_def Let_def split: if_splits)

lemma selectGame_ok:
  assumes "selectGame t inp c = Some (Go c')" "console_ok c"
  shows "console_ok c'"
  using assms by (auto simp: selectGame_def console_ok_def Let_def split: Option.bind_splits input.splits if_splits prod.splits)

lemma selectValueType_ok:
  assumes "selectValueType t inp c = Some (Go c')" "console_ok c"
  shows "console_ok c'"
  using assms by (auto simp: selectValueType_def console_ok_def split: Option.bind_splits input.splits)

lemma enterScanValue_ok:
  assumes "enterScanValue t inp c mem = Some (Go c', mem')" "console_ok c"
  shows "console_ok c'"
  using assms by (auto simp: enterScanValue_def console_ok_def Let_def split: Option.bind_splits input.splits if_splits)

lemma firstScan_ok: "firstScan t c = Some (Go c') \<Longrightarrow> console_ok c \<Longrightarrow> console_ok c'"
  by (auto simp: firstScan_def console_ok_def split: Option.bind_splits)

lemma nextScan_ok: "nextScan t c = Some (Go c') \<Longrightarrow> console_ok c \<Longrightarrow> console_ok c'"
  by (auto simp: nextScan_def console_ok_def split: Option.bind_splits)

lemma next_step_ok:
  assumes "next_step t inp c = Some (Go c')"
  shows "console_ok c'"
proof -
  define n where "n = Count (c_mscan c)"
  from assms obtain display items i where d:
    "(if n \<le> 10 then RenderResults (t_float t) (t_world t) (Some (c_value c)) (c_mscan c) else Some []) = Some display"
    "next_items display n = Some items" "inp = Choose i" "i < length items"
    by (auto simp: next_step_def Let_def n_def split: Option.bind_splits input.splits if_splits)
  have opts: "length display \<le> nat n"
    using d(1) RenderResults_length [of "t_float t" "t_world t" "Some (c_value c)" "c_mscan c" display]
    by (auto simp: n_def split: if_splits)
  have "0 < n" if "i \<noteq> length display" "i \<noteq> length display + 1"
  proof (rule ccontr)
    assume "\<not> 0 < n"
    with opts have "display = []" by simp
    with next_items_length [OF d(2)] d(4) that \<open>\<not> 0 < n\<close> show False by auto
  qed
  moreover have "i < length display" if "i \<noteq> length display" "i \<noteq> length display + 1" "i \<noteq> length display + 2"
    using next_items_length [OF d(2)] d(4) that by linarith
  ultimately show ?thesis
    using assms d opts
    by (auto simp: next_step_def Let_def console_ok_def n_def split: Option.bind_splits if_splits)
qed

lemma turn_ok:
  assumes "turn c c'" "console_ok c"
  shows "console_ok c'"
  using assms(1)
proof (rule turnE)
  fix t inp mem mem' assume t: "console_turn t inp c mem = Some (Go c', mem')"
  show ?thesis
    using t assms(2) selectGame_ok selectValueType_ok enterScanValue_ok firstScan_ok next_step_ok nextScan_ok
    by (cases "c_step c") (auto simp: console_turn_def Let_def)
qed

definition console_reachable :: "Console \<Rightarrow> bool" where
  "console_reachable c \<longleftrightarrow> (\<exists>sys c0. runConsole sys = Some c0 \<and> turn\<^sup>*\<^sup>* c0 c)"

lemma console_reachable_ok: "console_reachable c \<Longrightarrow> console_ok c"
proof -
  assume "console_reachable c"
  then obtain sys c0 where init: "runConsole sys = Some c0" and steps: "turn\<^sup>*\<^sup>* c0 c"
    by (auto simp: console_reachable_def)
  have "console_ok c0" using init by (auto simp: runConsole_def console_ok_def split: Option.bind_splits)
  with steps show ?thesis
    by (induction rule: rtranclp_induct) (use turn_ok in blast)+
qed

text \<open>
  C37: in every state the terminal program reaches, the row chosen for a change is one of the results, so that the
  label of its prompt is defined whenever the results themselves can be taken; and the loop never comes to its
  exit step, so that the program only ends by an error of a prompt.
\<close>

theorem console_label_defined:
  assumes "console_reachable c" "Results (c_mscan c) = Some xs"
  shows "label paint c \<noteq> None \<and> c_step c \<noteq> ConsoleExit"
proof -
  have ok: "console_ok c" by (rule console_reachable_ok [OF assms(1)])
  show ?thesis
  proof (cases "c_step c = ConsoleStepEnterChangeValue")
    case True
    with ok have i: "c_selectIndex c < Count (c_mscan c)" by (simp add: console_ok_def)
    have "index xs (c_selectIndex c) \<noteq> None" if "- 1 < c_selectIndex c"
      using Count_bound [OF assms(2) _ i] that by (simp add: index_def)
    with True assms(2) show ?thesis by (auto simp: label_def)
  next
    case False
    with ok show ?thesis by (cases "c_step c") (auto simp: label_def console_ok_def)
  qed
qed

theorem console_label_defined_witness:
  "\<exists>c xs. console_reachable c \<and> Results (c_mscan c) = Some xs \<and> label id c \<noteq> None"
proof -
  obtain c where c: "runConsole (\<lambda>_. False) = Some c" "ms_results (c_mscan c) = None"
    by (simp add: runConsole_def NewMemscan_def NewMmapUint64_def resultsAllocCaps_def Let_def)
  then have reach: "console_reachable c" by (auto simp: console_reachable_def)
  have results: "Results (c_mscan c) = Some []" using c(2) by (simp add: Results_def)
  from console_label_defined [OF reach results, of id] reach results show ?thesis by blast
qed

section \<open>Numbers typed\<close>

text \<open>
  C34: a decimal number typed for an integer type is taken exactly when it is in the signed range of the type, and
  then stored in the value; any other number is answered with the help, although the help also offers the
  unsigned range, and the value stays as it was.
\<close>

theorem validate_numbers:
  assumes "wf_value v" "v_typ v \<in> {Int8, Int16, Int32, Int64}"
  shows "validate (show_int n) v = Some
    (if - (2 ^ (BitSize (v_typ v) - 1)) \<le> n \<and> n < 2 ^ (BitSize (v_typ v) - 1)
     then (None, v\<lparr>v_data := int_bytes (v_typ v) n\<rparr>) else (Some (inputError_Error (v_typ v)), v))"
  by (simp add: validate_def FromString_decimal [OF assms])

theorem validate_numbers_witness:
  "validate ''200'' (NewInt8 7) = Some (Some ''invalid input. Int8: 8bit (-128 to 127) or (0 to 255)'', NewInt8 7) \<and>
   validate ''-1'' (NewInt8 7) = Some (None, NewInt8 (-1))"
proof -
  have t: "v_typ (NewInt8 7) = Int8" by (simp add: NewInt8_def)
  have "show_int 200 = ''200''" "show_int (-1) = ''-1''" by code_simp+
  with validate_numbers [of "NewInt8 7" 200] validate_numbers [of "NewInt8 7" "-1"] show ?thesis
    by (simp add: wf_value_constructors t BitSize_def inputError_Error_def) (simp add: NewInt8_def int_bytes_def le_bytes.simps)
qed

end
