(* ===== verification/Command_Line.thy ===== *)
theory Command_Line
  imports Console Scan_Results
begin

text \<open>
  The command line (\<^verbatim>\<open>cmd/memscan-cli/main.go\<close>): what the flags select, and the test a developer runs
  against a paused game, a first scan followed by both kinds of next scan and an undo. The table of
  processes itself is output.
\<close>

section \<open>Flags\<close>

record Flags =
  showAllProcesses :: bool
  showGameProcesses :: bool
  customTest :: bool
  findGameWithInstanceID :: int
  findGameWithAppID :: int

definition flags_default :: Flags where
  "flags_default = \<lparr>showAllProcesses = False, showGameProcesses = False, customTest = False,
     findGameWithInstanceID = 0, findGameWithAppID = - 1\<rparr>"

text \<open>What the program does: run the test, show processes, end with an error or without output, or run the console.\<close>

datatype action = CustomTest | Show "Process list" | Fail | Done | RunConsole

definition main_action :: "Terminal \<Rightarrow> Flags \<Rightarrow> action go" where
  "main_action t flags =
     (if customTest flags then Some CustomTest
      else if showAllProcesses flags then do {
        processes \<leftarrow> EnumDeckProcesses (t_sys t);
        Some (case processes of None \<Rightarrow> Fail | Some ps \<Rightarrow> Show ps)
      }
      else if showGameProcesses flags then do {
        processes \<leftarrow> EnumGameProcesses (t_sort t) (t_sys t) [];
        Some (Show processes)
      }
      else if 0 < findGameWithInstanceID flags then do {
        process \<leftarrow> FindGameWithInstanceID (t_sort t) (t_sys t) (findGameWithInstanceID flags);
        Some (case process of None \<Rightarrow> Done | Some p \<Rightarrow> Show [p])
      }
      else if - 1 < findGameWithAppID flags then do {
        process \<leftarrow> FindGameWithAppID (t_sort t) (t_sys t) (findGameWithAppID flags);
        Some (case process of None \<Rightarrow> Done | Some p \<Rightarrow> Show [p])
      }
      else Some RunConsole)"

section \<open>The test\<close>

text \<open>The counts it prints; \<open>None\<close> inside when there is no game or its maps cannot be opened.\<close>

definition test_value :: Value where
  "test_value = NewInt32 1"

definition customTestFunc :: "Terminal \<Rightarrow> (nat \<Rightarrow> bool) \<Rightarrow> int list option go" where
  "customTestFunc t sys = do {
     processes \<leftarrow> EnumGameProcesses (t_sort t) (t_sys t) [];
     if processes = [] then Some None
     else do {
       process \<leftarrow> index processes 0;
       scan \<leftarrow> NewMemscan sys;
       let (ok, scan) = Open (p_PID process) (t_opened t (p_PID process)) scan;
       if \<not> ok then Some None
       else do {
         scan1 \<leftarrow> FirstScan (t_world t) test_value scan;
         scan2 \<leftarrow> NextScanForceDense (t_world t) (Some test_value) scan1;
         (ok, scan3) \<leftarrow> UndoScan scan2;
         scan4 \<leftarrow> NextScanForceSparse (t_world t) (Some test_value) scan3;
         Some (Some [Count scan1, Count scan2, Count scan3, Count scan4])
       }
     }
   }"

lemma NewMemscan_ready:
  assumes "\<forall>n. sys n"
  shows "\<exists>m. NewMemscan sys = Some m \<and> ms_inv m"
  using assms by (simp add: NewMemscan_def resultsAllocCaps_def NewMmapUint64_def Let_def ms_inv_def array_ok_def mm_inv_def
      mm_capacity_def mm_contents_def)

lemma filter_found:
  assumes "found (ms_view m) = filter (aligned_holds mem cmp) addrs"
  shows "filter (holds mem cmp) (found (ms_view m)) = found (ms_view m)"
  unfolding assms filter_id_conv by (simp add: aligned_holds_def)

lemma forced_scans:
  assumes "engine_ready pid m" "calm w mem pid" "typed_value v cmp" "2 \<le> Value_Size v" "\<not> undoable (ms_view m)"
    and "found (ms_view m) = filter (aligned_holds mem cmp) addrs" "dense_ready mem (Value_Size v) (found (ms_view m))"
  shows "\<exists>m2 m3 m4 ok. NextScanForceDense w (Some v) m = Some m2 \<and> UndoScan m2 = Some (ok, m3) \<and>
    NextScanForceSparse w (Some v) m3 = Some m4 \<and> Count m2 = Count m \<and> Count m3 = Count m \<and> Count m4 = Count m"
proof (cases "found (ms_view m) = []")
  case True
  then have "NextScanForceDense w (Some v) m = Some m" "NextScanForceSparse w (Some v) m = Some m"
    using assms(1) by (simp_all add: NextScanForceDense_def NextScanForceSparse_def next_scan_view engine_ready_def)
  moreover have "UndoScan m = Some (False, m)" using assms(5) by (simp add: UndoScan_def ms_view_def)
  ultimately show ?thesis by blast
next
  case False
  note same = filter_found [OF assms(6)]
  have inv: "ms_inv m" using assms(1) by (simp add: engine_ready_def)
  obtain m2 where m2: "NextScanForceDense w (Some v) m = Some m2" "engine_ready pid m2"
    "ms_view m2 = session_next (holds mem cmp) (ms_view m)"
    using dense_scan [OF assms(1-3,7)] inv False by (auto simp: NextScanForceDense_def next_scan_view)
  obtain m3 where m3: "UndoScan m2 = Some (ms_canUndo m2, m3)" "ms_inv m3" "ms_view m3 = session_undo (ms_view m2)"
    using UndoScan_undoes [of m2] m2(2) by (auto simp: engine_ready_def)
  have "ms_canUndo m2" using m2(3) by (simp add: ms_view_def session_next_def)
  with m3(1,2) m2(2) have ready: "engine_ready pid m3"
    by (auto simp: engine_ready_def UndoScan_def split: if_splits Option.bind_splits)
  have found3: "found (ms_view m3) = found (ms_view m)" using m3(3) m2(3) by (simp add: session_undo_def session_next_def)
  have "list_all (value_readable mem (comp_Size cmp)) (found (ms_view m))"
    by (auto simp: assms(6) list_all_iff aligned_holds_def holds_def)
  then have "sparse_ready mem v cmp (found (ms_view m3))"
    using assms(3,4) by (simp add: sparse_ready_def told_apart_def typed_value_def found3)
  from sparse_scan [OF ready assms(2) this] found3 False ready obtain m4 where
    "NextScanForceSparse w (Some v) m3 = Some m4" "ms_inv m4" "found (ms_view m4) = found (ms_view m)"
    by (auto simp: NextScanForceSparse_def next_scan_view engine_ready_def session_next_def same)
  moreover have "ms_inv m2" "found (ms_view m2) = found (ms_view m)"
    using m2(2,3) by (simp_all add: engine_ready_def session_next_def same)
  ultimately show ?thesis
    using m2(1) m3(1,2) inv by (auto simp: Count_view found3)
qed

lemma test_value_typed: "typed_value test_value (CmpValue test_value)" "Value_Size test_value = 4"
  using wf_value_constructors(3) [of 1]
  by (auto simp: typed_value_def Aligned_def Value_Size_def Value_Comparable_def HasOption_def is_float_type_def
      test_value_def NewInt32_def ByteSize_simps simp flip: length_0_conv)

text \<open>
  C23: on a paused game, whose memory does not change, the developer's test prints the same count four times, the
  number of aligned addresses of the process that hold the number one: after the first scan, after the
  dense next scan, after the undo and after the sparse next scan.
\<close>

theorem customTestFunc_counts:
  assumes "EnumGameProcesses (t_sort t) (t_sys t) [] = Some (p # ps)" "\<forall>n. sys n"
    and "t_opened t (p_PID p) = Some exe" "process_mapped (t_world t) mem (p_PID p) exe regions"
    and "calm (t_world t) mem (p_PID p)" "RegionsOptimize regions = Some out"
    and "list_all (\<lambda>r. length (region_matches mem (CmpValue test_value) r) \<le> regionResultsAllocCaps) out"
    and "dense_ready mem 4 (filter (aligned_holds mem (CmpValue test_value)) (covered_addrs regions))"
  shows "\<exists>n. customTestFunc t sys = Some (Some [n, n, n, n]) \<and>
    n = int (length (filter (aligned_holds mem (CmpValue test_value)) (covered_addrs regions)))"
proof -
  define pid where "pid = p_PID p"
  obtain m m' where m: "NewMemscan sys = Some m" "Open pid (Some exe) m = (True, m')" "ms_inv m'" "ms_proc m' = Some pid"
    "ms_maps m' = Some exe"
    using NewMemscan_ready [OF assms(2)] Open_ready [of _ pid exe] by fastforce
  have "mapped (t_world t) mem pid m' regions"
    using assms(4) m(4,5) by (simp add: mapped_process pid_def)
  from FirstScan_found [OF m(3) _ this test_value_typed(1) assms(6,7)] assms(5) obtain m1 where
    m1: "FirstScan (t_world t) test_value m' = Some m1" "engine_ready pid m1" "\<not> undoable (ms_view m1)"
      "found (ms_view m1) = filter (aligned_holds mem (CmpValue test_value)) (covered_addrs regions)"
    by (auto simp: engine_ready_def pid_def)
  have "dense_ready mem (Value_Size test_value) (found (ms_view m1))"
    using assms(8) by (simp add: m1(4) test_value_typed(2))
  from forced_scans [OF m1(2) assms(5) [folded pid_def] test_value_typed(1) _ m1(3,4) this] obtain m2 m3 m4 ok where
    "NextScanForceDense (t_world t) (Some test_value) m1 = Some m2" "UndoScan m2 = Some (ok, m3)"
    "NextScanForceSparse (t_world t) (Some test_value) m3 = Some m4"
    "Count m2 = Count m1" "Count m3 = Count m1" "Count m4 = Count m1"
    by (auto simp: test_value_typed(2))
  moreover have "Count m1 = int (length (found (ms_view m1)))"
    using m1(2) by (simp add: Count_view engine_ready_def)
  ultimately show ?thesis
    using m(1,2) m1(1) assms(1,3) by (simp add: customTestFunc_def index_def m1(4) flip: pid_def)
qed

text \<open>The example: the game of \<open>sample_system\<close>, with a one in the first word of its heap.\<close>

definition one_memory :: memory where
  "one_memory a = Some (if a = 0x1000 then 1 else 0)"

definition sample_terminal :: Terminal where
  "sample_terminal = \<lparr>t_sort = insertion_sort, t_sys = sample_system, t_maps = \<lambda>_. True, t_exe = \<lambda>_. Some ''/bin/game'', t_float = \<lambda>_ _. [],
     t_paint = id, t_duration = ''1s'', t_world = sample_world\<lparr>w_readv := sim_readv one_memory\<rparr>, t_writev = \<lambda>_ _ _ mem. ((0, None), mem)\<rparr>"

lemma one_memory_readable [simp]: "readable one_memory addrs"
  by (simp add: readable_def list_all_iff one_memory_def)

lemma sample_process_mapped:
  "\<exists>regions out. process_mapped (t_world sample_terminal) one_memory 8 ''/bin/game'' regions \<and> RegionsOptimize regions = Some out \<and>
     map strip regions = [sample_region 4096 12288 11 ''[heap]'', sample_region 28672 32768 11 []]"
proof -
  obtain regions out where r: "mapped sample_world sample_memory 1 (sample_engine []) regions" "RegionsOptimize regions = Some out"
    "map strip regions = [sample_region 4096 12288 11 ''[heap]'', sample_region 28672 32768 11 []]"
    using sample_mapped [of "[]"] by (elim exE conjE) (rule that; assumption)
  then have "process_mapped (t_world sample_terminal) one_memory 8 ''/bin/game'' regions"
    by (simp add: mapped_def process_mapped_def sample_terminal_def sample_engine_def sample_world_def)
  with r(2,3) show ?thesis by (intro exI conjI)
qed

lemma one_found:
  assumes "map strip regions = [sample_region 4096 12288 11 ''[heap]'', sample_region 28672 32768 11 []]"
  defines "found1 \<equiv> filter (aligned_holds one_memory (CmpValue test_value)) (covered_addrs regions)"
  shows "0x1000 \<in> set found1" "dense_ready one_memory 4 found1" "length found1 \<le> 12288"
proof -
  have cov: "covered_addrs regions = addr_range 4096 12288 @ addr_range 28672 32768"
    unfolding covered_addrs_strip [of regions, symmetric] assms(1)
    by (simp add: sample_region_def region_addrs_def)
  have "le_bytes 4 (1 :: 32 word) = [1, 0, 0, 0]" by code_simp
  then have "v_data test_value = [1, 0, 0, 0]" by (simp add: test_value_def NewInt32_def)
  then have "aligned_holds one_memory (CmpValue test_value) 0x1000"
    by (simp add: aligned_holds_def holds_def value_readable_def value_at_def contents_at_def iov_addrs_def upt_rec
        test_value_typed(2) Value_EqualBytes_def one_memory_def)
  then show "0x1000 \<in> set found1" by (simp add: found1_def cov set_addr_range)
  have "x < y" if "x < 12288" "28672 \<le> y" for x y :: u64
    using that by (simp add: word_less_nat_alt word_le_nat_alt)
  then have "sorted_wrt (<) (covered_addrs regions)"
    unfolding cov by (auto simp: sorted_wrt_append sorted_addr_range set_addr_range)
  moreover have "list_all (\<lambda>a. unat a < 2 ^ 63) (covered_addrs regions)"
    by (auto simp: cov list_all_iff set_addr_range word_less_nat_alt)
  ultimately show "dense_ready one_memory 4 found1"
    by (auto simp: dense_ready_def found1_def size_aligned_def list_all_iff sorted_wrt_filter aligned_holds_def test_value_typed(2))
  have "length (covered_addrs regions) = 12288" by (simp add: cov length_addr_range)
  then show "length found1 \<le> 12288" unfolding found1_def by (metis length_filter_le)
qed

theorem customTestFunc_counts_witness:
  "\<exists>n. 0 < n \<and> customTestFunc sample_terminal (\<lambda>_. True) = Some (Some [n, n, n, n])"
proof -
  define game where "game = sample_process 8 ''game'' 7 ''game''"
  have game: "p_PID game = 8" by (simp add: game_def sample_process_def)
  have listed: "EnumGameProcesses (t_sort sample_terminal) (t_sys sample_terminal) [] = Some [game]"
    using sample_games(2) by (simp add: sample_terminal_def game_def)
  obtain regions out where r: "process_mapped (t_world sample_terminal) one_memory 8 ''/bin/game'' regions"
    "RegionsOptimize regions = Some out"
    "map strip regions = [sample_region 4096 12288 11 ''[heap]'', sample_region 28672 32768 11 []]"
    using sample_process_mapped by (elim exE conjE) (rule that; assumption)
  note one = one_found [OF r(3)]
  have wf: "list_all wf_region regions" "list_all paged_region regions" using r(1) by (simp_all add: process_mapped_def)
  from RegionsOptimize_correct [OF wf(1)] r(2) wf(2)
  have out: "covered_addrs out = covered_addrs regions" "list_all piece_ok out" "list_all paged_region out" by auto
  from out(2) have "list_all wf_region out" by (auto simp: piece_ok_def elim!: list.pred_mono_strong)
  from all_matches [OF this out(3)] typed_value_size [OF test_value_typed(1)]
  have all: "concat (map (region_matches one_memory (CmpValue test_value)) out) =
      filter (aligned_holds one_memory (CmpValue test_value)) (covered_addrs regions)"
    by (simp add: out(1))
  have total: "sum_list (map (\<lambda>r. length (region_matches one_memory (CmpValue test_value) r)) out) \<le> 12288"
    using one(3) unfolding all [symmetric] length_concat by (simp add: comp_def)
  have fit: "list_all (\<lambda>r. length (region_matches one_memory (CmpValue test_value) r) \<le> regionResultsAllocCaps) out"
    unfolding list_all_iff regionResultsAllocCaps_val
  proof
    fix r assume "r \<in> set out"
    then have "length (region_matches one_memory (CmpValue test_value) r) \<le>
        sum_list (map (\<lambda>r. length (region_matches one_memory (CmpValue test_value) r)) out)"
      by (intro member_le_sum_list) simp_all
    with total show "length (region_matches one_memory (CmpValue test_value) r) \<le> 262144" by simp
  qed
  have calm: "calm (t_world sample_terminal) one_memory 8"
    by (simp add: calm_def sample_terminal_def sample_world_def sim_readv_reads)
  have opened: "t_opened sample_terminal 8 = Some ''/bin/game''" by (simp add: sample_terminal_def t_opened_def OpenMaps_def)
  from customTestFunc_counts [OF listed, of "\<lambda>_. True", unfolded game, OF _ opened r(1) calm r(2) fit one(2)] one(1) show ?thesis
    by (fastforce simp: length_greater_0_conv dest: length_pos_if_in_set)
qed

end
