(* ===== verification/Value_Life.thy ===== *)
theory Value_Life
  imports Rounded_Float
begin

text \<open>
  The life of a value (\<^verbatim>\<open>scanner/value.go\<close>): whatever a program makes of a value by the operations of its package, the
  operations that read it find it well-typed.
\<close>

text \<open>
  A value comes from a constructor, or is the zero value, and is changed by the operations; a text that does not
  parse changes it as well.
\<close>

inductive made_value :: "Value \<Rightarrow> bool" where
  zero: "made_value \<lparr>v_typ = 0, v_data = [], v_option = 0\<rparr>"
| int8: "made_value (NewInt8 i8)"
| int16: "made_value (NewInt16 i16)"
| int32: "made_value (NewInt32 i32)"
| int64: "made_value (NewInt64 i64)"
| float32: "made_value (NewFloat32 x args)"
| float64: "made_value (NewFloat64 x args)"
| bytes: "made_value (NewBytes b)"
| set_type: "made_value v \<Longrightarrow> made_value (SetType t v)"
| set_bytes: "made_value v \<Longrightarrow> made_value (SetBytes b v)"
| with_option: "made_value v \<Longrightarrow> made_value (WithOption opt v)"
| from_string: "made_value v \<Longrightarrow> FromString s v = Some (err, v') \<Longrightarrow> made_value v'"

lemma FromString_wf:
  assumes "wf_value v"
  shows "\<exists>err v'. FromString s v = Some (err, v') \<and> wf_value v'"
  using assms
  by (cases "v_typ v = Bytes")
    (auto simp: FromString_def is_float_type_def FromString_store wf_value_le_bytes ByteSize_simps BitSize_def Let_def
      wf_value_def split: prod.splits option.splits)

lemma made_value_wf: "made_value v \<Longrightarrow> wf_value v"
proof (induction rule: made_value.induct)
  case zero
  show ?case by (simp add: wf_value_def)
next
  case (from_string v s err v')
  with FromString_wf [of v s] show ?case by auto
qed (simp_all add: wf_value_constructors wf_value_updates)

lemma ToRaw_own:
  assumes "wf_value v"
  shows "ToRaw (v_typ v) v \<noteq> None"
  using assms
  by (auto simp: ToRaw_def wf_value_def Let_def ByteSize_simps Uint_def index_def length_copy_at)

text \<open>Read at any type: only a float asked of fewer bytes than it has panics.\<close>

lemma ToRaw_panics: "ToRaw t v = None \<longleftrightarrow> t = Float32 \<and> length (v_data v) < 4 \<or> t = Float64 \<and> length (v_data v) < 8"
  by (auto simp: ToRaw_def Let_def ByteSize_simps Uint_def index_def length_copy_at)

text \<open>
  C22: of a value that comes from any constructors, changes of type, bytes and option and parsed texts, the size is the
  number of its bytes, and parsing into it, taking its \<open>ValueComparable\<close>, and reading and printing it at its own type do not
  panic. Exactly two readings can panic: as another type, where it is read or printed as a \<open>Float32\<close> of fewer than
  four bytes or a \<open>Float64\<close> of fewer than eight; and of a value without a byte, where the disturbing byte is taken.
\<close>

theorem made_values_sound:
  assumes "made_value v"
  shows "Value_Size v = length (v_data v) \<and> (\<forall>s. FromString s v \<noteq> None) \<and> Value_Comparable v \<noteq> None \<and>
    ToRaw (v_typ v) v \<noteq> None \<and> (\<forall>sf. Format sf [] v \<noteq> None) \<and>
    (\<forall>t. ToRaw t v = None \<longleftrightarrow> t = Float32 \<and> length (v_data v) < 4 \<or> t = Float64 \<and> length (v_data v) < 8) \<and>
    (\<forall>sf t. Format sf [t] v = None \<longleftrightarrow> t = Float32 \<and> length (v_data v) < 4 \<or> t = Float64 \<and> length (v_data v) < 8) \<and>
    (Value_DisturbingByte v = None \<longleftrightarrow> v_data v = [])"
proof (intro conjI allI)
  have wf: "wf_value v" by (rule made_value_wf [OF assms])
  show "Value_Size v = length (v_data v)" by (rule wf_value_Size [OF wf])
  show "FromString s v \<noteq> None" for s using FromString_wf [OF wf, of s] by auto
  show own: "ToRaw (v_typ v) v \<noteq> None" by (rule ToRaw_own [OF wf])
  then show "Format sf [] v \<noteq> None" for sf by (simp add: Format_def Let_def)
  show "ToRaw t v = None \<longleftrightarrow> t = Float32 \<and> length (v_data v) < 4 \<or> t = Float64 \<and> length (v_data v) < 8" for t
    by (rule ToRaw_panics)
  show "Format sf [t] v = None \<longleftrightarrow> t = Float32 \<and> length (v_data v) < 4 \<or> t = Float64 \<and> length (v_data v) < 8" for sf t
    using ToRaw_panics [of t v] by (auto simp: Format_def Let_def)
  show "Value_DisturbingByte v = None \<longleftrightarrow> v_data v = []"
    by (simp add: Value_DisturbingByte_def index_def)
  show "Value_Comparable v \<noteq> None"
  proof (cases "HasOption v")
    case True
    then have "v_typ v = Float32 \<or> v_typ v = Float64" by (auto simp: HasOption_def is_float_type_def split: if_splits)
    with own show ?thesis
      by (auto simp: Value_Comparable_def newRoundedFloat32_def newRoundedFloat64_def ToRaw_def ByteSize_simps Let_def
          split: prod.splits)
  qed (simp add: Value_Comparable_def)
qed

text \<open>The example: a fresh value set to 64-bit floats, given an option and a text.\<close>

theorem made_values_sound_witness:
  "\<exists>v. made_value v \<and> v_typ v = Float64 \<and> Value_Size v = 8 \<and> Value_Comparable v \<noteq> None"
proof -
  define v where "v = WithOption OptionFloatRounded (SetType Float64 \<lparr>v_typ = 0, v_data = [], v_option = 0\<rparr>)"
  have made: "made_value v" unfolding v_def by (intro made_value.intros)
  have "v_typ v = Float64" "length (v_data v) = 8" by (simp_all add: v_def WithOption_def SetType_def ByteSize_simps)
  with made_values_sound [OF made] made show ?thesis by auto
qed

end
