(* ===== verification/Semaphore_Pool.thy ===== *)
theory Semaphore_Pool
  imports Task_Pool
begin

text \<open>
  The loop that starts the tasks of a scan beside the tasks it has started (\<^verbatim>\<open>FirstScan\<close>, \<^verbatim>\<open>nextScanDense\<close>,
  \<^verbatim>\<open>nextScanSparse\<close>): a task is started when the semaphore has a permit, which it gives back when it ends, and the
  scan goes on when the loop has ended and no task is left. The semaphore counts: it lets the
  loop through as long as fewer than \<open>scanMaxGoroutines\<close> permits are held, and gives an error only when
  the context is cancelled.
\<close>

definition scanMaxGoroutines :: nat where
  "scanMaxGoroutines = 2048"

record Pool =
  pl_next :: nat
  pl_running :: "nat set"
  pl_bufs :: buffers
  pl_stopped :: bool

definition pool_init :: "nat \<Rightarrow> Pool" where
  "pool_init n = \<lparr>pl_next = 0, pl_running = {}, pl_bufs = replicate n None, pl_stopped = False\<rparr>"

inductive pool_step :: "bool \<Rightarrow> (nat \<Rightarrow> MmapUint64 option go) \<Rightarrow> nat \<Rightarrow> Pool \<Rightarrow> Pool \<Rightarrow> bool"
  for cancelled task n where
  start: "\<not> pl_stopped p \<Longrightarrow> pl_next p < n \<Longrightarrow> card (pl_running p) < scanMaxGoroutines \<Longrightarrow>
    pool_step cancelled task n p (p\<lparr>pl_next := pl_next p + 1, pl_running := insert (pl_next p) (pl_running p)\<rparr>)"
| stop: "cancelled \<Longrightarrow> \<not> pl_stopped p \<Longrightarrow> pl_next p < n \<Longrightarrow> pool_step cancelled task n p (p\<lparr>pl_stopped := True\<rparr>)"
| finish: "i \<in> pl_running p \<Longrightarrow> task i = Some out \<Longrightarrow>
    pool_step cancelled task n p (p\<lparr>pl_running := pl_running p - {i}, pl_bufs := store_outcome i out (pl_bufs p)\<rparr>)"

text \<open>What the loop and \<open>Wait\<close> leave behind them.\<close>

definition pool_done :: "nat \<Rightarrow> Pool \<Rightarrow> bool" where
  "pool_done n p \<longleftrightarrow> (pl_stopped p \<or> pl_next p = n) \<and> pl_running p = {}"

text \<open>Every step uses up some of what is left to do.\<close>

definition pool_left :: "nat \<Rightarrow> Pool \<Rightarrow> nat" where
  "pool_left n p = 2 * (n - pl_next p) + card (pl_running p) + (if pl_stopped p then 0 else 1)"

definition pool_inv :: "bool \<Rightarrow> (nat \<Rightarrow> MmapUint64 option go) \<Rightarrow> nat \<Rightarrow> Pool \<Rightarrow> bool" where
  "pool_inv cancelled task n p \<longleftrightarrow> pl_next p \<le> n \<and> pl_running p \<subseteq> {..<pl_next p} \<and>
     card (pl_running p) \<le> scanMaxGoroutines \<and> (pl_stopped p \<longrightarrow> cancelled) \<and>
     pl_bufs p = outcomes task (pl_next p) n (pl_running p)"

lemma pool_inv_finite: "pool_inv cancelled task n p \<Longrightarrow> finite (pl_running p)"
  by (auto simp: pool_inv_def intro: finite_subset)

lemma outcomes_started: "outcomes task (Suc k) n (insert k running) = outcomes task k n running"
  by (auto simp: outcomes_def less_Suc_eq)

lemma card_insert_Suc: "card (insert (pl_next p) (pl_running p)) \<le> Suc (card (pl_running p))"
  by (rule card_insert_le_m1) simp_all

lemma pool_step_inv:
  assumes "pool_step cancelled task n p p'" "pool_inv cancelled task n p"
  shows "pool_inv cancelled task n p'"
  using assms(1)
proof cases
  case start
  then show ?thesis using assms(2) card_insert_Suc [of p] by (auto simp: pool_inv_def outcomes_started less_Suc_eq)
next
  case stop
  with assms(2) show ?thesis by (simp add: pool_inv_def)
next
  case (finish i out)
  moreover have "card (pl_running p - {i}) \<le> card (pl_running p)" by (rule card_Diff1_le)
  moreover have "i < pl_next p" using finish(2) assms(2) by (auto simp: pool_inv_def)
  ultimately show ?thesis
    using assms(2) store_outcomes [of i "pl_running p" task out "pl_next p" n] by (auto simp: pool_inv_def)
qed

lemma pool_reachable_inv:
  assumes "(pool_step cancelled task n)\<^sup>*\<^sup>* (pool_init n) p"
  shows "pool_inv cancelled task n p"
  using assms
proof (induction rule: rtranclp_induct)
  case base
  show ?case by (auto simp: pool_inv_def pool_init_def outcomes_def intro!: nth_equalityI)
next
  case (step p p')
  then show ?case by (blast intro: pool_step_inv)
qed

lemma pool_step_left:
  assumes "pool_step cancelled task n p p'" "pool_inv cancelled task n p"
  shows "pool_left n p' < pool_left n p"
  using assms(1)
proof cases
  case start
  then show ?thesis using card_insert_Suc [of p] by (simp add: pool_left_def)
next
  case stop
  then show ?thesis by (simp add: pool_left_def)
next
  case (finish i out)
  moreover have "card (pl_running p - {i}) < card (pl_running p)"
    using pool_inv_finite [OF assms(2)] finish(2) by (rule card_Diff1_less)
  ultimately show ?thesis by (simp add: pool_left_def)
qed

lemma pool_progress:
  assumes "\<forall>i < n. task i \<noteq> None" "pool_inv cancelled task n p" "\<not> pool_done n p"
  shows "\<exists>p'. pool_step cancelled task n p p'"
proof (cases "pl_running p = {}")
  case True
  with assms(2,3) have "\<not> pl_stopped p" "pl_next p < n" "card (pl_running p) < scanMaxGoroutines"
    by (auto simp: pool_done_def pool_inv_def scanMaxGoroutines_def)
  then show ?thesis by (blast intro: pool_step.start)
next
  case False
  then obtain i where "i \<in> pl_running p" by blast
  moreover from this assms(2) have "i < n" by (auto simp: pool_inv_def)
  ultimately show ?thesis using assms(1) by (blast intro: pool_step.finish)
qed

text \<open>
  C11: a scan whose tasks do not panic comes to its end, whatever the order in which they run: in every state the loop
  and the tasks reach at most \<open>scanMaxGoroutines\<close> tasks run, there is a next step unless the loop has ended and no
  task is left, and every step lessens a measure that starts at \<open>2 * n + 1\<close>; and at the end the buffers are those of
  running the started tasks one after the other, which are all of them unless the scan was cancelled.
\<close>

theorem pool_finishes:
  assumes "\<forall>i < n. task i \<noteq> None" "(pool_step cancelled task n)\<^sup>*\<^sup>* (pool_init n) p"
  shows "card (pl_running p) \<le> scanMaxGoroutines \<and> pool_left n (pool_init n) = 2 * n + 1 \<and>
    (\<forall>p'. pool_step cancelled task n p p' \<longrightarrow> pool_left n p' < pool_left n p) \<and>
    (if pool_done n p then run_tasks task (pl_next p) n = Some (pl_bufs p) \<and> (cancelled \<or> pl_next p = n)
     else (\<exists>p'. pool_step cancelled task n p p'))"
proof -
  have inv: "pool_inv cancelled task n p" by (rule pool_reachable_inv [OF assms(2)])
  have "run_tasks task (pl_next p) n = Some (pl_bufs p) \<and> (cancelled \<or> pl_next p = n)" if "pool_done n p"
    using that inv run_tasks_outcomes [of "pl_next p" task n] assms(1) by (auto simp: pool_inv_def pool_done_def)
  moreover have "pool_left n (pool_init n) = 2 * n + 1" by (simp add: pool_left_def pool_init_def)
  moreover have "card (pl_running p) \<le> scanMaxGoroutines" using inv by (simp add: pool_inv_def)
  ultimately show ?thesis using pool_progress [OF assms(1) inv] pool_step_left [OF _ inv] by simp
qed

text \<open>Three tasks that find nothing, of which the second has been started.\<close>

theorem pool_finishes_witness:
  "\<exists>p. (pool_step False (\<lambda>_. Some None) 3)\<^sup>*\<^sup>* (pool_init 3) p \<and> pl_running p = {0, 1} \<and>
    (\<exists>p'. pool_step False (\<lambda>_. Some None) 3 p p')"
proof -
  let ?p = "\<lparr>pl_next = 2, pl_running = {0, 1}, pl_bufs = replicate 3 None, pl_stopped = False\<rparr>"
  have "pool_step False (\<lambda>_. Some None) 3 (pool_init 3) ((pool_init 3)\<lparr>pl_next := 1, pl_running := {0}\<rparr>)"
    using pool_step.start [of "pool_init 3" 3 False "\<lambda>_. Some None"] by (simp add: pool_init_def scanMaxGoroutines_def)
  moreover have "pool_step False (\<lambda>_. Some None) 3 ((pool_init 3)\<lparr>pl_next := 1, pl_running := {0}\<rparr>) ?p"
    using pool_step.start [of "(pool_init 3)\<lparr>pl_next := 1, pl_running := {0}\<rparr>" 3 False "\<lambda>_. Some None"]
    by (simp add: pool_init_def scanMaxGoroutines_def insert_commute numeral_2_eq_2)
  ultimately have steps: "(pool_step False (\<lambda>_. Some None) 3)\<^sup>*\<^sup>* (pool_init 3) ?p" by (meson r_into_rtranclp rtranclp_trans)
  have "\<not> pool_done 3 ?p" by (simp add: pool_done_def)
  with pool_finishes [OF _ steps] have "\<exists>p'. pool_step False (\<lambda>_. Some None) 3 ?p p'" by simp
  with steps show ?thesis by (intro exI [of _ ?p]) simp
qed

end
