(* ===== verification/Signals.thy ===== *)
theory Signals
  imports Scan_Results
begin

text \<open>
  Stopping the process during a first scan (\<^verbatim>\<open>FirstScan\<close> with \<^verbatim>\<open>Process.Pause\<close> and \<^verbatim>\<open>Resume\<close>): the signals a call
  sends. The process is stopped before the maps are read, unless the caller says that it is already, and the
  deferred \<open>Resume\<close> runs however the function ends, by a panic too; but a panic in the goroutine of a task
  ends the program at once, and nothing deferred elsewhere runs.
\<close>

datatype signal = SIGSTOP | SIGCONT

definition ProcessPause :: "int \<Rightarrow> int \<times> signal" where
  "ProcessPause pid = (pid, SIGSTOP)"

definition ProcessResume :: "int \<Rightarrow> int \<times> signal" where
  "ProcessResume pid = (pid, SIGCONT)"

section \<open>Runs\<close>

text \<open>
  What a call leaves behind: the signals it sent and the stages it began, in order, and how it ended. A \<open>Panicked\<close> call unwinds and runs
  what it deferred; a panic in the goroutine of a task has \<open>Killed\<close> the whole program, and nothing runs any more.
\<close>

datatype event = Sent "int \<times> signal" | Reading_Maps | Running_Tasks | Merging

datatype 'a ending = Returned 'a | Panicked | Killed

type_synonym 'a run = "event list \<times> 'a ending"

definition does :: "event \<Rightarrow> unit run" where
  "does e = ([e], Returned ())"

definition and_then :: "'a run \<Rightarrow> ('a \<Rightarrow> 'b run) \<Rightarrow> 'b run" where
  "and_then r f =
     (case r of
        (log, Returned x) \<Rightarrow> (case f x of (log', ending) \<Rightarrow> (log @ log', ending))
      | (log, Panicked) \<Rightarrow> (log, Panicked)
      | (log, Killed) \<Rightarrow> (log, Killed))"

definition deferring :: "event \<Rightarrow> 'a run \<Rightarrow> 'a run" where
  "deferring e r = (case r of (log, ending) \<Rightarrow> (case ending of Killed \<Rightarrow> log | _ \<Rightarrow> log @ [e], ending))"

text \<open>Steps of the function's own goroutine, and those of the tasks it waits for.\<close>

definition here :: "'a go \<Rightarrow> 'a run" where
  "here x = (case x of None \<Rightarrow> ([], Panicked) | Some y \<Rightarrow> ([], Returned y))"

definition in_tasks :: "'a go \<Rightarrow> 'a run" where
  "in_tasks x = (case x of None \<Rightarrow> ([], Killed) | Some y \<Rightarrow> ([], Returned y))"

definition ended :: "'a run \<Rightarrow> 'a go" where
  "ended r = (case snd r of Returned x \<Rightarrow> Some x | _ \<Rightarrow> None)"

fun signals_sent :: "event list \<Rightarrow> (int \<times> signal) list" where
  "signals_sent [] = []"
| "signals_sent (Sent s # log) = s # signals_sent log"
| "signals_sent (_ # log) = signals_sent log"

lemma ended_simps:
  "ended (and_then r f) = do { x \<leftarrow> ended r; ended (f x) }" "ended (deferring e r) = ended r"
  "ended (here x) = x" "ended (in_tasks x) = x" "ended (does e) = Some ()" "ended (log, Returned y) = Some y"
  by (auto simp: ended_def and_then_def deferring_def here_def in_tasks_def does_def split: prod.splits ending.splits option.splits)

section \<open>The first scan\<close>

text \<open>The regions and the scanner, with which the tasks are started.\<close>

definition first_tasks_of :: "World \<Rightarrow> Value \<Rightarrow> Memscan \<Rightarrow> (nat \<times> (nat \<Rightarrow> MmapUint64 option go)) go" where
  "first_tasks_of w value m = do {
     exe \<leftarrow> ms_maps m;
     regions \<leftarrow> Maps_Parse exe (w_maps w) [REGION_ALL_RW];
     regions \<leftarrow> RegionsOptimize regions;
     scan \<leftarrow> NewScanner value;
     pid \<leftarrow> ms_proc m;
     Some (length regions, \<lambda>i. taskFirstScan (w_task_sys w i) (w_ctx w i) (w_readv w) pid scan (regions ! i))
   }"

text \<open>The body between the deferred \<open>Resume\<close> and the return: maps, tasks, the wait for them, and the merging of their buffers.\<close>

definition FirstScan_body :: "World \<Rightarrow> Value \<Rightarrow> Memscan \<Rightarrow> MmapUint64 \<Rightarrow> Memscan run" where
  "FirstScan_body w value m results =
     and_then (does Reading_Maps) (\<lambda>_.
     and_then (here (first_tasks_of w value m)) (\<lambda>(n, task).
     and_then (does Running_Tasks) (\<lambda>_.
     and_then (in_tasks (run_tasks task (launched w n) n)) (\<lambda>bufs.
     and_then (does Merging) (\<lambda>_.
     and_then (here (merge_buffers (w_sys w) bufs results)) (\<lambda>results.
     ([], Returned (m\<lparr>ms_round := ms_round m + 1, ms_results := Some results\<rparr>))))))))"

definition FirstScan_run :: "World \<Rightarrow> bool list \<Rightarrow> Value \<Rightarrow> Memscan \<Rightarrow> Memscan run" where
  "FirstScan_run w args value m =
     (let m = Reset m in
      case ms_results m of
        None \<Rightarrow> ([], Returned m)
      | Some results \<Rightarrow>
          (case ms_proc m of
             None \<Rightarrow> ([], Returned (Close m))
           | Some pid \<Rightarrow>
               if \<not> w_alive w pid then ([], Returned (Close m))
               else
                 let processPaused = (if args \<noteq> [] then hd args else False) in
                 if \<not> processPaused
                 then and_then (does (Sent (ProcessPause pid))) (\<lambda>_.
                        deferring (Sent (ProcessResume pid)) (FirstScan_body w value m results))
                 else FirstScan_body w value m results))"

definition FirstScan_signals :: "World \<Rightarrow> bool list \<Rightarrow> Value \<Rightarrow> Memscan \<Rightarrow> (int \<times> signal) list" where
  "FirstScan_signals w args value m = signals_sent (fst (FirstScan_run w args value m))"

text \<open>The run ends as the function without its signals does.\<close>

lemma FirstScan_ended: "ended (FirstScan_run w args value m) = FirstScan w value m"
  by (auto simp: FirstScan_run_def FirstScan_body_def FirstScan_def first_tasks_of_def Let_def ended_simps
      split: option.splits Option.bind_splits)

lemma Reset_target: "ms_proc (Reset m) = ms_proc m" "ms_maps (Reset m) = ms_maps m"
  by (simp_all add: Reset_def Cancel_def)

lemma ms_inv_results: "ms_inv m \<Longrightarrow> \<exists>r. ms_results (Reset m) = Some r"
  using Reset_empty [of m] by (auto simp: ms_inv_def)

lemma typed_tasks_run:
  assumes "ms_inv m" "calm w mem pid" "mapped w mem pid m regions" "typed_value v cmp"
  shows "\<exists>n task bufs. first_tasks_of w v (Reset m) = Some (n, task) \<and> run_tasks task (launched w n) n = Some bufs"
proof -
  have v: "wf_value v" "v_data v \<noteq> []" "Aligned v" "Value_Comparable v = Some cmp"
    using assms(4) by (simp_all add: typed_value_def)
  obtain exe where m: "ms_proc m = Some pid" "ms_maps m = Some exe" "Maps_Parse exe (w_maps w) [REGION_ALL_RW] = Some regions"
    "list_all wf_region regions" "readable mem (covered_addrs regions)"
    using assms(3) by (auto simp: mapped_def)
  from RegionsOptimize_correct [OF m(4)] obtain out where
    out: "RegionsOptimize regions = Some out" "covered_addrs out = covered_addrs regions" "list_all piece_ok out" by auto
  obtain scan where scan: "NewScanner v = Some scan" using NewScanner_total [OF v(1,2)] by blast
  from first_tasks [OF assms(2) out(3) _ v(1-3) scan v(4)] m(5) out(2) obtain bufs where
    "run_tasks (\<lambda>i. taskFirstScan (w_task_sys w i) (w_ctx w i) (w_readv w) pid scan (out ! i)) (length out) (length out) = Some bufs"
    by auto
  with m(1-3) out(1) scan assms(2) show ?thesis
    by (simp add: first_tasks_of_def Reset_target launched_all calm_def)
qed

text \<open>The log of a run whose tasks come to their end: the merging may panic, and the process is resumed after it.\<close>

lemma FirstScan_run_tasks:
  assumes "ms_results (Reset m) = Some r" "ms_proc m = Some pid" "w_alive w pid"
    and "first_tasks_of w v (Reset m) = Some (n, task)" "run_tasks task (launched w n) n = Some bufs"
  shows "FirstScan_run w args v m =
    ((if args \<noteq> [] \<and> hd args then [] else [Sent (pid, SIGSTOP)]) @ [Reading_Maps, Running_Tasks, Merging] @
       (if args \<noteq> [] \<and> hd args then [] else [Sent (pid, SIGCONT)]),
     case FirstScan w v m of None \<Rightarrow> Panicked | Some m' \<Rightarrow> Returned m')"
proof -
  define body where "body = FirstScan_body w v (Reset m) r"
  have body: "fst body = [Reading_Maps, Running_Tasks, Merging]" "snd body \<noteq> Killed"
    by (auto simp: body_def FirstScan_body_def and_then_def does_def here_def in_tasks_def assms(4,5) split: option.splits)
  have run: "FirstScan_run w args v m =
    (if args \<noteq> [] \<and> hd args then body
     else and_then (does (Sent (pid, SIGSTOP))) (\<lambda>_. deferring (Sent (pid, SIGCONT)) body))"
    using assms(1-3) by (simp add: FirstScan_run_def Reset_target ProcessPause_def ProcessResume_def flip: body_def)
  have log: "fst (FirstScan_run w args v m) = (if args \<noteq> [] \<and> hd args then [] else [Sent (pid, SIGSTOP)]) @
      [Reading_Maps, Running_Tasks, Merging] @ (if args \<noteq> [] \<and> hd args then [] else [Sent (pid, SIGCONT)])"
    and alive: "snd (FirstScan_run w args v m) \<noteq> Killed"
    using body unfolding run
    by (cases body; cases "snd body"; simp add: and_then_def does_def deferring_def)+
  moreover have "snd (FirstScan_run w args v m) = (case FirstScan w v m of None \<Rightarrow> Panicked | Some m' \<Rightarrow> Returned m')"
    using alive
    by (cases "snd (FirstScan_run w args v m)") (simp_all add: ended_def flip: FirstScan_ended [of w args v m])
  ultimately show ?thesis by (simp add: prod_eq_iff)
qed

text \<open>
  C26: a first scan of a value of a number type, over mappings of whole readable pages, at most 2^57 bytes, with nothing failing outside, stops the live process
  before it reads the maps and resumes it after merging the buffers, once each, or sends nothing when the caller has stopped the process. It
  does so too when the merging panics, which is exactly when a region has more matches than its task's buffer has room for.
\<close>

theorem FirstScan_resumes:
  assumes "ms_inv m" "calm w mem pid" "mapped w mem pid m regions" "typed_value v cmp" "RegionsOptimize regions = Some out"
  shows "fst (FirstScan_run w args v m) = (if args \<noteq> [] \<and> hd args then [] else [Sent (pid, SIGSTOP)]) @
      [Reading_Maps, Running_Tasks, Merging] @ (if args \<noteq> [] \<and> hd args then [] else [Sent (pid, SIGCONT)])
    \<and> FirstScan_signals w args v m = (if args \<noteq> [] \<and> hd args then [] else [(pid, SIGSTOP), (pid, SIGCONT)])
    \<and> snd (FirstScan_run w args v m) =
        (if list_all (\<lambda>r. length (region_matches mem cmp r) \<le> regionResultsAllocCaps) out
         then Returned (the (FirstScan w v m)) else Panicked)"
proof -
  obtain n task bufs where "first_tasks_of w v (Reset m) = Some (n, task)" "run_tasks task (launched w n) n = Some bufs"
    using typed_tasks_run [OF assms(1-4)] by (elim exE conjE) (rule that; assumption)
  moreover obtain r where "ms_results (Reset m) = Some r" using ms_inv_results [OF assms(1)] by blast
  moreover have "ms_proc m = Some pid" "w_alive w pid" using assms(3) by (simp_all add: mapped_def)
  ultimately have run: "FirstScan_run w args v m =
    ((if args \<noteq> [] \<and> hd args then [] else [Sent (pid, SIGSTOP)]) @ [Reading_Maps, Running_Tasks, Merging] @
       (if args \<noteq> [] \<and> hd args then [] else [Sent (pid, SIGCONT)]),
     case FirstScan w v m of None \<Rightarrow> Panicked | Some m' \<Rightarrow> Returned m')"
    by (intro FirstScan_run_tasks)
  show ?thesis
    using FirstScan_overfull [OF assms] FirstScan_found [OF assms]
    by (auto simp: FirstScan_signals_def run)
qed

theorem FirstScan_resumes_witness:
  "FirstScan_signals sample_world [] (NewInt32 7) (sample_engine []) = [(1, SIGSTOP), (1, SIGCONT)] \<and>
    FirstScan_signals sample_world [True] (NewInt32 7) (sample_engine []) = [] \<and>
    FirstScan_run sevens_world [] (NewInt8 7) (sample_engine []) =
      ([Sent (1, SIGSTOP), Reading_Maps, Running_Tasks, Merging, Sent (1, SIGCONT)], Panicked)"
proof -
  have inv: "ms_inv (sample_engine [])" by (simp add: sample_engine_ready)
  obtain regions out where r: "mapped sample_world sample_memory 1 (sample_engine []) regions" "RegionsOptimize regions = Some out"
    using sample_mapped [of "[]"] by (elim exE conjE) (rule that; assumption)
  obtain regions' out' r' where o: "mapped sevens_world (\<lambda>_. Some 7) 1 (sample_engine []) regions'" "calm sevens_world (\<lambda>_. Some 7) 1"
    "typed_value (NewInt8 7) (CmpValue (NewInt8 7))" "RegionsOptimize regions' = Some out'" "r' \<in> set out'"
    "regionResultsAllocCaps < length (region_matches (\<lambda>_. Some 7) (CmpValue (NewInt8 7)) r')"
    using sevens_overfull by (elim exE conjE) (rule that; assumption)
  from o(5,6) have "\<not> list_all (\<lambda>r. length (region_matches (\<lambda>_. Some 7) (CmpValue (NewInt8 7)) r) \<le> regionResultsAllocCaps) out'"
    by (force simp: list_all_iff)
  with FirstScan_resumes [OF inv o(2,1,3,4), of "[]"] FirstScan_resumes [OF inv sample_calm r(1) sample_value(1) r(2)]
  show ?thesis by (simp add: prod_eq_iff)
qed

text \<open>
  C27: a first scan of an empty byte string, which the console accepts, panics in the goroutine of a task, where the
  buffer for a value cut off by a chunk would have length -1: the program ends with the process stopped.
\<close>

theorem FirstScan_freezes:
  assumes "ms_inv m" "calm w mem pid" "mapped w mem pid m regions" "covered_addrs regions \<noteq> []" "v_typ v = Bytes" "v_data v = []"
  shows "FirstScan w v m = None \<and> FirstScan_signals w [] v m = [(pid, SIGSTOP)]"
proof -
  obtain exe where m: "ms_proc m = Some pid" "w_alive w pid" "ms_maps m = Some exe"
    "Maps_Parse exe (w_maps w) [REGION_ALL_RW] = Some regions" "list_all wf_region regions"
    using assms(3) by (auto simp: mapped_def)
  from RegionsOptimize_correct [OF m(5)] obtain out where
    out: "RegionsOptimize regions = Some out" "covered_addrs out = covered_addrs regions" by auto
  with assms(4) have "0 < length out" by (cases out) auto
  define scan where "scan = \<lparr>sc_value = v, sc_bufSize = round_size 4 defScanBufferSize, sc_rf32 = None, sc_rf64 = None\<rparr>"
  have scan: "NewScanner v = Some scan"
    using assms(5,6) by (simp add: NewScanner_def NewScannerBuffer_def Let_def HasOption_def is_float_type_def Value_Size_def
        scan_def)
  define task where "task i = taskFirstScan (w_task_sys w i) (w_ctx w i) (w_readv w) pid scan (out ! i)" for i
  have "Value_Size v = 0" using assms(5,6) by (simp add: Value_Size_def)
  then have "task 0 = None"
    using assms(2) by (auto simp: task_def taskFirstScan_def NewMmapUint64_def regionResultsAllocCaps_val ScanCollector_def scan_def
        scanBytes_def calm_def Let_def)
  with \<open>0 < length out\<close> have run: "run_tasks task (length out) (length out) = None"
    by (rule run_tasks_panics [of 0])
  have tasks: "first_tasks_of w v (Reset m) = Some (length out, task)"
    using m out(1) scan by (simp add: first_tasks_of_def Reset_target task_def [abs_def])
  obtain r where "ms_results (Reset m) = Some r" using ms_inv_results [OF assms(1)] by blast
  with m(1,2) tasks run assms(2)
  have "FirstScan_run w [] v m = ([Sent (pid, SIGSTOP), Reading_Maps, Running_Tasks], Killed)"
    by (simp add: FirstScan_run_def FirstScan_body_def Reset_target ProcessPause_def launched_all calm_def and_then_def does_def here_def
        in_tasks_def deferring_def)
  with FirstScan_ended [of w "[]" v m] show ?thesis
    by (simp add: FirstScan_signals_def ended_def)
qed

theorem FirstScan_freezes_witness:
  "FirstScan sample_world (NewBytes []) (sample_engine []) = None \<and>
    FirstScan_signals sample_world [] (NewBytes []) (sample_engine []) = [(1, SIGSTOP)]"
proof -
  obtain regions where r: "mapped sample_world sample_memory 1 (sample_engine []) regions"
    "map strip regions = [sample_region 4096 12288 11 ''[heap]'', sample_region 28672 32768 11 []]"
    using sample_mapped [of "[]"] by (elim exE conjE) (rule that; assumption)
  have "0x1000 \<in> set (covered_addrs regions)"
    unfolding covered_addrs_strip [of regions, symmetric] r(2)
    by (simp add: sample_region_def region_addrs_def set_addr_range)
  then have "covered_addrs regions \<noteq> []" by auto
  moreover have "ms_inv (sample_engine [])" by (simp add: sample_engine_ready)
  ultimately show ?thesis
    using FirstScan_freezes [OF _ sample_calm r(1), of "NewBytes []"] by (simp add: NewBytes_def)
qed

end
