(* ===== verification/Plugin_Session.thy ===== *)
theory Plugin_Session
  imports Backend
begin

text \<open>
  What a user of the plugin sees: the calls of \<^verbatim>\<open>cmd/backend/app.go\<close> end to end, from the text typed to the answer, over the
  parsing of values, the opening of the game, the scans of the engine and the rows of the answer.
\<close>

section \<open>The rows of an answer\<close>

lemma int_value_typed:
  assumes "t \<in> {Int16, Int32, Int64}"
  shows "typed_value (int_value t n) (CmpValue (int_value t n))" "2 \<le> Value_Size (int_value t n)" "v_typ (int_value t n) = t"
    "WithOption opt (int_value t n) = int_value t n" "v_option (int_value t n) = 0"
  using assms wf_value_constructors(2-4) [of "of_nat n"]
  by (elim insertE emptyE; auto simp: int_value_def typed_value_def Aligned_def Value_Size_def Value_Comparable_def HasOption_def
      is_float_type_def NewInt16_def NewInt32_def NewInt64_def ByteSize_simps WithOption_def simp flip: length_0_conv)+

text \<open>The rows for addresses that hold the value itself.\<close>

definition own_rows :: "(fmt \<Rightarrow> fl \<Rightarrow> string) \<Rightarrow> Value \<Rightarrow> u64 list \<Rightarrow> (string \<times> string) list" where
  "own_rows sf v = map (\<lambda>a. (show_addr a, show_data sf (v_typ v) (v_data v)))"

text \<open>What \<open>render\<close> answers in a session that has found addresses holding the value.\<close>

definition own_answer :: "(fmt \<Rightarrow> fl \<Rightarrow> string) \<Rightarrow> int \<Rightarrow> Value \<Rightarrow> Session \<Rightarrow> Results" where
  "own_answer sf threshold v s = \<lparr>res_Count = int (length (found s)),
     res_List = (if int (length (found s)) \<le> threshold then own_rows sf v (found s) else []),
     res_Round = rounds s, res_CanUndo = undoable s\<rparr>"

lemma render_found:
  assumes "engine_ready pid (app_scan app)" "app_value app = Some v" "typed_value v (CmpValue v)" "2 \<le> Value_Size v"
    and "reads_memory (w_readv (h_world h)) pid mem" "list_all (holds mem (CmpValue v)) (found (ms_view (app_scan app)))"
    and "app_threshold app \<le> 100"
  shows "render h app = Some (own_answer (h_float h) (app_threshold app) v (ms_view (app_scan app)))"
proof -
  define m where "m = app_scan app"
  have inv: "ms_inv m" "ms_proc m = Some pid" using assms(1) by (simp_all add: engine_ready_def m_def)
  have v: "wf_value v" "Aligned v" using assms(3) by (simp_all add: typed_value_def)
  have held: "list_all (value_readable mem (Value_Size v)) (found (ms_view m))"
    "\<forall>a \<in> set (found (ms_view m)). value_at mem (Value_Size v) a = v_data v"
    using assms(6) by (auto simp: list_all_iff holds_def Value_EqualBytes_def m_def)
  have fields: "Count m = int (length (found (ms_view m)))" "Rounds m = rounds (ms_view m)" "CanUndo m = undoable (ms_view m)"
    using inv(1) by (simp_all add: Count_view Rounds_def CanUndo_def ms_view_def)
  show ?thesis
  proof (cases "int (length (found (ms_view m))) \<le> app_threshold app")
    case True
    with assms(7) have "length (found (ms_view m)) \<le> IOV_MAX" by (simp add: IOV_MAX_def)
    from RenderResults_shown [OF inv assms(5) v assms(4) this held(1), of "h_float h"] held(2)
    have "RenderResults (h_float h) (h_world h) (Some v) m = Some (own_rows (h_float h) v (found (ms_view m)))"
      by (simp add: own_rows_def)
    with True show ?thesis
      by (simp add: render_def Let_def assms(2) own_answer_def fields flip: m_def)
  qed (simp add: render_def Let_def own_answer_def fields flip: m_def)
qed

section \<open>A first scan\<close>

lemma AutoSelect_scan:
  "AutoSelectGameProcess h appID app = Some (game, app1) \<Longrightarrow>
    app_scan app1 = app_scan app \<and> app_threshold app1 = app_threshold app \<and> app_game app1 = game"
  by (auto simp: AutoSelectGameProcess_def Let_def split: Option.bind_splits if_splits)

text \<open>The game that a call finds, with its maps open to be read and whole.\<close>

definition game_ready :: "Host \<Rightarrow> memory \<Rightarrow> int \<Rightarrow> App \<Rightarrow> Process \<Rightarrow> Region list \<Rightarrow> bool" where
  "game_ready h mem appID app game regions \<longleftrightarrow> (\<exists>app1. AutoSelectGameProcess h appID app = Some (Some game, app1)) \<and>
     calm (h_world h) mem (p_PID game) \<and>
     (\<exists>exe. h_opened h (p_PID game) = Some exe \<and> process_mapped (h_world h) mem (p_PID game) exe regions)"

lemma app_FirstScan_answers:
  assumes "ms_inv (app_scan app)" "app_ok app" "game_ready h mem appID app game regions"
    and "parseValue s t [] = Some v0" "v = WithOption opt v0" "typed_value v (CmpValue v)" "2 \<le> Value_Size v"
    and "RegionsOptimize regions = Some out"
    and "list_all (\<lambda>r. length (region_matches mem (CmpValue v) r) \<le> regionResultsAllocCaps) out"
  shows "\<exists>app'. app_FirstScan h appID s t opt app =
      Some (Some (own_answer (h_float h) (app_threshold app) v (ms_view (app_scan app'))), app') \<and>
    engine_ready (p_PID game) (app_scan app') \<and> app_game app' = Some game \<and> app_value app' = Some v \<and>
    app_threshold app' = app_threshold app \<and>
    ms_view (app_scan app') =
      \<lparr>found = filter (aligned_holds mem (CmpValue v)) (covered_addrs regions), before = [], rounds = 1, undoable = False\<rparr>"
proof -
  define pid where "pid = p_PID game"
  obtain app1 exe where g: "AutoSelectGameProcess h appID app = Some (Some game, app1)" "calm (h_world h) mem pid"
    "h_opened h pid = Some exe" "process_mapped (h_world h) mem pid exe regions"
    using assms(3) by (auto simp: game_ready_def pid_def)
  have app1: "app_scan app1 = app_scan app" "app_threshold app1 = app_threshold app" "app_game app1 = Some game"
    using AutoSelect_scan [OF g(1)] by simp_all
  have "ms_inv (Reset (app_scan app))" using Reset_empty [OF assms(1)] by blast
  from Open_ready [OF this, of pid exe] obtain m where m: "Open pid (Some exe) (Reset (app_scan app)) = (True, m)" "ms_inv m"
    "ms_proc m = Some pid" "ms_maps m = Some exe" by blast
  then have "mapped (h_world h) mem pid m regions" using g(4) by (simp add: mapped_process)
  from FirstScan_found [OF m(2) g(2) this assms(6,8,9)] obtain m' where
    m': "FirstScan (h_world h) v m = Some m'" "engine_ready pid m'"
      "ms_view m' = \<lparr>found = filter (aligned_holds mem (CmpValue v)) (covered_addrs regions), before = [], rounds = 1, undoable = False\<rparr>"
    by (auto simp: engine_ready_def)
  define app' where "app' = app1\<lparr>app_value := Some v, app_scan := m'\<rparr>"
  have "list_all (holds mem (CmpValue v)) (found (ms_view (app_scan app')))"
    by (auto simp: app'_def m'(3) list_all_iff aligned_holds_def)
  moreover have "app_threshold app' \<le> 100" using assms(2) by (simp add: app'_def app1(2) app_ok_def)
  ultimately have "render h app' = Some (own_answer (h_float h) (app_threshold app') v (ms_view (app_scan app')))"
    using g(2) m'(2) assms(6,7) by (intro render_found [of pid _ _ _ mem]) (simp_all add: app'_def calm_def)
  moreover have "app_FirstScan h appID s t opt app = answer_render h app'"
    using g(1,3) m(1) assms(4) m'(1) by (simp add: app_FirstScan_def Let_def app1(1) app'_def flip: pid_def assms(5))
  ultimately show ?thesis
    using m'(2,3) app1 by (intro exI [of _ app']) (simp add: answer_render_def app'_def pid_def)
qed

text \<open>
  C3: scanning for a number typed in decimal, as 16, 32 or 64 bits, the plugin answers with the count of the
  aligned addresses of the game's mappings that hold the number, in the first round with nothing to
  undo, and, up to the threshold, with the row of each of them; a number out of range answers nothing.
\<close>

theorem plugin_first_scan:
  assumes "ms_inv (app_scan app)" "app_ok app" "game_ready h mem appID app game regions" "t \<in> {Int16, Int32, Int64}"
    and "RegionsOptimize regions = Some out"
    and "list_all (\<lambda>r. length (region_matches mem (CmpValue (int_value t n)) r) \<le> regionResultsAllocCaps) out"
  shows "\<exists>app'. app_FirstScan h appID (digits 10 n) t opt app =
    Some (if 0 < n \<and> n < 2 ^ BitSize t
          then Some (own_answer (h_float h) (app_threshold app) (int_value t n)
            \<lparr>found = filter (aligned_holds mem (CmpValue (int_value t n))) (covered_addrs regions), before = [],
              rounds = 1, undoable = False\<rparr>)
          else None, app')"
proof -
  have "parseValue (digits 10 n) t [] = parseValue (digits 10 n) t [False]" by (simp add: parseValue_def)
  with parseValue_digits [of t 0 n False] assms(4)
  have parse: "parseValue (digits 10 n) t [] = (if n < 2 ^ BitSize t \<and> 0 < n then Some (int_value t n) else None)" by auto
  note v = int_value_typed [OF assms(4), where n = n]
  show ?thesis
  proof (cases "0 < n \<and> n < 2 ^ BitSize t")
    case True
    with parse have "parseValue (digits 10 n) t [] = Some (int_value t n)" by simp
    from app_FirstScan_answers [OF assms(1-3) this v(4) [of opt, symmetric] v(1,2) assms(5,6)] obtain app' where
      "app_FirstScan h appID (digits 10 n) t opt app =
        Some (Some (own_answer (h_float h) (app_threshold app) (int_value t n) (ms_view (app_scan app'))), app')"
      "ms_view (app_scan app') = \<lparr>found = filter (aligned_holds mem (CmpValue (int_value t n))) (covered_addrs regions),
         before = [], rounds = 1, undoable = False\<rparr>" by blast
    with True show ?thesis by simp
  next
    case False
    obtain app1 exe where g: "AutoSelectGameProcess h appID app = Some (Some game, app1)" "h_opened h (p_PID game) = Some exe"
      using assms(3) by (auto simp: game_ready_def)
    have "parseValue (digits 10 n) t [] = None" using parse False by auto
    with g show ?thesis by (auto simp: app_FirstScan_def Let_def False split: prod.split)
  qed
qed

text \<open>The example: the game of \<open>sample_system\<close> with a seven in the first word of its heap.\<close>

definition sample_host :: Host where
  "sample_host = \<lparr>h_sort = insertion_sort, h_sys = sample_system, h_maps = \<lambda>_. True, h_exe = \<lambda>_. Some ''/bin/game'', h_float = \<lambda>_ _. [],
     h_world = sample_world\<rparr>"

definition sample_app :: App where
  "sample_app = \<lparr>app_scan = sample_engine [], app_game = None, app_value = None, app_threshold = 10\<rparr>"

lemma sample_game_ready:
  "\<exists>regions out. game_ready sample_host sample_memory 0 sample_app (sample_process 8 ''game'' 7 ''game'') regions \<and>
     RegionsOptimize regions = Some out \<and>
     list_all (\<lambda>r. length (region_matches sample_memory (CmpValue (int_value Int64 7)) r) \<le> regionResultsAllocCaps) out \<and>
     map strip regions = [sample_region 4096 12288 11 ''[heap]'', sample_region 28672 32768 11 []]"
proof -
  obtain regions out where r: "mapped sample_world sample_memory 1 (sample_engine []) regions" "RegionsOptimize regions = Some out"
    "map strip regions = [sample_region 4096 12288 11 ''[heap]'', sample_region 28672 32768 11 []]"
    using sample_mapped [of "[]"] by (elim exE conjE) (rule that; assumption)
  have "process_mapped (h_world sample_host) sample_memory 8 ''/bin/game'' regions"
    using r(1) by (simp add: mapped_def process_mapped_def sample_host_def sample_engine_def sample_world_def)
  moreover have "EnumGameProcesses insertion_sort sample_system [0] = EnumGameProcesses insertion_sort sample_system []"
    by (simp add: EnumGameProcesses_def)
  with sample_games(2) have "\<exists>app1. AutoSelectGameProcess sample_host 0 sample_app = Some (Some (sample_process 8 ''game'' 7 ''game''), app1)"
    by (simp add: AutoSelectGameProcess_def FindGameWithAppID_def sample_app_def sample_host_def)
  moreover have "calm (h_world sample_host) sample_memory 8"
    using sample_calm by (simp add: calm_def sample_host_def sample_world_def sim_readv_reads)
  ultimately have "game_ready sample_host sample_memory 0 sample_app (sample_process 8 ''game'' 7 ''game'') regions"
    by (simp add: game_ready_def sample_process_def sample_host_def h_opened_def OpenMaps_def)
  moreover have "int_value Int64 7 = NewInt64 7" by (simp add: int_value_def)
  then have "list_all (\<lambda>r. length (region_matches sample_memory (CmpValue (int_value Int64 7)) r) \<le> regionResultsAllocCaps) out"
    using wide_values_fit [OF r(1) sample_value(5) r(2)] by (simp add: sample_value(6))
  ultimately show ?thesis using r(2,3) by (intro exI conjI)
qed

lemma filter_single: "distinct xs \<Longrightarrow> x \<in> set xs \<Longrightarrow> \<forall>y \<in> set xs. P y \<longleftrightarrow> y = x \<Longrightarrow> filter P xs = [x]"
proof (induction xs)
  case (Cons y ys)
  show ?case
  proof (cases "y = x")
    case True
    with Cons.prems have "filter P ys = []" by (auto simp: filter_empty_conv)
    with True Cons.prems show ?thesis by simp
  next
    case False
    with Cons show ?thesis by auto
  qed
qed simp

lemma sample_sevens:
  assumes "map strip regions = [sample_region 4096 12288 11 ''[heap]'', sample_region 28672 32768 11 []]"
  shows "filter (aligned_holds sample_memory (CmpValue (int_value Int64 7))) (covered_addrs regions) = [0x1000]"
proof (rule filter_single)
  have cov: "covered_addrs regions = addr_range 4096 12288 @ addr_range 28672 32768"
    unfolding covered_addrs_strip [of regions, symmetric] assms
    by (simp add: sample_region_def region_addrs_def)
  have "x < y" if "x < 12288" "28672 \<le> y" for x y :: u64
    using that by (simp add: word_less_nat_alt word_le_nat_alt)
  then have "sorted_wrt (<) (covered_addrs regions)"
    unfolding cov by (auto simp: sorted_wrt_append sorted_addr_range set_addr_range)
  then show "distinct (covered_addrs regions)" by (simp add: strict_sorted_iff)
  show "0x1000 \<in> set (covered_addrs regions)" by (simp add: cov set_addr_range)
  have "le_bytes 8 (7 :: 64 word) = [7, 0, 0, 0, 0, 0, 0, 0]" by code_simp
  then have data: "v_data (int_value Int64 7) = [7, 0, 0, 0, 0, 0, 0, 0]" by (simp add: int_value_def NewInt64_def)
  have size: "Value_Size (int_value Int64 7) = 8" using sample_value(6) by (simp add: int_value_def)
  have "aligned_holds sample_memory (CmpValue (int_value Int64 7)) a \<longleftrightarrow> a = 0x1000" for a
  proof
    assume "aligned_holds sample_memory (CmpValue (int_value Int64 7)) a"
    then have "value_at sample_memory 8 a = [7, 0, 0, 0, 0, 0, 0, 0]"
      by (auto simp: aligned_holds_def holds_def Value_EqualBytes_def size data)
    then have "hd (value_at sample_memory 8 a) = 7" by simp
    then show "a = 0x1000"
      by (auto simp: value_at_def contents_at_def iov_addrs_def upt_rec sample_memory_def split: if_splits)
  next
    assume "a = 0x1000"
    then show "aligned_holds sample_memory (CmpValue (int_value Int64 7)) a"
      by (simp add: aligned_holds_def holds_def value_readable_def value_at_def contents_at_def iov_addrs_def upt_rec
          size data Value_EqualBytes_def sample_memory_def)
  qed
  then show "\<forall>a \<in> set (covered_addrs regions). aligned_holds sample_memory (CmpValue (int_value Int64 7)) a \<longleftrightarrow> a = 0x1000" by blast
qed

theorem plugin_first_scan_witness:
  "\<exists>app' r. app_FirstScan sample_host 0 ''7'' Int64 0 sample_app = Some (Some r, app') \<and> res_Count r = 1 \<and>
    map fst (res_List r) = [show_addr 0x1000] \<and> res_Round r = 1 \<and> \<not> res_CanUndo r"
proof -
  obtain regions out where r: "game_ready sample_host sample_memory 0 sample_app (sample_process 8 ''game'' 7 ''game'') regions"
    "RegionsOptimize regions = Some out"
    "list_all (\<lambda>r. length (region_matches sample_memory (CmpValue (int_value Int64 7)) r) \<le> regionResultsAllocCaps) out"
    "map strip regions = [sample_region 4096 12288 11 ''[heap]'', sample_region 28672 32768 11 []]"
    using sample_game_ready by (elim exE conjE) (rule that; assumption)
  have app: "ms_inv (app_scan sample_app)" "app_ok sample_app" "app_threshold sample_app = 10"
    by (simp_all add: sample_app_def sample_engine_ready app_ok_def)
  have digits: "digits 10 7 = ''7''" by code_simp
  have range: "(0 :: nat) < 7 \<and> (7 :: nat) < 2 ^ BitSize Int64" by (simp add: BitSize_def)
  from plugin_first_scan [OF app(1,2) r(1) _ r(2,3), of 0, unfolded sample_sevens [OF r(4)] digits if_P [OF range]]
  show ?thesis by (auto simp: own_answer_def own_rows_def app(3))
qed

section \<open>A next scan\<close>

text \<open>The plugin in a session: a game chosen, a number scanned for, and results.\<close>

definition in_session :: "int \<Rightarrow> Type \<Rightarrow> App \<Rightarrow> bool" where
  "in_session pid t app \<longleftrightarrow> engine_ready pid (app_scan app) \<and> app_ok app \<and> app_game app \<noteq> None \<and>
     (\<exists>old. app_value app = Some old \<and> v_typ old = t) \<and> \<not> ms_round (app_scan app) < 1 \<and> found (ms_view (app_scan app)) \<noteq> []"

lemma in_session_count:
  assumes "in_session pid t app"
  shows "Count (app_scan app) \<noteq> 0"
proof -
  have "ms_inv (app_scan app)" using assms by (simp add: in_session_def engine_ready_def)
  then show ?thesis using assms Count_view [of "app_scan app"] by (simp add: in_session_def)
qed

text \<open>
  In a session over 16, 32 or 64 bit numbers, a next scan for a number typed in decimal, zero included, answers with
  the abstract session's step: the results that hold the number now, their count, the round after, undo
  possible, and, up to the threshold, their rows; the session goes on from there.
\<close>

lemma plugin_next_scan:
  assumes "in_session pid t app" "t \<in> {Int16, Int32, Int64}" "n < 2 ^ BitSize t" "calm (h_world h) mem pid"
    and "next_ready mem (int_value t n) (CmpValue (int_value t n)) (found (ms_view (app_scan app)))"
  shows "\<exists>app'. app_NextScan h (digits 10 n) app =
      Some (Some (own_answer (h_float h) (app_threshold app) (int_value t n)
        (session_next (holds mem (CmpValue (int_value t n))) (ms_view (app_scan app)))), app') \<and>
    ms_view (app_scan app') = session_next (holds mem (CmpValue (int_value t n))) (ms_view (app_scan app)) \<and>
    engine_ready pid (app_scan app') \<and> app_value app' = Some (int_value t n) \<and> app_game app' = app_game app \<and>
    app_threshold app' = app_threshold app"
proof -
  define v where "v = int_value t n"
  obtain g old where app: "app_game app = Some g" "app_value app = Some old" "v_typ old = t" "engine_ready pid (app_scan app)"
    "\<not> Rounds (app_scan app) < 1" "app_ok app" "found (ms_view (app_scan app)) \<noteq> []"
    using assms(1) by (auto simp: in_session_def Rounds_def)
  note v = int_value_typed [OF assms(2), where n = n, folded v_def]
  from parseValue_digits [of t 0 n True] assms(2,3) have parse: "parseValue (digits 10 n) t [True] = Some v"
    by (auto simp: v_def)
  from next_scan_step [OF app(4) assms(4,5) [folded v_def]] app(7) obtain m' where
    m': "NextScan (h_world h) (Some v) (app_scan app) = Some m'" "engine_ready pid m'"
      "ms_view m' = session_next (holds mem (CmpValue v)) (ms_view (app_scan app))" by auto
  define app' where "app' = app\<lparr>app_value := Some v, app_scan := m'\<rparr>"
  have "list_all (holds mem (CmpValue v)) (found (ms_view (app_scan app')))"
    by (simp add: app'_def m'(3) session_next_def list_all_iff)
  then have "render h app' = Some (own_answer (h_float h) (app_threshold app) v (ms_view m'))"
    using render_found [of pid app' v h mem] v(1,2) m'(2) assms(4) app(6)
    by (simp add: app'_def calm_def app_ok_def)
  moreover have "app_NextScan h (digits 10 n) app = answer_render h app'"
    using app(1-3,5) parse m'(1) in_session_count [OF assms(1)]
    by (simp add: app_NextScan_def Let_def v(4) app'_def)
  ultimately show ?thesis
    using m'(2,3) by (intro exI [of _ app']) (simp add: answer_render_def app'_def v_def)
qed

end
