(* ===== verification/Plugin_Machine.thy ===== *)
theory Plugin_Machine
  imports Plugin_Session
begin

text \<open>
  A whole session with the plugin: any sequence of the calls its user interface makes after a first scan (next scans,
  undo, refreshing and changing values, setting the threshold), while the game goes on and its memory changes from
  call to call. The calls refine an abstract machine whose state is the session and the threshold only: each answer shows
  what the machine has found with what memory holds at that moment.
\<close>

section \<open>The calls\<close>

datatype call = Call_Next nat | Call_Undo | Call_Refresh | Call_Change nat "int list" | Call_Threshold int

text \<open>What a call meets: the host, the memory of the game, and how memory can be written and is read afterwards.\<close>

record Moment =
  mo_host :: Host
  mo_mem :: memory
  mo_writev :: vm_writev
  mo_readv :: "memory \<Rightarrow> vm_readv"
  mo_writable :: "u64 \<Rightarrow> bool"

definition plugin_call :: "Moment \<Rightarrow> call \<Rightarrow> App \<Rightarrow> answer go" where
  "plugin_call mo c app =
     (case c of
        Call_Next n \<Rightarrow> app_NextScan (mo_host mo) (digits 10 n) app
      | Call_Undo \<Rightarrow> app_UndoScan (mo_host mo) app
      | Call_Refresh \<Rightarrow> RefreshValues (mo_host mo) app
      | Call_Change n indexes \<Rightarrow> do {
          (answer, mem) \<leftarrow> app_ChangeValues (mo_host mo) (mo_writev mo) (mo_readv mo) (digits 10 n) indexes app (mo_mem mo);
          Some answer
        }
      | Call_Threshold k \<Rightarrow> Some (None, SetRenderResultsThreshold k app))"

fun plugin_run :: "(Moment \<times> call) list \<Rightarrow> App \<Rightarrow> (Results option list \<times> App) go" where
  "plugin_run [] app = Some ([], app)"
| "plugin_run ((mo, c) # calls) app = do {
     (res, app) \<leftarrow> plugin_call mo c app;
     (rest, app) \<leftarrow> plugin_run calls app;
     Some (res # rest, app)
   }"

section \<open>The abstract machine\<close>

record Plugin =
  pl_session :: Session
  pl_threshold :: int

definition few :: "Plugin \<Rightarrow> bool" where
  "few p \<longleftrightarrow> int (length (found (pl_session p))) \<le> pl_threshold p"

text \<open>The answer for what has been found, with what memory holds.\<close>

definition shown :: "Moment \<Rightarrow> Type \<Rightarrow> memory \<Rightarrow> Plugin \<Rightarrow> Results" where
  "shown mo t mem p =
     \<lparr>res_Count = int (length (found (pl_session p))),
      res_List = (if few p then map (\<lambda>a. (show_addr a, show_data (h_float (mo_host mo)) t (value_at mem (ByteSize t) a)))
                    (found (pl_session p)) else []),
      res_Round = rounds (pl_session p), res_CanUndo = undoable (pl_session p)\<rparr>"

definition changed_memory :: "Moment \<Rightarrow> Type \<Rightarrow> nat \<Rightarrow> int list \<Rightarrow> Plugin \<Rightarrow> memory" where
  "changed_memory mo t n indexes p =
     fold (write_value (mo_writable mo) (v_data (int_value t n))) (chosen indexes (found (pl_session p))) (mo_mem mo)"

fun plugin_spec :: "Type \<Rightarrow> Moment \<Rightarrow> call \<Rightarrow> Plugin \<Rightarrow> Results option \<times> Plugin" where
  "plugin_spec t mo (Call_Next n) p =
     (if rounds (pl_session p) < 1 then (None, p)
      else
        let p' = (if found (pl_session p) = [] then p
                  else p\<lparr>pl_session := session_next (holds (mo_mem mo) (CmpValue (int_value t n))) (pl_session p)\<rparr>) in
        (Some (shown mo t (mo_mem mo) p'), p'))"
| "plugin_spec t mo Call_Undo p =
     (if undoable (pl_session p)
      then let p' = p\<lparr>pl_session := session_undo (pl_session p)\<rparr> in (Some (shown mo t (mo_mem mo) p'), p')
      else (None, p))"
| "plugin_spec t mo Call_Refresh p =
     (if found (pl_session p) = [] \<or> \<not> few p then (None, p) else (Some (shown mo t (mo_mem mo) p), p))"
| "plugin_spec t mo (Call_Change n indexes) p =
     (if found (pl_session p) = [] \<or> \<not> few p then (None, p)
      else (Some (shown mo t (changed_memory mo t n indexes p) p), p))"
| "plugin_spec t mo (Call_Threshold k) p =
     (None, if MinResultsThreshold \<le> k \<and> k \<le> MaxResultsThreshold then p\<lparr>pl_threshold := k\<rparr> else p)"

fun spec_run :: "Type \<Rightarrow> (Moment \<times> call) list \<Rightarrow> Plugin \<Rightarrow> Results option list \<times> Plugin" where
  "spec_run t [] p = ([], p)"
| "spec_run t ((mo, c) # calls) p =
     (let (res, p) = plugin_spec t mo c p; (rest, p) = spec_run t calls p in (res # rest, p))"

text \<open>
  What a call needs: numbers in range, nothing going wrong in the scans, and the values shown readable.
\<close>

definition visible :: "Type \<Rightarrow> memory \<Rightarrow> Plugin \<Rightarrow> bool" where
  "visible t mem p \<longleftrightarrow> (few p \<longrightarrow> list_all (value_readable mem (ByteSize t)) (found (pl_session p)))"

fun call_ready :: "int \<Rightarrow> Type \<Rightarrow> Moment \<Rightarrow> call \<Rightarrow> Plugin \<Rightarrow> bool" where
  "call_ready pid t mo (Call_Next n) p \<longleftrightarrow> n < 2 ^ BitSize t \<and> calm (h_world (mo_host mo)) (mo_mem mo) pid \<and>
     next_ready (mo_mem mo) (int_value t n) (CmpValue (int_value t n)) (found (pl_session p))"
| "call_ready pid t mo Call_Undo p \<longleftrightarrow> reads_memory (w_readv (h_world (mo_host mo))) pid (mo_mem mo) \<and>
     (undoable (pl_session p) \<longrightarrow> visible t (mo_mem mo) (p\<lparr>pl_session := session_undo (pl_session p)\<rparr>))"
| "call_ready pid t mo Call_Refresh p \<longleftrightarrow> reads_memory (w_readv (h_world (mo_host mo))) pid (mo_mem mo) \<and> visible t (mo_mem mo) p"
| "call_ready pid t mo (Call_Change n indexes) p \<longleftrightarrow> n < 2 ^ BitSize t \<and> writes_memory (mo_writev mo) pid (mo_writable mo) \<and>
     reads_memory (mo_readv mo (changed_memory mo t n indexes p)) pid (changed_memory mo t n indexes p) \<and>
     length (chosen indexes (found (pl_session p))) \<le> IOV_MAX \<and>
     clean (mo_writable mo) (ByteSize t) (chosen indexes (found (pl_session p))) \<and>
     visible t (mo_mem mo) p"
| "call_ready pid t mo (Call_Threshold k) p \<longleftrightarrow> True"

fun calls_ready :: "int \<Rightarrow> Type \<Rightarrow> (Moment \<times> call) list \<Rightarrow> Plugin \<Rightarrow> bool" where
  "calls_ready pid t [] p \<longleftrightarrow> True"
| "calls_ready pid t ((mo, c) # calls) p \<longleftrightarrow> call_ready pid t mo c p \<and> calls_ready pid t calls (snd (plugin_spec t mo c p))"

section \<open>The refinement\<close>

definition plugin_view :: "App \<Rightarrow> Plugin" where
  "plugin_view app = \<lparr>pl_session = ms_view (app_scan app), pl_threshold = app_threshold app\<rparr>"

definition plugin_inv :: "int \<Rightarrow> Type \<Rightarrow> App \<Rightarrow> bool" where
  "plugin_inv pid t app \<longleftrightarrow> engine_ready pid (app_scan app) \<and> app_ok app \<and> app_game app \<noteq> None \<and>
     (\<exists>v. app_value app = Some v \<and> v_typ v = t)"

lemma plugin_invE:
  assumes "plugin_inv pid t app" "t \<in> {Int16, Int32, Int64}"
  obtains g v where "app_game app = Some g" "app_value app = Some v" "v_typ v = t" "wf_value v" "Aligned v"
    "Value_Size v = ByteSize t" "2 \<le> ByteSize t" "ms_inv (app_scan app)" "ms_proc (app_scan app) = Some pid"
    "Count (app_scan app) = int (length (found (ms_view (app_scan app))))" "app_threshold app \<le> 100"
proof -
  obtain g v where "app_game app = Some g" "app_value app = Some v" "v_typ v = t" "wf_value v" "Aligned v" "app_threshold app \<le> 100"
    using assms(1) by (auto simp: plugin_inv_def app_ok_def)
  moreover from this have "Value_Size v = ByteSize t" by (simp add: Aligned_def Value_Size_def)
  moreover have "2 \<le> ByteSize t" using assms(2) by (auto simp: ByteSize_simps)
  moreover have "ms_inv (app_scan app)" "ms_proc (app_scan app) = Some pid"
    using assms(1) by (auto simp: plugin_inv_def engine_ready_def)
  ultimately show ?thesis using that Count_view by blast
qed

lemma render_shown:
  assumes "plugin_inv pid t app" "t \<in> {Int16, Int32, Int64}" "h_float h = h_float (mo_host mo)"
    and "reads_memory (w_readv (h_world h)) pid mem" "visible t mem (plugin_view app)"
  shows "answer_render h app = Some (Some (shown mo t mem (plugin_view app)), app)"
proof -
  obtain g v where v: "app_value app = Some v" "v_typ v = t" "wf_value v" "Aligned v" "Value_Size v = ByteSize t" "2 \<le> ByteSize t"
    and m: "ms_inv (app_scan app)" "ms_proc (app_scan app) = Some pid"
      "Count (app_scan app) = int (length (found (ms_view (app_scan app))))"
    and le: "app_threshold app \<le> 100"
    using assms(1,2) by (elim plugin_invE)
  have fields: "Rounds (app_scan app) = rounds (ms_view (app_scan app))" "CanUndo (app_scan app) = undoable (ms_view (app_scan app))"
    by (simp_all add: Rounds_def CanUndo_def ms_view_def)
  show ?thesis
  proof (cases "few (plugin_view app)")
    case True
    then have "list_all (value_readable mem (Value_Size v)) (found (ms_view (app_scan app)))"
      "length (found (ms_view (app_scan app))) \<le> IOV_MAX"
      using assms(5) le by (simp_all add: visible_def few_def plugin_view_def v(5) IOV_MAX_def)
    from RenderResults_shown [OF m(1,2) assms(4) v(3,4) _ this(2,1), of "h_float h"] v(2,5,6)
    have "RenderResults (h_float h) (h_world h) (Some v) (app_scan app) =
      Some (map (\<lambda>a. (show_addr a, show_data (h_float h) t (value_at mem (ByteSize t) a))) (found (ms_view (app_scan app))))" by simp
    with True show ?thesis
      by (simp add: answer_render_def render_def Let_def v(1) m(3) fields shown_def few_def plugin_view_def assms(3))
  next
    case False
    then show ?thesis
      by (simp add: answer_render_def render_def Let_def v(1) m(3) fields shown_def few_def plugin_view_def)
  qed
qed

lemma own_answer_shown:
  assumes "list_all (holds mem (CmpValue (int_value t n))) (found s)" "t \<in> {Int16, Int32, Int64}"
  shows "own_answer (h_float (mo_host mo)) k (int_value t n) s = shown mo t mem \<lparr>pl_session = s, pl_threshold = k\<rparr>"
proof -
  note v = int_value_typed [OF assms(2), where n = n]
  then have "Value_Size (int_value t n) = ByteSize t" by (simp add: typed_value_def Aligned_def Value_Size_def)
  then have "value_at mem (ByteSize t) a = v_data (int_value t n)" if "a \<in> set (found s)" for a
    using that assms(1) by (auto simp: list_all_iff holds_def Value_EqualBytes_def)
  then show ?thesis by (simp add: own_answer_def own_rows_def shown_def few_def v(3))
qed

lemma UndoScan_ready:
  assumes "engine_ready pid m"
  shows "\<exists>m'. UndoScan m = Some (ms_canUndo m, m') \<and> engine_ready pid m' \<and> ms_view m' = session_undo (ms_view m)"
proof -
  have "ms_inv m" using assms by (simp add: engine_ready_def)
  from UndoScan_undoes [OF this] obtain m' where m': "UndoScan m = Some (ms_canUndo m, m')" "ms_inv m'" "ms_view m' = session_undo (ms_view m)"
    by blast
  from m'(1) have "ms_proc m' = ms_proc m \<and> ms_ctx m' = ms_ctx m"
    by (auto simp: UndoScan_def split: Option.bind_splits if_splits)
  with m' assms show ?thesis by (auto simp: engine_ready_def)
qed

text \<open>Writing to memory makes nothing unreadable.\<close>

lemma write_value_defined: "mem a \<noteq> None \<Longrightarrow> write_value writable data b mem a \<noteq> None"
proof -
  have "fold (\<lambda>(a, b) m. m(a := Some b)) abs mem a \<noteq> None" if "mem a \<noteq> None" for abs and mem :: memory
    using that by (induction abs arbitrary: mem) auto
  then show "mem a \<noteq> None \<Longrightarrow> ?thesis" by (auto simp: write_value_def write_bytes_def)
qed

lemma changed_memory_readable: "value_readable (mo_mem mo) sz a \<Longrightarrow> value_readable (changed_memory mo t n indexes p) sz a"
proof -
  have "fold (write_value writable data) as mem a \<noteq> None" if "mem a \<noteq> None" for writable data as and mem :: memory and a
    using that
  proof (induction as arbitrary: mem)
    case (Cons b as)
    from write_value_defined [of mem a writable data b] Cons.prems Cons.IH [of "write_value writable data b mem"] show ?case by simp
  qed simp
  then show "value_readable (mo_mem mo) sz a \<Longrightarrow> ?thesis"
    by (auto simp: changed_memory_def value_readable_def readable_def list_all_iff)
qed

lemma changed_memory_visible: "visible t (mo_mem mo) p \<Longrightarrow> visible t (changed_memory mo t n indexes p) p"
  by (auto simp: visible_def list_all_iff changed_memory_readable)

lemmas plugin_call_defs = plugin_call_def plugin_view_def few_def

text \<open>The five calls.\<close>

lemma call_next:
  assumes "plugin_inv pid t app" "t \<in> {Int16, Int32, Int64}" "call_ready pid t mo (Call_Next n) (plugin_view app)"
  shows "\<exists>app'. plugin_call mo (Call_Next n) app = Some (fst (plugin_spec t mo (Call_Next n) (plugin_view app)), app') \<and>
    plugin_inv pid t app' \<and> plugin_view app' = snd (plugin_spec t mo (Call_Next n) (plugin_view app))"
proof -
  obtain g v where app: "app_game app = Some g" "app_value app = Some v" "v_typ v = t"
    and m: "Count (app_scan app) = int (length (found (ms_view (app_scan app))))"
    using assms(1,2) by (elim plugin_invE)
  have ok: "engine_ready pid (app_scan app)" "app_ok app" using assms(1) by (simp_all add: plugin_inv_def)
  have ready: "n < 2 ^ BitSize t" "calm (h_world (mo_host mo)) (mo_mem mo) pid"
    "next_ready (mo_mem mo) (int_value t n) (CmpValue (int_value t n)) (found (ms_view (app_scan app)))"
    using assms(3) by (simp_all add: plugin_view_def)
  have r: "Rounds (app_scan app) = rounds (ms_view (app_scan app))" by (simp add: Rounds_def ms_view_def)
  consider (unstarted) "rounds (ms_view (app_scan app)) < 1" | (empty) "\<not> rounds (ms_view (app_scan app)) < 1" "found (ms_view (app_scan app)) = []"
    | (scan) "\<not> rounds (ms_view (app_scan app)) < 1" "found (ms_view (app_scan app)) \<noteq> []" by blast
  then show ?thesis
  proof cases
    case unstarted
    with assms(1) show ?thesis by (simp add: plugin_call_defs app_NextScan_def app r)
  next
    case empty
    have "reads_memory (w_readv (h_world (mo_host mo))) pid (mo_mem mo)" using ready(2) by (simp add: calm_def)
    from render_shown [OF assms(1,2) refl this] empty
    have "answer_render (mo_host mo) app = Some (Some (shown mo t (mo_mem mo) (plugin_view app)), app)"
      by (simp add: visible_def plugin_view_def)
    with assms(1) empty show ?thesis by (simp add: plugin_call_defs app_NextScan_def app r m Let_def)
  next
    case scan
    then have "in_session pid t app" using app ok by (simp add: in_session_def ms_view_def)
    from plugin_next_scan [OF this assms(2) ready(1,2,3)] obtain app' where
      app': "app_NextScan (mo_host mo) (digits 10 n) app = Some (Some (own_answer (h_float (mo_host mo)) (app_threshold app) (int_value t n)
          (session_next (holds (mo_mem mo) (CmpValue (int_value t n))) (ms_view (app_scan app)))), app')"
        "ms_view (app_scan app') = session_next (holds (mo_mem mo) (CmpValue (int_value t n))) (ms_view (app_scan app))"
        "engine_ready pid (app_scan app')" "app_value app' = Some (int_value t n)" "app_game app' = app_game app"
        "app_threshold app' = app_threshold app" by blast
    have "list_all (holds (mo_mem mo) (CmpValue (int_value t n)))
        (found (session_next (holds (mo_mem mo) (CmpValue (int_value t n))) (ms_view (app_scan app))))"
      by (simp add: session_next_def list_all_iff)
    note shown = own_answer_shown [OF this assms(2), of mo "app_threshold app"]
    have "app_ok app'" using app_NextScan_ok [OF app'(1) ok(2)] by simp
    with app' app(1) have "plugin_inv pid t app'"
      using int_value_typed(3) [OF assms(2)] by (simp add: plugin_inv_def)
    with app' shown scan show ?thesis by (simp add: plugin_call_defs Let_def)
  qed
qed

lemma call_undo:
  assumes "plugin_inv pid t app" "t \<in> {Int16, Int32, Int64}" "call_ready pid t mo Call_Undo (plugin_view app)"
  shows "\<exists>app'. plugin_call mo Call_Undo app = Some (fst (plugin_spec t mo Call_Undo (plugin_view app)), app') \<and>
    plugin_inv pid t app' \<and> plugin_view app' = snd (plugin_spec t mo Call_Undo (plugin_view app))"
proof -
  obtain g v where app: "app_game app = Some g" "app_value app = Some v" "v_typ v = t"
    using assms(1,2) by (elim plugin_invE)
  have "engine_ready pid (app_scan app)" using assms(1) by (simp add: plugin_inv_def)
  from UndoScan_ready [OF this] obtain m' where m': "UndoScan (app_scan app) = Some (ms_canUndo (app_scan app), m')"
    "engine_ready pid m'" "ms_view m' = session_undo (ms_view (app_scan app))" by blast
  define app' where "app' = app\<lparr>app_scan := m'\<rparr>"
  have inv: "plugin_inv pid t app'"
    using assms(1) m'(2) by (simp add: plugin_inv_def app'_def app_ok_fields)
  have view: "plugin_view app' = (plugin_view app)\<lparr>pl_session := session_undo (pl_session (plugin_view app))\<rparr>"
    by (simp add: plugin_view_def app'_def m'(3))
  have undoable: "undoable (ms_view (app_scan app)) = ms_canUndo (app_scan app)" by (simp add: ms_view_def)
  show ?thesis
  proof (cases "ms_canUndo (app_scan app)")
    case True
    with assms(3) undoable have "answer_render (mo_host mo) app' = Some (Some (shown mo t (mo_mem mo) (plugin_view app')), app')"
      by (intro render_shown [OF inv assms(2) refl]) (simp_all add: view, simp_all add: plugin_view_def)
    with True inv view undoable m'(1) show ?thesis
      by (simp add: plugin_call_def app_UndoScan_def app Let_def flip: app'_def) (simp add: plugin_view_def)
  next
    case False
    with m'(1) undoable inv view show ?thesis
      by (simp add: plugin_call_def app_UndoScan_def app flip: app'_def) (simp add: plugin_view_def session_undo_def)
  qed
qed

lemma call_refresh:
  assumes "plugin_inv pid t app" "t \<in> {Int16, Int32, Int64}" "call_ready pid t mo Call_Refresh (plugin_view app)"
  shows "\<exists>app'. plugin_call mo Call_Refresh app = Some (fst (plugin_spec t mo Call_Refresh (plugin_view app)), app') \<and>
    plugin_inv pid t app' \<and> plugin_view app' = snd (plugin_spec t mo Call_Refresh (plugin_view app))"
proof -
  obtain g v where app: "app_game app = Some g" "app_value app = Some v"
    and m: "Count (app_scan app) = int (length (found (ms_view (app_scan app))))"
    using assms(1,2) by (elim plugin_invE)
  have "answer_render (mo_host mo) app = Some (Some (shown mo t (mo_mem mo) (plugin_view app)), app)"
    using assms(3) by (intro render_shown [OF assms(1,2) refl]) simp_all
  with assms(1) show ?thesis
    by (simp add: plugin_call_defs RefreshValues_def app m)
qed

lemma call_change:
  assumes "plugin_inv pid t app" "t \<in> {Int16, Int32, Int64}" "call_ready pid t mo (Call_Change n indexes) (plugin_view app)"
  shows "\<exists>app'. plugin_call mo (Call_Change n indexes) app =
      Some (fst (plugin_spec t mo (Call_Change n indexes) (plugin_view app)), app') \<and>
    plugin_inv pid t app' \<and> plugin_view app' = snd (plugin_spec t mo (Call_Change n indexes) (plugin_view app))"
proof -
  obtain g v where app: "app_game app = Some g" "app_value app = Some v" "v_typ v = t" "2 \<le> ByteSize t"
    and m: "ms_inv (app_scan app)" "ms_proc (app_scan app) = Some pid"
      "Count (app_scan app) = int (length (found (ms_view (app_scan app))))"
    using assms(1,2) by (elim plugin_invE)
  have ready: "n < 2 ^ BitSize t" "writes_memory (mo_writev mo) pid (mo_writable mo)"
    "length (chosen indexes (found (ms_view (app_scan app)))) \<le> IOV_MAX"
    "clean (mo_writable mo) (ByteSize t) (chosen indexes (found (ms_view (app_scan app))))"
    using assms(3) by (simp_all add: plugin_view_def)
  define v' where "v' = int_value t n"
  define app' where "app' = app\<lparr>app_value := Some v'\<rparr>"
  define mem' where "mem' = changed_memory mo t n indexes (plugin_view app)"
  have parse: "parseValue (digits 10 n) t [True] = Some v'"
    using parseValue_digits [of t 0 n True] assms(2) ready(1) by (auto simp: v'_def)
  have v': "v_typ v' = t" "wf_value v'" "length (v_data v') = ByteSize t"
    using int_value_typed [OF assms(2), where n = n] by (simp_all add: v'_def typed_value_def Aligned_def wf_value_def)
  have inv: "plugin_inv pid t app'"
    using assms(1) app_ok_fields(5) [OF _ parse] v'(1) by (simp add: plugin_inv_def app'_def)
  have view: "plugin_view app' = plugin_view app" by (simp add: plugin_view_def app'_def)
  have "ChangeResultsValues (mo_writev mo) indexes v' (app_scan app) (mo_mem mo) = Some mem'"
    using ChangeResultsValues_written [OF m(1,2) ready(2) v'(2), unfolded v'(3), OF app(4) ready(3,4), of "mo_mem mo"]
    by (simp add: mem'_def changed_memory_def plugin_view_def v'_def)
  moreover have "answer_render (mo_host mo\<lparr>h_world := (h_world (mo_host mo))\<lparr>w_readv := mo_readv mo mem'\<rparr>\<rparr>) app' =
      Some (Some (shown mo t mem' (plugin_view app')), app')"
    using assms(3) changed_memory_visible
    by (intro render_shown [OF inv assms(2)]) (simp_all add: view flip: mem'_def, simp add: mem'_def)
  moreover have "app_value app' = Some v'" "app_scan app' = app_scan app" by (simp_all add: app'_def)
  ultimately have "plugin_call mo (Call_Change n indexes) app =
      (if Count (app_scan app) = 0 \<or> app_threshold app < Count (app_scan app) then Some (None, app)
       else Some (Some (shown mo t mem' (plugin_view app)), app'))"
    by (simp add: plugin_call_def app_ChangeValues_def app(1-3) parse view flip: app'_def)
  then show ?thesis
    using assms(1) inv view by (simp add: m(3) few_def flip: mem'_def) (simp add: plugin_view_def)
qed

lemma call_threshold:
  assumes "plugin_inv pid t app"
  shows "\<exists>app'. plugin_call mo (Call_Threshold k) app = Some (fst (plugin_spec t mo (Call_Threshold k) (plugin_view app)), app') \<and>
    plugin_inv pid t app' \<and> plugin_view app' = snd (plugin_spec t mo (Call_Threshold k) (plugin_view app))"
  using assms
  by (auto simp: plugin_call_defs SetRenderResultsThreshold_def plugin_inv_def app_ok_def MinResultsThreshold_def MaxResultsThreshold_def)

lemmas call_refines = call_next call_undo call_refresh call_change call_threshold

text \<open>Any sequence of calls.\<close>

lemma plugin_run_refines:
  assumes "plugin_inv pid t app" "t \<in> {Int16, Int32, Int64}" "calls_ready pid t calls (plugin_view app)"
  shows "\<exists>app'. plugin_run calls app = Some (fst (spec_run t calls (plugin_view app)), app') \<and> plugin_inv pid t app' \<and>
    plugin_view app' = snd (spec_run t calls (plugin_view app))"
  using assms(1,3)
proof (induction calls arbitrary: app)
  case Nil
  then show ?case by simp
next
  case (Cons x calls)
  obtain mo c where x: "x = (mo, c)" by fastforce
  have ready: "call_ready pid t mo c (plugin_view app)" "calls_ready pid t calls (snd (plugin_spec t mo c (plugin_view app)))"
    using Cons.prems(2) by (simp_all add: x)
  obtain app1 where app1: "plugin_call mo c app = Some (fst (plugin_spec t mo c (plugin_view app)), app1)" "plugin_inv pid t app1"
    "plugin_view app1 = snd (plugin_spec t mo c (plugin_view app))"
    using call_refines [OF Cons.prems(1)] assms(2) ready(1) by (cases c) blast+
  from Cons.IH [OF app1(2)] ready(2) app1(1,3) show ?case
    by (auto simp: x split_def Let_def)
qed

section \<open>Sessions\<close>

text \<open>
  C4: a session with the plugin refines the abstract machine: after a first scan for a number typed in decimal, which finds
  the aligned addresses that hold it, whatever next scans, undos, refreshes, changes of values and thresholds follow, with memory
  changing from call to call, every call returns and answers as the machine does from what it has found, how many
  rounds it has made, whether it can undo, and what memory holds then.
\<close>

theorem plugin_session:
  assumes "ms_inv (app_scan app)" "app_ok app" "game_ready h mem appID app game regions" "t \<in> {Int16, Int32, Int64}"
    and "RegionsOptimize regions = Some out"
    and "list_all (\<lambda>r. length (region_matches mem (CmpValue (int_value t n)) r) \<le> regionResultsAllocCaps) out"
    and "0 < n" "n < 2 ^ BitSize t"
    and "start = \<lparr>pl_session = \<lparr>found = filter (aligned_holds mem (CmpValue (int_value t n))) (covered_addrs regions), before = [],
           rounds = 1, undoable = False\<rparr>, pl_threshold = app_threshold app\<rparr>"
    and "calls_ready (p_PID game) t calls start"
  shows "\<exists>app' app''. app_FirstScan h appID (digits 10 n) t opt app =
      Some (Some (own_answer (h_float h) (app_threshold app) (int_value t n) (pl_session start)), app') \<and>
    plugin_run calls app' = Some (fst (spec_run t calls start), app'') \<and> plugin_view app'' = snd (spec_run t calls start)"
proof -
  note v = int_value_typed [OF assms(4), where n = n]
  have "parseValue (digits 10 n) t [] = parseValue (digits 10 n) t [False]" by (simp add: parseValue_def)
  then have "parseValue (digits 10 n) t [] = Some (int_value t n)"
    using parseValue_digits [of t 0 n False] assms(4,7,8) by auto
  from app_FirstScan_answers [OF assms(1-3) this v(4) [of opt, symmetric] v(1,2) assms(5,6)] obtain app' where
    app': "app_FirstScan h appID (digits 10 n) t opt app =
        Some (Some (own_answer (h_float h) (app_threshold app) (int_value t n) (ms_view (app_scan app'))), app')"
      "engine_ready (p_PID game) (app_scan app')" "app_game app' = Some game" "app_value app' = Some (int_value t n)"
      "app_threshold app' = app_threshold app"
      "ms_view (app_scan app') = pl_session start"
    by (auto simp: assms(9))
  have "plugin_inv (p_PID game) t app'"
    using app' v(3) app_FirstScan_ok [OF app'(1) assms(2)] by (simp add: plugin_inv_def)
  moreover have "plugin_view app' = start" by (simp add: plugin_view_def app'(5,6)) (simp add: assms(9))
  ultimately obtain app'' where "plugin_run calls app' = Some (fst (spec_run t calls start), app'')" "plugin_view app'' = snd (spec_run t calls start)"
    using plugin_run_refines [of "p_PID game" t app' calls] assms(4,10) by auto
  with app'(1,6) show ?thesis by auto
qed

text \<open>The example: a scan for seven in the sample game, then seven again, a nine written, an undo and a look at the values.\<close>

definition sample_moment :: Moment where
  "sample_moment = \<lparr>mo_host = sample_host, mo_mem = sample_memory, mo_writev = sim_writev (\<lambda>_. True), mo_readv = sim_readv,
     mo_writable = \<lambda>_. True\<rparr>"

definition sample_calls :: "(Moment \<times> call) list" where
  "sample_calls = map (Pair sample_moment) [Call_Next 7, Call_Change 9 [0], Call_Threshold 20, Call_Undo, Call_Refresh]"

lemma sample_calls_ready:
  "calls_ready pid Int64 sample_calls
     \<lparr>pl_session = \<lparr>found = [0x1000], before = [], rounds = 1, undoable = False\<rparr>, pl_threshold = 10\<rparr>"
proof -
  have seven: "int_value Int64 7 = NewInt64 7" by (simp add: int_value_def)
  have "wf_value (NewInt64 7)" "Value_Comparable (NewInt64 7) = Some (CmpValue (NewInt64 7))" "rejects_unread (CmpValue (NewInt64 7))"
    using sample_value(5,6) value_rejects_unread [of "NewInt64 7"] by (simp_all add: typed_value_def)
  then have "sparse_ready sample_memory (NewInt64 7) (CmpValue (NewInt64 7)) addrs" for addrs
    using sample_value(6) by (simp add: sparse_ready_def told_apart_def)
  then have next_ok: "next_ready sample_memory (NewInt64 7) (CmpValue (NewInt64 7)) [0x1000]"
    by (simp add: next_ready_def nextScanSparseThreshold_def IOV_MAX_def)
  have calm: "calm (h_world sample_host) sample_memory pid"
    using sample_calm by (simp add: calm_def sample_host_def sample_world_def sim_readv_reads)
  have reads: "reads_memory (w_readv (h_world sample_host)) pid sample_memory"
    using calm by (simp add: calm_def)
  have total: "value_readable sample_memory sz a" "value_writable (\<lambda>_. True) sz a" for sz a
    by (auto simp: value_readable_def readable_def value_writable_def list_all_iff sample_memory_def)
  have chosen: "length (chosen [0] xs) \<le> IOV_MAX" for xs by (simp add: chosen_def IOV_MAX_def)
  have range: "(7 :: nat) < 2 ^ BitSize Int64" "(9 :: nat) < 2 ^ BitSize Int64" by (simp_all add: BitSize_def)
  show ?thesis
    by (simp add: sample_calls_def sample_moment_def seven next_ok calm reads range chosen visible_def list_all_iff total clean_def
        sim_writev_writes sim_readv_reads Let_def session_next_def)
qed

theorem plugin_session_witness:
  "\<exists>app' app'' r. app_FirstScan sample_host 0 ''7'' Int64 0 sample_app = Some (Some r, app') \<and> res_Count r = 1 \<and>
    plugin_run sample_calls app' = Some (fst (spec_run Int64 sample_calls
      \<lparr>pl_session = \<lparr>found = [0x1000], before = [], rounds = 1, undoable = False\<rparr>, pl_threshold = 10\<rparr>), app'')"
proof -
  obtain regions out where r: "game_ready sample_host sample_memory 0 sample_app (sample_process 8 ''game'' 7 ''game'') regions"
    "RegionsOptimize regions = Some out"
    "list_all (\<lambda>r. length (region_matches sample_memory (CmpValue (int_value Int64 7)) r) \<le> regionResultsAllocCaps) out"
    "map strip regions = [sample_region 4096 12288 11 ''[heap]'', sample_region 28672 32768 11 []]"
    using sample_game_ready by (elim exE conjE) (rule that; assumption)
  have app: "ms_inv (app_scan sample_app)" "app_ok sample_app" "app_threshold sample_app = 10"
    by (simp_all add: sample_app_def sample_engine_ready app_ok_def)
  have digits: "digits 10 7 = ''7''" by code_simp
  have range: "(0 :: nat) < 7" "(7 :: nat) < 2 ^ BitSize Int64" by (simp_all add: BitSize_def)
  from plugin_session [OF app(1,2) r(1) _ r(2,3) range refl, of _ 0, unfolded sample_sevens [OF r(4)] app(3) digits, OF _ sample_calls_ready]
  obtain app' app'' where "app_FirstScan sample_host 0 ''7'' Int64 0 sample_app =
      Some (Some (own_answer (h_float sample_host) 10 (int_value Int64 7) \<lparr>found = [0x1000], before = [], rounds = 1, undoable = False\<rparr>), app')"
    "plugin_run sample_calls app' = Some (fst (spec_run Int64 sample_calls
      \<lparr>pl_session = \<lparr>found = [0x1000], before = [], rounds = 1, undoable = False\<rparr>, pl_threshold = 10\<rparr>), app'')" by auto
  then show ?thesis by (intro exI conjI) (assumption | simp add: own_answer_def)+
qed

end
