(* ===== verification/C_Interface.thy ===== *)
theory C_Interface
  imports Plugin_Session
begin

text \<open>
  The functions the library exports to C (\<^verbatim>\<open>cmd/backend/export.go\<close>): the conversion of their arguments, the call of the
  application, and the JSON text they return. The JSON encoder and the memory behind C pointers are
  parameters; \<open>FreeString\<close> returns a text to the C allocator and has no effect here.
\<close>

section \<open>Arguments and results\<close>

type_synonym c_int = "32 word"
type_synonym c_int64 = "64 word"

text \<open>A pointer to characters: null, or the bytes from there on. \<^verbatim>\<open>C.GoString\<close> reads up to the first NUL.\<close>

type_synonym c_chars = "string option"

definition GoString :: "c_chars \<Rightarrow> string" where
  "GoString p = (case p of None \<Rightarrow> [] | Some s \<Rightarrow> takeWhile (\<lambda>c. c \<noteq> CHR 0x00) s)"

definition CString :: "string \<Rightarrow> string" where
  "CString s = s @ [CHR 0x00]"

text \<open>
  A pointer to numbers: null, or the number at each index. \<^verbatim>\<open>unsafe.Slice\<close> panics on a negative length and on a null
  pointer unless the length is zero.
\<close>

type_synonym 'a c_array = "(nat \<Rightarrow> 'a) option"

definition unsafe_Slice :: "'a c_array \<Rightarrow> int \<Rightarrow> 'a list go" where
  "unsafe_Slice p n =
     (if n < 0 then None
      else case p of
        None \<Rightarrow> if n = 0 then Some [] else None
      | Some f \<Rightarrow> Some (map f [0..<nat n]))"

text \<open>What is encoded as JSON.\<close>

datatype marshalled = MString string | MProcesses "Process list" | MProcess "Process option" | MResults "Results option"

text \<open>The encoder and what the calls meet outside.\<close>

record C_Env =
  ce_marshal :: "marshalled \<Rightarrow> string"
  ce_host :: Host
  ce_writev :: vm_writev
  ce_readv :: "memory \<Rightarrow> vm_readv"

definition returnJSON :: "C_Env \<Rightarrow> marshalled \<Rightarrow> string" where
  "returnJSON e v = CString (ce_marshal e v)"

definition version :: string where "version = ''0.3.0''"

section \<open>The exported functions\<close>

definition export_SetRenderResultsThreshold :: "c_int \<Rightarrow> App \<Rightarrow> App" where
  "export_SetRenderResultsThreshold val app = SetRenderResultsThreshold (sint val) app"

definition export_Version :: "C_Env \<Rightarrow> string" where
  "export_Version e = returnJSON e (MString version)"

definition export_Clear :: "App \<Rightarrow> App" where
  "export_Clear app = app_Clear app"

definition export_ResetScan :: "App \<Rightarrow> App" where
  "export_ResetScan app = ResetScan app"

definition export_GetGameProcesses :: "C_Env \<Rightarrow> c_int64 \<Rightarrow> string go" where
  "export_GetGameProcesses e appID = do {
     processes \<leftarrow> GetGameProcesses (ce_host e) (sint appID);
     Some (returnJSON e (MProcesses processes))
   }"

definition export_SelectGameProcess :: "C_Env \<Rightarrow> c_int64 \<Rightarrow> c_int \<Rightarrow> App \<Rightarrow> (string \<times> App) go" where
  "export_SelectGameProcess e appID pid app = do {
     (process, app) \<leftarrow> SelectGameProcess (ce_host e) (sint appID) (sint pid) app;
     Some (returnJSON e (MProcess process), app)
   }"

definition export_AutoSelectGameProcess :: "C_Env \<Rightarrow> c_int64 \<Rightarrow> App \<Rightarrow> (string \<times> App) go" where
  "export_AutoSelectGameProcess e appID app = do {
     (process, app) \<leftarrow> AutoSelectGameProcess (ce_host e) (sint appID) app;
     Some (returnJSON e (MProcess process), app)
   }"

text \<open>The type and the option keep their low byte.\<close>

definition export_FirstScan :: "C_Env \<Rightarrow> c_int64 \<Rightarrow> c_chars \<Rightarrow> c_int \<Rightarrow> c_int \<Rightarrow> App \<Rightarrow> (string \<times> App) go" where
  "export_FirstScan e appID val valueType opt app = do {
     (results, app) \<leftarrow> app_FirstScan (ce_host e) (sint appID) (GoString val) (ucast valueType) (ucast opt) app;
     Some (returnJSON e (MResults results), app)
   }"

definition export_NextScan :: "C_Env \<Rightarrow> c_chars \<Rightarrow> App \<Rightarrow> (string \<times> App) go" where
  "export_NextScan e val app = do {
     (results, app) \<leftarrow> app_NextScan (ce_host e) (GoString val) app;
     Some (returnJSON e (MResults results), app)
   }"

definition export_UndoScan :: "C_Env \<Rightarrow> App \<Rightarrow> (string \<times> App) go" where
  "export_UndoScan e app = do {
     (results, app) \<leftarrow> app_UndoScan (ce_host e) app;
     Some (returnJSON e (MResults results), app)
   }"

definition export_ChangeValues ::
  "C_Env \<Rightarrow> c_chars \<Rightarrow> c_int c_array \<Rightarrow> c_int \<Rightarrow> App \<Rightarrow> memory \<Rightarrow> (string \<times> App \<times> memory) go" where
  "export_ChangeValues e val cIndexes n app mem = do {
     idxSlice \<leftarrow> unsafe_Slice cIndexes (sint n);
     let converted = map sint idxSlice;
     ((results, app), mem) \<leftarrow> app_ChangeValues (ce_host e) (ce_writev e) (ce_readv e) (GoString val) converted app mem;
     Some (returnJSON e (MResults results), app, mem)
   }"

definition export_RefreshValues :: "C_Env \<Rightarrow> App \<Rightarrow> (string \<times> App) go" where
  "export_RefreshValues e app = do {
     (results, app) \<leftarrow> RefreshValues (ce_host e) app;
     Some (returnJSON e (MResults results), app)
   }"

section \<open>A caller\<close>

text \<open>The calls of a C program one after the other, each in circumstances of its own.\<close>

datatype c_call =
    CallThreshold c_int
  | CallVersion
  | CallClear
  | CallReset
  | CallGet c_int64
  | CallSelect c_int64 c_int
  | CallAuto c_int64
  | CallFirst c_int64 c_chars c_int c_int
  | CallNext c_chars
  | CallUndo
  | CallChange c_chars "c_int c_array" c_int
  | CallRefresh

fun export :: "C_Env \<Rightarrow> c_call \<Rightarrow> App \<times> memory \<Rightarrow> (string option \<times> App \<times> memory) go" where
  "export e (CallThreshold n) (app, mem) = Some (None, export_SetRenderResultsThreshold n app, mem)"
| "export e CallVersion (app, mem) = Some (Some (export_Version e), app, mem)"
| "export e CallClear (app, mem) = Some (None, export_Clear app, mem)"
| "export e CallReset (app, mem) = Some (None, export_ResetScan app, mem)"
| "export e (CallGet appID) (app, mem) = do { s \<leftarrow> export_GetGameProcesses e appID; Some (Some s, app, mem) }"
| "export e (CallSelect appID pid) (app, mem) =
     do { (s, app) \<leftarrow> export_SelectGameProcess e appID pid app; Some (Some s, app, mem) }"
| "export e (CallAuto appID) (app, mem) = do { (s, app) \<leftarrow> export_AutoSelectGameProcess e appID app; Some (Some s, app, mem) }"
| "export e (CallFirst appID val t opt) (app, mem) =
     do { (s, app) \<leftarrow> export_FirstScan e appID val t opt app; Some (Some s, app, mem) }"
| "export e (CallNext val) (app, mem) = do { (s, app) \<leftarrow> export_NextScan e val app; Some (Some s, app, mem) }"
| "export e CallUndo (app, mem) = do { (s, app) \<leftarrow> export_UndoScan e app; Some (Some s, app, mem) }"
| "export e (CallChange val p n) (app, mem) =
     do { (s, app, mem) \<leftarrow> export_ChangeValues e val p n app mem; Some (Some s, app, mem) }"
| "export e CallRefresh (app, mem) = do { (s, app) \<leftarrow> export_RefreshValues e app; Some (Some s, app, mem) }"

fun exports :: "(C_Env \<times> c_call) list \<Rightarrow> App \<times> memory \<Rightarrow> (string option list \<times> App \<times> memory) go" where
  "exports [] state = Some ([], state)"
| "exports ((e, call) # calls) state = do {
     (reply, state) \<leftarrow> export e call state;
     (replies, state) \<leftarrow> exports calls state;
     Some (reply # replies, state)
   }"

section \<open>What every caller can rely on\<close>

text \<open>A reply is the encoding of a value, and results have at most a hundred rows.\<close>

definition reply_ok :: "C_Env \<Rightarrow> string option \<Rightarrow> bool" where
  "reply_ok e reply \<longleftrightarrow> (case reply of None \<Rightarrow> True
     | Some s \<Rightarrow> \<exists>m. s = returnJSON e m \<and> (case m of MResults res \<Rightarrow> rows_bounded res | _ \<Rightarrow> True))"

lemma reply_ok_intros:
  "reply_ok e None" "reply_ok e (Some (returnJSON e (MString s)))" "reply_ok e (Some (returnJSON e (MProcesses ps)))"
  "reply_ok e (Some (returnJSON e (MProcess p)))" "rows_bounded res \<Longrightarrow> reply_ok e (Some (returnJSON e (MResults res)))"
  by (auto simp: reply_ok_def intro: exI [of _ "MString s"] exI [of _ "MProcesses ps"] exI [of _ "MProcess p"]
      exI [of _ "MResults res"])

lemma export_ok:
  assumes "export e call (app, mem) = Some (reply, app', mem')" "app_ok app"
  shows "app_ok app' \<and> reply_ok e reply"
proof (cases call)
  case (CallThreshold n)
  with assms app_step_ok [OF app_step.threshold] show ?thesis
    by (auto simp: export_SetRenderResultsThreshold_def reply_ok_intros)
next
  case CallVersion
  with assms show ?thesis by (auto simp: export_Version_def reply_ok_intros)
next
  case CallClear
  with assms app_step_ok [OF app_step.clear] show ?thesis by (auto simp: export_Clear_def reply_ok_intros)
next
  case CallReset
  with assms app_step_ok [OF app_step.reset] show ?thesis by (auto simp: export_ResetScan_def reply_ok_intros)
next
  case (CallGet appID)
  with assms show ?thesis
    by (auto simp: export_GetGameProcesses_def reply_ok_intros split: Option.bind_splits)
next
  case (CallSelect appID pid)
  with assms app_step_ok [OF app_step.select] show ?thesis
    by (auto simp: export_SelectGameProcess_def reply_ok_intros split: Option.bind_splits)
next
  case (CallAuto appID)
  with assms app_step_ok [OF app_step.auto] show ?thesis
    by (auto simp: export_AutoSelectGameProcess_def reply_ok_intros split: Option.bind_splits)
next
  case (CallFirst appID val t opt)
  with assms app_step_ok [OF app_step.first] show ?thesis
    by (auto simp: export_FirstScan_def reply_ok_intros split: Option.bind_splits)
next
  case (CallNext val)
  with assms app_step_ok [OF app_step.again] show ?thesis
    by (auto simp: export_NextScan_def reply_ok_intros split: Option.bind_splits)
next
  case CallUndo
  with assms app_step_ok [OF app_step.undo] show ?thesis
    by (auto simp: export_UndoScan_def reply_ok_intros split: Option.bind_splits)
next
  case (CallChange val p n)
  with assms app_step_ok [OF app_step.change] show ?thesis
    by (auto simp: export_ChangeValues_def reply_ok_intros Let_def split: Option.bind_splits)
next
  case CallRefresh
  with assms app_step_ok [OF app_step.refresh] show ?thesis
    by (auto simp: export_RefreshValues_def reply_ok_intros split: Option.bind_splits)
qed

lemma exports_ok:
  "exports calls state = Some (replies, state') \<Longrightarrow> app_ok (fst state) \<Longrightarrow>
    app_ok (fst state') \<and> list_all2 (\<lambda>(e, call) reply. reply_ok e reply) calls replies"
proof (induction calls state arbitrary: replies rule: exports.induct)
  case (2 e call calls state)
  from 2(2) obtain reply state1 replies1 where s: "export e call state = Some (reply, state1)"
    "exports calls state1 = Some (replies1, state')" "replies = reply # replies1"
    by (auto split: Option.bind_splits)
  with export_ok [of e call "fst state" "snd state" reply "fst state1" "snd state1"] 2(3)
  have "app_ok (fst state1)" "reply_ok e reply" by simp_all
  with 2(1) [OF s(1) refl s(2)] s(3) show ?case by simp
qed simp

text \<open>
  C24: whatever functions a C program calls, in any order, with any arguments and in any circumstances, as long as none panics the
  library keeps its threshold between 10 and 100 and its value, if any, a well-formed number, and every text
  returned is the encoding of a value, results having at most a hundred rows.
\<close>

theorem exports_invariant:
  assumes "app_init sys = Some app" "exports calls (app, mem) = Some (replies, app', mem')"
  shows "app_ok app' \<and> list_all2 (\<lambda>(e, call) reply. reply_ok e reply) calls replies"
proof -
  have "app_reachable app" using assms(1) by (auto simp: app_reachable_def)
  with exports_ok [OF assms(2)] app_reachable_ok show ?thesis by simp
qed

text \<open>The example: the threshold is set, the version asked for, a next scan tried too early and everything cleared.\<close>

definition sample_env :: C_Env where
  "sample_env = \<lparr>ce_marshal = \<lambda>m. (case m of MString s \<Rightarrow> s | _ \<Rightarrow> ''null''), ce_host = sample_host,
     ce_writev = \<lambda>_ _ _ mem. ((-1, Some EFAULT), mem), ce_readv = \<lambda>mem. sim_readv sample_memory\<rparr>"

theorem exports_invariant_witness:
  "\<exists>app app'. app_init (\<lambda>_. False) = Some app \<and>
    exports (map (Pair sample_env) [CallThreshold 50, CallVersion, CallNext (Some (''7'' @ [CHR 0x00])), CallClear]) (app, sample_memory) =
      Some ([None, Some (''0.3.0'' @ [CHR 0x00]), Some (''null'' @ [CHR 0x00]), None], app', sample_memory) \<and>
    app_threshold app' = 50 \<and> app_ok app'"
proof -
  obtain app where app: "app_init (\<lambda>_. False) = Some app"
    by (simp add: app_init_def NewMemscan_def NewMmapUint64_def resultsAllocCaps_def Let_def)
  then have fields: "app_threshold app = 10" "app_game app = None"
    by (auto simp: app_init_def defRenderResultsThreshold_def split: Option.bind_splits)
  define app' where "app' = app_Clear (app\<lparr>app_threshold := 50\<rparr>)"
  have "export_SetRenderResultsThreshold 50 app = app\<lparr>app_threshold := 50\<rparr>"
    by (simp add: export_SetRenderResultsThreshold_def SetRenderResultsThreshold_def MinResultsThreshold_def
        MaxResultsThreshold_def fields(1))
  then have run: "exports (map (Pair sample_env) [CallThreshold 50, CallVersion, CallNext (Some (''7'' @ [CHR 0x00])), CallClear])
      (app, sample_memory) =
    Some ([None, Some (''0.3.0'' @ [CHR 0x00]), Some (''null'' @ [CHR 0x00]), None], app', sample_memory)"
    by (simp add: export_Version_def export_NextScan_def app_NextScan_def returnJSON_def CString_def version_def sample_env_def
        fields(2) export_Clear_def app'_def)
  from exports_invariant [OF app run] have "app_ok app'" by simp
  moreover have "app_threshold app' = 50" by (simp add: app'_def app_Clear_def ResetScan_def)
  ultimately show ?thesis using app run by blast
qed

section \<open>Arguments that cannot be right\<close>

lemma export_ChangeValues_panics:
  "sint n < 0 \<or> (p = None \<and> n \<noteq> 0) \<Longrightarrow> export_ChangeValues e val p n app mem = None"
  by (auto simp: export_ChangeValues_def unsafe_Slice_def signed_eq_0_iff)

text \<open>Only the low byte of the number of a type counts, so that 259 is scanned for as \<open>Int32\<close>.\<close>

lemma export_FirstScan_type:
  "(ucast t :: u8) = ucast t' \<Longrightarrow> export_FirstScan e appID val t opt app = export_FirstScan e appID val t' opt app"
  by (simp add: export_FirstScan_def)

end
