(* ===== verification/Scan_Safety.thy ===== *)
theory Scan_Safety
  imports Scan_Results "HOL-Library.Sublist"
begin

text \<open>
  What remains true of a first scan when everything outside the program goes wrong: pages that vanish or were never
  readable, mappings the kernel refuses, a scan cancelled at any moment, a semaphore that stops admitting tasks.
  The results are then a part of the complete answer, in its order: never a wrong address, never one twice.
\<close>

section \<open>One task\<close>

text \<open>A position of a region where the task may report: aligned, inside, and holding an accepted value.\<close>

definition true_hit :: "memory \<Rightarrow> ValueComparable \<Rightarrow> u64 \<Rightarrow> nat \<Rightarrow> nat \<Rightarrow> bool" where
  "true_hit mem cmp start z p \<longleftrightarrow> p + comp_Size cmp \<le> z \<and> p mod comp_Size cmp = 0 \<and> holds mem cmp (of_nat p + start)"

lemma true_hits_few:
  assumes "sorted_wrt (<) ps" "list_all (true_hit mem cmp start z) ps" "0 < comp_Size cmp"
  shows "length ps \<le> z div comp_Size cmp"
  using assms distinct_multiples [of ps 0 "comp_Size cmp" z]
  by (simp add: true_hit_def list_all_iff)

lemma collect_total:
  assumes "NewMmapUint64 sys caps = Some (Some buf)" "caps < 2 ^ 59" "length xs < 2 ^ 59"
  shows "\<exists>s. go_fold (batch_add put_ignoring) xs ([], buf) = Some s"
proof -
  from collect_into_new [OF assms] have "collect_into xs buf \<noteq> None" by auto
  then show ?thesis by (auto simp: collect_into_def bind_eq_None_conv)
qed

lemma bytes_hold:
  assumes "rr.bytes_at mem start p b" "length b = comp_Size cmp" "comp_EqualBytes cmp b = Some True"
  shows "holds mem cmp (of_nat p + start)"
proof -
  have b: "mem (of_nat p + start + of_nat j) = Some (b ! j)" if "j < length b" for j
    using assms(1) that by (simp add: rr.bytes_at_def mem_from_def ac_simps)
  then have "value_at mem (comp_Size cmp) (of_nat p + start) = b"
    using assms(2) by (intro nth_equalityI) (simp_all add: value_at_def contents_at_def iov_addrs_def)
  moreover have "value_readable mem (comp_Size cmp) (of_nat p + start)"
    using b assms(2) by (auto simp: value_readable_def readable_def list_all_iff iov_addrs_def)
  ultimately show ?thesis using assms(3) by (simp add: holds_def)
qed

lemma taskFirstScan_safe:
  assumes "reads_memory vm pid mem" "z = unat (End region - Start region)" "z < 2 ^ 58" "typed_value v cmp"
    and "NewScanner v = Some scan"
  shows "\<exists>out ps. taskFirstScan sys ctx vm pid scan region = Some out \<and> sorted_wrt (<) ps \<and>
    list_all (true_hit mem cmp (Start region) z) ps \<and>
    leaves (map (\<lambda>p. of_nat p + Start region) ps) regionResultsAllocCaps out"
proof (cases "NewMmapUint64 sys regionResultsAllocCaps")
  case None
  then show ?thesis by (simp add: NewMmapUint64_def Let_def regionResultsAllocCaps_val split: if_splits)
next
  case created: (Some created)
  show ?thesis
  proof (cases created)
    case None
    with created show ?thesis by (intro exI [of _ None] exI [of _ "[]"]) (simp add: taskFirstScan_def leaves_def)
  next
    case (Some buf)
    with created have new: "NewMmapUint64 sys regionResultsAllocCaps = Some (Some buf)" by simp
    define start where "start = Start region"
    define addr where "addr p = of_nat p + start" for p
    note size = typed_value_size(1,2) [OF assms(4)]
    have v: "wf_value v" "v_data v \<noteq> []" "Aligned v" "Value_Comparable v = Some cmp"
      using assms(4) by (simp_all add: typed_value_def)
    have len: "length (v_data v) < 2 ^ 61" using aligned_small [OF v(1,3)] by simp
    have total: "\<exists>s. go_fold (batch_add put_ignoring) (map addr ps) ([], buf) = Some s"
      if "sorted_wrt (<) ps" "list_all (true_hit mem cmp start z) ps" for ps
    proof -
      have "length ps \<le> z div comp_Size cmp" by (rule true_hits_few [OF that size(2)])
      also have "\<dots> \<le> z" by (rule div_le_dividend)
      finally show ?thesis using assms(3) by (intro collect_total [OF new]) (simp_all add: regionResultsAllocCaps_val)
    qed
    define J where "J k s \<longleftrightarrow> (\<exists>ps. sorted_wrt (<) ps \<and> list_all (true_hit mem cmp start z) ps \<and> list_all (\<lambda>p. p < k) ps \<and>
      go_fold (batch_add put_ignoring) (map addr ps) ([], buf) = Some s)" for k s
    have "unat (End region - start) < 2 ^ 63" using assms(2,3) by (simp add: start_def)
    note ok = getRegionReader_ok [OF assms(1) this, of pooled_reader]
    have "\<exists>s r' c' k'. NewScannerBuffer v defScanBufferSize = Some s \<and>
      ScanCollector ctx (rr_Read vm) (Some rr_seek_start) None s (Some (first_collector start))
        (getRegionReader pid start (End region) pooled_reader) ([], buf) = Some (r', c') \<and> J k' c'"
    proof (rule rr.ScanCollector_safe [where J = J, OF v(1,2) _ len])
      fix k k' s assume "J k s" "k \<le> k'"
      then show "J k' s" unfolding J_def by (elim exE conjE) (intro exI conjI, assumption, assumption, auto simp: list_all_iff)
    next
      fix cmp' k p b s
      assume s: "Value_Comparable v = Some cmp'" "J k s" "k \<le> p" "p + comp_Size cmp' \<le> unat (End region - start)"
        "rr.bytes_at mem start p b" "comp_EqualBytes cmp' b = Some True" "length b = comp_Size cmp'"
        "Aligned v \<longrightarrow> p mod comp_Size cmp' = 0"
      from s(1) v(4) have cmp: "cmp' = cmp" by simp
      from s(2) obtain ps where ps: "sorted_wrt (<) ps" "list_all (true_hit mem cmp start z) ps" "list_all (\<lambda>p. p < k) ps"
        "go_fold (batch_add put_ignoring) (map addr ps) ([], buf) = Some s"
        unfolding J_def by (elim exE conjE) (rule that; assumption)
      have "true_hit mem cmp start z p"
        using s(4,8) v(3) bytes_hold [OF s(5,7,6)] by (simp add: true_hit_def cmp assms(2) start_def)
      with ps(2) have hits: "list_all (true_hit mem cmp start z) (ps @ [p])" by simp
      have sorted: "sorted_wrt (<) (ps @ [p])" using ps(1,3) s(3) by (fastforce simp: sorted_wrt_append list_all_iff)
      obtain s' where s': "go_fold (batch_add put_ignoring) (map addr (ps @ [p])) ([], buf) = Some s'"
        using total [OF sorted hits] by blast
      with ps(4) have "batch_add put_ignoring (addr p) s = Some s'"
        by (cases "batch_add put_ignoring (addr p) s") (simp_all add: go_fold_append)
      then have "first_collector start (int p) s = Some (True, s')" by (simp add: first_collector_def addr_def)
      moreover have "J (Suc p) s'"
        unfolding J_def using sorted hits s' ps(3) s(3) by (intro exI [of _ "ps @ [p]"]) (auto simp: list_all_iff)
      ultimately show "\<exists>continue s'. first_collector start (int p) s = Some (continue, s') \<and> J (Suc p) s'" by blast
    qed (use ok assms(2,3) in \<open>auto simp: start_def J_def intro: exI [of _ "[]"]\<close>)
    then obtain r' s k where run: "ScanCollector ctx (rr_Read vm) (Some rr_seek_start) None scan (Some (first_collector start))
        (Pipe pid region) ([], buf) = Some (r', s)" "J k s"
      using assms(5) by (auto simp: NewScanner_def Pipe_def start_def)
    from run(2) obtain ps where ps: "sorted_wrt (<) ps" "list_all (true_hit mem cmp start z) ps"
      "go_fold (batch_add put_ignoring) (map addr ps) ([], buf) = Some s"
      unfolding J_def by (elim exE conjE) (rule that; assumption)
    have "length ps \<le> z"
      using true_hits_few [OF ps(1,2) size(2)] div_le_dividend order_trans by blast
    then have "length (map addr ps) < 2 ^ 59" using assms(3) by simp
    from task_leaves [OF new _ this] obtain buf' where "collect_into (map addr ps) buf = Some buf'"
      "leaves (map addr ps) regionResultsAllocCaps (task_outcome buf')"
      by (auto simp: regionResultsAllocCaps_val)
    moreover from this(1) ps(3) have "batch_flush put_ignoring s = Some buf'" by (simp add: collect_into_def)
    ultimately show ?thesis
      using new run(1) ps(1,2)
      by (intro exI [of _ "task_outcome buf'"] exI [of _ ps])
        (simp add: taskFirstScan_def start_def addr_def [abs_def])
  qed
qed

section \<open>A part of the complete answer\<close>

lemma sorted_subset_subseq:
  assumes "sorted_wrt (<) xs" "sorted_wrt (<) (ys :: 'a :: linorder list)" "set xs \<subseteq> set ys"
  shows "subseq xs ys"
proof -
  have "xs = filter (\<lambda>y. y \<in> set xs) ys"
    using assms by (intro strict_sorted_equal sorted_wrt_filter) auto
  then show ?thesis by (metis subseq_filter_left)
qed

lemma hits_subseq:
  assumes "wf_region r" "paged_region r" "0 < comp_Size cmp" "comp_Size cmp dvd 4096"
    and "sorted_wrt (<) ps" "list_all (true_hit mem cmp (Start r) (unat (End r - Start r))) ps"
  shows "subseq (map (\<lambda>p. of_nat p + Start r) ps) (filter (aligned_holds mem cmp) (region_addrs r))"
proof (rule sorted_subset_subseq)
  define z where "z = unat (End r - Start r)"
  have span: "unat (Start r) + z < 2 ^ 64" "unat (Start r) + z = unat (End r)"
    using region_span(2) [OF assms(1)] unsigned_less [of "End r", where 'a = nat] by (simp_all add: z_def)
  have hit: "p + comp_Size cmp \<le> z" "p mod comp_Size cmp = 0" "holds mem cmp (of_nat p + Start r)" if "p \<in> set ps" for p
    using assms(6) that by (auto simp: list_all_iff true_hit_def z_def)
  have u: "unat (of_nat p + Start r) = p + unat (Start r)" if "p \<in> set ps" for p
  proof -
    have "p + unat (Start r) < 2 ^ 64" using hit(1) [OF that] span(1) by linarith
    then show ?thesis by (simp add: unat_word_ariths unat_of_nat)
  qed
  show "sorted_wrt (<) (map (\<lambda>p. of_nat p + Start r) ps)"
    unfolding sorted_wrt_map
    by (rule sorted_wrt_mono_rel [OF _ assms(5)]) (simp add: word_less_nat_alt u)
  show "sorted_wrt (<) (filter (aligned_holds mem cmp) (region_addrs r))"
    by (intro sorted_wrt_filter) (simp add: region_addrs_def sorted_addr_range)
  show "set (map (\<lambda>p. of_nat p + Start r) ps) \<subseteq> set (filter (aligned_holds mem cmp) (region_addrs r))"
  proof
    fix a assume "a \<in> set (map (\<lambda>p. of_nat p + Start r) ps)"
    then obtain p where p: "p \<in> set ps" "a = of_nat p + Start r" by auto
    have "comp_Size cmp dvd p + unat (Start r)"
      using paged_dvd(1) [OF assms(2,4)] hit(2) [OF p(1)] by (simp add: dvd_add mod_0_imp_dvd)
    then have "unat a mod comp_Size cmp = 0" by (simp add: p(2) u [OF p(1)])
    moreover have "Start r \<le> a" "a < End r"
      using hit(1) [OF p(1)] u [OF p(1)] span(2) assms(3) by (simp_all add: p(2) word_le_nat_alt word_less_nat_alt)
    ultimately show "a \<in> set (filter (aligned_holds mem cmp) (region_addrs r))"
      using hit(3) [OF p(1)] by (simp add: aligned_holds_def p(2) region_addrs_def set_addr_range)
  qed
qed

text \<open>A buffer the kernel gives no room for is dropped; the others are appended.\<close>

lemma merge_part:
  assumes "list_all2 outcome_fits xss outs" "mm_inv r" "length (mm_contents r @ concat xss) \<le> 2 ^ 57" "mm_capacity r \<le> 2 ^ 58"
  shows "\<exists>r' ys. merge_buffers sys outs r = Some r' \<and> mm_inv r' \<and> mm_contents r' = mm_contents r @ ys \<and>
    subseq ys (concat xss) \<and> mm_capacity r' \<le> 2 ^ 58"
  using assms
proof (induction xss outs arbitrary: r rule: list_all2_induct)
  case Nil
  then show ?case by (auto simp: merge_buffers_def)
next
  case (Cons xs xss out outs)
  from Cons.hyps(1) obtain caps where caps: "length xs \<le> caps" "leaves xs caps out" by (auto simp: outcome_fits_def)
  show ?case
  proof (cases "xs = []")
    case True
    with caps have "out = None" by (simp add: leaves_def)
    with True Cons.IH [of r] Cons.prems show ?thesis by (simp add: merge_one)
  next
    case False
    with caps obtain b where b: "out = Some b" "mm_inv b" "mm_contents b = xs" by (auto simp: leaves_def)
    have bound: "length (mm_contents r) + length xs + length (concat xss) \<le> 2 ^ 57" using Cons.prems(2) by simp
    have "2 * length (mm_data r) < 2 ^ 60" using Cons.prems(3) by (simp add: mm_capacity_def)
    moreover have "length (mm_contents r) + length (mm_contents b) < 2 ^ 60"
      using bound by (simp add: b(3))
    ultimately consider r1 where "mm_Merge sys (Some b) r = Some (None, r1)" "mm_inv r1" "mm_contents r1 = mm_contents r @ xs"
        "mm_capacity r1 \<le> max (mm_capacity r) (2 * (length (mm_contents r) + length xs))"
      | "mm_Merge sys (Some b) r = Some (Some ErrMergeGrow, r)"
      using mm_Merge_fits [OF Cons.prems(1) b(2), of sys] b(3) by blast
    then show ?thesis
    proof cases
      case 1
      have "mm_capacity r1 \<le> 2 ^ 58" using 1(4) Cons.prems(3) bound by simp
      moreover have "length (mm_contents r1 @ concat xss) \<le> 2 ^ 57" using bound 1(3) by simp
      ultimately obtain r' ys where r': "merge_buffers sys outs r1 = Some r'" "mm_inv r'" "mm_contents r' = mm_contents r1 @ ys"
        "subseq ys (concat xss)" "mm_capacity r' \<le> 2 ^ 58"
        using Cons.IH [OF 1(2)] by blast
      have "subseq (xs @ ys) (concat (xs # xss))" using r'(4) by (simp add: list_emb_append_mono)
      with r' 1(1,3) b(1) show ?thesis by (intro exI [of _ r'] exI [of _ "xs @ ys"]) (simp add: merge_one)
    next
      case 2
      have "length (mm_contents r @ concat xss) \<le> 2 ^ 57" using bound by simp
      with Cons.IH [OF Cons.prems(1)] Cons.prems(3) obtain r' ys where r': "merge_buffers sys outs r = Some r'" "mm_inv r'"
        "mm_contents r' = mm_contents r @ ys" "subseq ys (concat xss)" "mm_capacity r' \<le> 2 ^ 58" by blast
      have "subseq ys (concat (xs # xss))" using r'(4) by (simp add: list_emb_append2)
      with r' 2 b(1) show ?thesis by (intro exI [of _ r'] exI [of _ ys]) (simp add: merge_one)
    qed
  qed
qed

section \<open>The whole scan\<close>

text \<open>What is left of \<open>mapped\<close> when nothing is known about the pages: the mappings listed are whole pages.\<close>

definition listed :: "World \<Rightarrow> Memscan \<Rightarrow> Region list \<Rightarrow> bool" where
  "listed w m regions \<longleftrightarrow>
     (\<exists>exe. ms_maps m = Some exe \<and> Maps_Parse exe (w_maps w) [REGION_ALL_RW] = Some regions) \<and>
     list_all wf_region regions \<and> list_all paged_region regions \<and> length (covered_addrs regions) \<le> 2 ^ 57"

lemma outcome_fits_none: "outcome_fits [] None"
  by (simp add: outcome_fits_def leaves_def)

text \<open>What a task leaves is a part of the list of all it should find.\<close>

definition part_of :: "u64 list \<Rightarrow> MmapUint64 option \<Rightarrow> bool" where
  "part_of ys out \<longleftrightarrow> (\<exists>xs. outcome_fits xs out \<and> subseq xs ys)"

lemma part_of_none: "part_of ys None"
  unfolding part_of_def using outcome_fits_none by (intro exI [of _ "[]"]) simp

lemma part_of_leaves: "leaves xs caps out \<Longrightarrow> length xs \<le> caps \<Longrightarrow> subseq xs ys \<Longrightarrow> part_of ys out"
  unfolding part_of_def outcome_fits_def by blast

text \<open>The outcomes of the tasks, of those that were admitted and of those that were not.\<close>

lemma run_part:
  assumes "\<forall>i < m. \<exists>out. task i = Some out \<and> part_of (ys i) out"
  shows "\<exists>bufs xss. run_tasks task m n = Some bufs \<and> list_all2 outcome_fits xss bufs \<and>
    list_all2 subseq xss (map ys [0..<n])"
proof -
  from assms obtain xs where xs: "\<forall>i < m. outcome_fits (xs i) (the (task i)) \<and> subseq (xs i) (ys i)"
    unfolding part_of_def by (metis option.sel)
  define xss where "xss = map (\<lambda>i. if i < m then xs i else []) [0..<n]"
  have "run_tasks task m n = Some (outcomes task m n {})"
    using assms by (intro run_tasks_outcomes) fastforce
  moreover have "list_all2 outcome_fits xss (outcomes task m n {})"
    using xs by (simp add: list_all2_conv_all_nth outcomes_def xss_def outcome_fits_none)
  moreover have "list_all2 subseq xss (map ys [0..<n])"
    using xs by (simp add: list_all2_conv_all_nth xss_def)
  ultimately show ?thesis by (intro exI conjI)
qed

lemma subseq_concat: "list_all2 subseq xss yss \<Longrightarrow> subseq (concat xss) (concat yss)"
  by (induction rule: list_all2_induct) (simp_all add: list_emb_append_mono)

text \<open>
  No more true matches in a region than its task's buffer has room for; so it is, whatever the memory, for values of eight bytes.
\<close>

definition few_matches :: "memory \<Rightarrow> ValueComparable \<Rightarrow> Region \<Rightarrow> bool" where
  "few_matches mem cmp r \<longleftrightarrow> length (filter (aligned_holds mem cmp) (region_addrs r)) \<le> regionResultsAllocCaps"

lemma wide_few_matches:
  assumes "piece_ok r" "paged_region r" "typed_value v cmp" "8 \<le> Value_Size v"
  shows "few_matches mem cmp r"
proof -
  note size = typed_value_size(1-3) [OF assms(3)]
  have "length (filter (aligned_holds mem cmp) (region_addrs r)) \<le> 2097152 div comp_Size cmp"
    by (rule aligned_few [OF assms(1,2) size(2,3)])
  also have "\<dots> \<le> 2097152 div 8" using assms(4) size(1) by (intro div_le_mono2) simp_all
  finally show ?thesis by (simp add: few_matches_def regionResultsAllocCaps_val)
qed

lemma first_task_part:
  assumes "reads_memory vm pid mem" "piece_ok r" "paged_region r" "typed_value v cmp" "few_matches mem cmp r"
    and "NewScanner v = Some scan"
  shows "\<exists>out. taskFirstScan sys ctx vm pid scan r = Some out \<and> part_of (filter (aligned_holds mem cmp) (region_addrs r)) out"
proof -
  define z where "z = unat (End r - Start r)"
  have r: "wf_region r" "z \<le> 2097152" using assms(2) by (auto simp: piece_ok_def wf_region_def z_def)
  then have "z < 2 ^ 58" by simp
  from taskFirstScan_safe [OF assms(1) z_def this assms(4,6)] obtain out ps where
    ps: "taskFirstScan sys ctx vm pid scan r = Some out" "sorted_wrt (<) ps" "list_all (true_hit mem cmp (Start r) z) ps"
    "leaves (map (\<lambda>p. of_nat p + Start r) ps) regionResultsAllocCaps out"
    by blast
  have sub: "subseq (map (\<lambda>p. of_nat p + Start r) ps) (filter (aligned_holds mem cmp) (region_addrs r))"
    using hits_subseq [OF r(1) assms(3) typed_value_size(2,3) [OF assms(4)] ps(2) ps(3) [unfolded z_def]] .
  with list_emb_length [OF sub] assms(5) have "length (map (\<lambda>p. of_nat p + Start r) ps) \<le> regionResultsAllocCaps"
    by (simp add: few_matches_def)
  from part_of_leaves [OF ps(4) this sub] ps(1) show ?thesis by blast
qed

lemma launched_le: "launched w n \<le> n"
  by (simp add: launched_def) (metis length_takeWhile_le length_upt minus_nat.diff_0)

text \<open>The first scan in any world, when no region holds too many matches.\<close>

lemma FirstScan_part:
  assumes "ms_inv m" "ms_proc m = Some pid" "reads_memory (w_readv w) pid mem" "listed w m regions"
    and "typed_value v cmp" "RegionsOptimize regions = Some out" "8 \<le> Value_Size v \<or> list_all (few_matches mem cmp) out"
  shows "\<exists>m'. FirstScan w v m = Some m' \<and> ms_inv m' \<and> ms_proc m' = Some pid \<and> ms_ctx m' = Some False \<and>
    subseq (found (ms_view m')) (filter (aligned_holds mem cmp) (covered_addrs regions))"
proof -
  obtain exe where m: "ms_maps m = Some exe" "Maps_Parse exe (w_maps w) [REGION_ALL_RW] = Some regions"
    "list_all wf_region regions" "list_all paged_region regions" "length (covered_addrs regions) \<le> 2 ^ 57"
    using assms(4) by (auto simp: listed_def)
  have reset: "ms_inv (Reset m)" "found (ms_view (Reset m)) = []" "ms_proc (Reset m) = Some pid" "ms_maps (Reset m) = Some exe"
    "ms_ctx (Reset m) = Some False"
    using Reset_empty [OF assms(1)] assms(2) m(1) by (simp_all add: Reset_def Cancel_def)
  from reset(1) obtain r p where r: "ms_results (Reset m) = Some r" "ms_prevResults (Reset m) = Some p"
    "array_ok r" "array_ok p" "mm_contents r = []"
    by (rule ms_invE) (simp add: reset(2))
  show ?thesis
  proof (cases "w_alive w pid")
    case False
    with r(1) reset(3) have "FirstScan w v m = Some (Close (Reset m))" by (simp add: FirstScan_def)
    with reset show ?thesis by (auto simp: Close_def ms_inv_def ms_view_def)
  next
    case True
    from RegionsOptimize_correct [OF m(3)] m(4) assms(6) have out: "RegionsOptimize regions = Some out"
      "covered_addrs out = covered_addrs regions" "list_all piece_ok out" "list_all paged_region out" by auto
    have few: "list_all (few_matches mem cmp) out"
      using assms(7) wide_few_matches [OF _ _ assms(5)] out(3,4) by (auto simp: list_all_iff)
    obtain scan where scan: "NewScanner v = Some scan"
      using NewScanner_total [of v] assms(5) by (auto simp: typed_value_def)
    define ys where "ys i = filter (aligned_holds mem cmp) (region_addrs (out ! i))" for i
    have "\<forall>i < launched w (length out). \<exists>res. taskFirstScan (w_task_sys w i) (w_ctx w i) (w_readv w) pid scan (out ! i) =
        Some res \<and> part_of (ys i) res"
      using first_task_part [OF assms(3) _ _ assms(5) _ scan] few out(3,4) launched_le [of w "length out"]
      by (simp add: list_all_length ys_def)
    from run_part [OF this, of "length out"] obtain bufs xss where
      bufs: "run_tasks (\<lambda>i. taskFirstScan (w_task_sys w i) (w_ctx w i) (w_readv w) pid scan (out ! i))
        (launched w (length out)) (length out) = Some bufs" "list_all2 outcome_fits xss bufs"
      "list_all2 subseq xss (map ys [0..<length out])"
      by (elim exE conjE) (rule that; assumption)
    have "concat (map ys [0..<length out]) = filter (aligned_holds mem cmp) (covered_addrs out)"
    proof -
      have "map ys [0..<length out] = map (filter (aligned_holds mem cmp)) (map region_addrs (map ((!) out) [0..<length out]))"
        by (simp add: ys_def comp_def)
      also have "map ((!) out) [0..<length out] = out" by (rule map_nth)
      finally show ?thesis by (simp only: filter_concat covered_addrs_def)
    qed
    with subseq_concat [OF bufs(3)] have part: "subseq (concat xss) (filter (aligned_holds mem cmp) (covered_addrs out))"
      by simp
    have "length (concat xss) \<le> length (covered_addrs out)"
      using list_emb_length [OF part] length_filter_le order_trans by blast
    with m(5) out(2) r(5) have "length (mm_contents r @ concat xss) \<le> 2 ^ 57" by simp
    with merge_part [OF bufs(2), of r "w_sys w"] r(3,5) obtain r' ys where r': "merge_buffers (w_sys w) bufs r = Some r'"
      "mm_inv r'" "mm_contents r' = ys" "subseq ys (concat xss)" "mm_capacity r' \<le> 2 ^ 58"
      by (auto simp: array_ok_def)
    have "length ys \<le> 2 ^ 57"
      using list_emb_length [OF r'(4)] \<open>length (mm_contents r @ concat xss) \<le> 2 ^ 57\<close> by simp
    then have "array_ok r'" using r' by (simp add: array_ok_def)
    moreover have "subseq ys (filter (aligned_holds mem cmp) (covered_addrs regions))"
      using subseq_order.trans [OF r'(4) part] out(2) by simp
    moreover have "FirstScan w v m = Some ((Reset m)\<lparr>ms_round := ms_round (Reset m) + 1, ms_results := Some r'\<rparr>)"
      using r(1) reset(3,4) True m(2) out(1) scan bufs(1) r'(1) by (simp add: FirstScan_def Let_def)
    ultimately show ?thesis
      using r(2,4) reset(3,5) r'(3) by (auto simp: ms_inv_def ms_view_def)
  qed
qed

end
