(* ===== verification/Next_Safety.thy ===== *)
theory Next_Safety
  imports Scan_Safety
begin

text \<open>
  The next scans when everything outside the program goes wrong: what they leave is a part of what they should, in its
  order, the old results are kept for undo, and so a whole session never ends with a wrong address.
\<close>

section \<open>The sparse task\<close>

lemma NewMmap_refused: "NewMmapUint64 sys caps = Some None \<or> (\<exists>buf. NewMmapUint64 sys caps = Some (Some buf))"
  if "0 < caps"
  using that by (auto simp: NewMmapUint64_def Let_def)

lemma granted_any: "NewMmapUint64 sys caps = Some (Some buf) \<Longrightarrow> NewMmapUint64 (\<lambda>_. True) caps = Some (Some buf)"
  by (auto simp: NewMmapUint64_def Let_def split: if_splits)

lemma taskNextScanSparse_safe:
  assumes "reads_memory vm pid mem" "wf_comparable cmp" "2 \<le> comp_Size cmp" "told_apart mem cmp addrs"
    and "length addrs \<le> nextScanTaskSize"
  shows "\<exists>out. taskNextScanSparse sys vm pid pooled addrs cmp = Some out \<and> part_of (filter (holds mem cmp) addrs) out"
proof -
  have "0 < nextScanTaskSize" by (simp add: nextScanTaskSize_val)
  with NewMmap_refused [of nextScanTaskSize sys] consider "NewMmapUint64 sys nextScanTaskSize = Some None"
    | buf where "NewMmapUint64 sys nextScanTaskSize = Some (Some buf)" by blast
  then show ?thesis
  proof cases
    case 1
    then show ?thesis by (simp add: taskNextScanSparse_def part_of_none)
  next
    case 2
    then have "taskNextScanSparse sys vm pid pooled addrs cmp = taskNextScanSparse (\<lambda>_. True) vm pid pooled addrs cmp"
      by (simp add: taskNextScanSparse_def granted_any [OF 2])
    moreover have "length (filter (holds mem cmp) addrs) \<le> nextScanTaskSize"
      using assms(5) by (meson length_filter_le le_trans)
    ultimately show ?thesis
      using taskNextScanSparse_leaves [OF assms(1-4), of "\<lambda>_. True" pooled] assms(5)
      by (auto intro: part_of_leaves)
  qed
qed

section \<open>The dense task\<close>

lemma dense_room:
  assumes "vr_good (of_nat (comp_Size cmp)) region" "size_aligned (comp_Size cmp) (addresses region)"
    and "0 < comp_Size cmp" "comp_Size cmp dvd 4096"
  shows "length (filter P (addresses region)) \<le> unat (vSize region) div comp_Size cmp"
proof -
  have "sorted_wrt (<) (map unat (filter P (addresses region)))"
    using good_sorted [OF assms(1), of P] by (simp add: sorted_wrt_map word_less_nat_alt [abs_def])
  moreover have "list_all (\<lambda>a. unat (vStart region) \<le> a \<and> a + comp_Size cmp \<le> unat (vStart region) + unat (vSize region) \<and>
      (a - unat (vStart region)) mod comp_Size cmp = 0) (map unat (filter P (addresses region)))"
    using good_inside [OF assms(1,2,4)] by (simp add: list_all_iff)
  ultimately show ?thesis
    using distinct_multiples [of "map unat (filter P (addresses region))"] assms(3) by fastforce
qed

lemma taskNextScanDense_safe:
  assumes "reads_memory vm pid mem" "typed_value v cmp" "NewScanner v = Some scan"
    and "vr_good (of_nat (comp_Size cmp)) region" "size_aligned (comp_Size cmp) (addresses region)"
    and "bufSize = unat (vSize region) div comp_Size cmp"
  shows "\<exists>out. taskNextScanDense sys ctx vm pid scan region bufSize = Some out \<and>
    part_of (filter (holds mem cmp) (addresses region)) out"
proof -
  note size = typed_value_size(1-3) [OF assms(2)]
  have v: "wf_value v" "v_data v \<noteq> []" "Aligned v" "Value_Comparable v = Some cmp"
    using assms(2) by (simp_all add: typed_value_def)
  define z where "z = unat (vSize region)"
  have good: "vr_inv region" "vSize region = vEnd region - vStart region" "z \<le> 2097152" "vStart region < vEnd region"
    "addresses region \<noteq> []"
    using assms(4) unfolding vr_good_def z_def by blast+
  have span: "unat (vStart region) + z < 2 ^ 64" using good_span [OF assms(4)] by (simp add: z_def)
  have "0 < length (addresses region)" using good(5) by simp
  also have "\<dots> \<le> bufSize" using dense_room [OF assms(4,5) size(2,3), of "\<lambda>_. True"] by (simp add: assms(6))
  finally have "0 < bufSize" .
  from NewMmap_refused [OF this, of sys] consider "NewMmapUint64 sys bufSize = Some None"
    | buf where "NewMmapUint64 sys bufSize = Some (Some buf)" by blast
  then show ?thesis
  proof cases
    case 1
    then show ?thesis by (simp add: taskNextScanDense_def part_of_none)
  next
    case (2 buf)
    define ys where "ys = filter (holds mem cmp) (addresses region)"
    have ys: "sorted_wrt (<) ys" "length ys \<le> bufSize"
      using good_sorted [OF assms(4)] dense_room [OF assms(4,5) size(2,3)] by (simp_all add: ys_def assms(6))
    have small: "bufSize < 2 ^ 59" using order_trans [OF div_le_dividend good(3), of "comp_Size cmp"] by (simp add: assms(6) flip: z_def)
    have part: "subseq xs ys \<and> length xs \<le> bufSize" if "sorted_wrt (<) xs" "set xs \<subseteq> set ys" for xs
      using sorted_subset_subseq [OF that(1) ys(1) that(2)] list_emb_length [of "(=)" xs ys] ys(2) by auto
    define J where "J k c \<longleftrightarrow> (\<exists>xs s r. c = (s, r) \<and> vr_inv r \<and> vStart r = vStart region \<and> set (pending r) \<subseteq> set (addresses region) \<and>
      sorted_wrt (<) xs \<and> set xs \<subseteq> set ys \<and> (\<forall>x \<in> set xs. unat x < k + unat (vStart region)) \<and>
      go_fold (batch_add put_ignoring) xs ([], buf) = Some s)" for k :: nat and c :: "(u64 list \<times> MmapUint64) \<times> VirtualRegion"
    have "z < 2 ^ 63" using good(3) by simp
    then have "unat (vEnd region - vStart region) < 2 ^ 63" by (simp add: z_def good(2))
    note ok = getRegionReader_ok [OF assms(1) this, of pooled_reader]
    have len: "length (v_data v) < 2 ^ 61" using aligned_small [OF v(1,3)] by simp
    have "\<exists>s r' c' k'. NewScannerBuffer v defScanBufferSize = Some s \<and>
      ScanCollector ctx (rr_Read vm) (Some rr_seek_start) (Some \<lparr>ExpectedSize = vSize region\<rparr>) s (Some dense_collector)
        (vPipe pid region) (([], buf), region) = Some (r', c') \<and> J k' c'"
      unfolding vPipe_def
    proof (rule rr.ScanCollector_safe [where J = J, OF v(1,2) _ len])
      fix k k' c assume "J k c" "k \<le> k'"
      then show "J k' c" unfolding J_def by (elim exE conjE) (intro exI conjI, assumption+, auto)
    next
      fix cmp' k p b c
      assume s: "Value_Comparable v = Some cmp'" "J k c" "k \<le> p" "p + comp_Size cmp' \<le> unat (vEnd region - vStart region)"
        "rr.bytes_at mem (vStart region) p b" "comp_EqualBytes cmp' b = Some True" "length b = comp_Size cmp'"
        "Aligned v \<longrightarrow> p mod comp_Size cmp' = 0"
      from s(1) v(4) have cmp: "cmp' = cmp" by simp
      from s(2) obtain xs s r where J: "c = (s, r)" "vr_inv r" "vStart r = vStart region" "set (pending r) \<subseteq> set (addresses region)"
        "sorted_wrt (<) xs" "set xs \<subseteq> set ys" "\<forall>x \<in> set xs. unat x < k + unat (vStart region)"
        "go_fold (batch_add put_ignoring) xs ([], buf) = Some s"
        unfolding J_def by (elim exE conjE) (rule that; assumption)
      define q where "q = of_nat p + vStart region"
      have "p + unat (vStart region) < 2 ^ 64" using s(4) span size(2) by (simp add: cmp z_def flip: good(2))
      then have u: "unat q = p + unat (vStart region)" by (simp add: q_def unat_word_ariths unat_of_nat)
      have hold: "holds mem cmp q" using bytes_hold [OF s(5,7,6)] by (simp add: cmp q_def)
      from Match_correct [OF J(2), of q] obtain r1 where r1: "Match r q = Some (q \<in> set (pending r), r1)" "vr_inv r1"
        "pending r1 = dropWhile (\<lambda>x. x \<le> q) (pending r)" "r1\<lparr>vcursor := 0\<rparr> = r\<lparr>vcursor := 0\<rparr>" by blast
      have st: "vStart r1 = vStart region" using arg_cong [OF r1(4), of vStart] J(3) by simp
      have pend: "set (pending r1) \<subseteq> set (addresses region)"
        using J(4) set_dropWhileD unfolding r1(3) by fastforce
      show "\<exists>continue c'. dense_collector (int p) c = Some (continue, c') \<and> J (Suc p) c'"
      proof (cases "q \<in> set (pending r)")
        case True
        with J(4) hold have "q \<in> set ys" by (auto simp: ys_def)
        with J(5-7) s(3) u have xs: "sorted_wrt (<) (xs @ [q])" "set (xs @ [q]) \<subseteq> set ys"
          by (auto simp: sorted_wrt_append word_less_nat_alt)
        have "length (xs @ [q]) < 2 ^ 59" using part [OF xs] small by simp
        from collect_total [OF 2 small this] obtain s' where s': "go_fold (batch_add put_ignoring) (xs @ [q]) ([], buf) = Some s'" ..
        with J(8) have "batch_add put_ignoring q s = Some s'"
          by (cases "batch_add put_ignoring q s") (simp_all add: go_fold_append)
        with r1(1) True have "dense_collector (int p) c = Some (\<not> IsFinished r1, (s', r1))"
          by (simp add: dense_collector_def J(1,3) q_def)
        moreover have "\<forall>x \<in> set (xs @ [q]). unat x < Suc p + unat (vStart region)"
          using J(7) s(3) u by auto
        then have "J (Suc p) (s', r1)"
          unfolding J_def using r1(2) st pend xs s' by blast
        ultimately show ?thesis by blast
      next
        case False
        with r1(1) have "dense_collector (int p) c = Some (True, (s, r1))"
          by (simp add: dense_collector_def J(1,3) q_def)
        moreover have "\<forall>x \<in> set xs. unat x < Suc p + unat (vStart region)" using J(7) s(3) by auto
        then have "J (Suc p) (s, r1)"
          unfolding J_def using r1(2) st pend J(5,6,8) by blast
        ultimately show ?thesis by blast
      qed
    next
      show "J 0 (([], buf), region)"
        unfolding J_def using good(1) by (intro exI [of _ "[]"] exI conjI) (auto simp: pending_def dest: in_set_dropD)
    qed (use ok good(2,3) in \<open>auto simp: z_def\<close>)
    then obtain r' c k where run: "ScanCollector ctx (rr_Read vm) (Some rr_seek_start) (Some \<lparr>ExpectedSize = vSize region\<rparr>) scan
        (Some dense_collector) (vPipe pid region) (([], buf), region) = Some (r', c)" "J k c"
      using assms(3) by (auto simp: NewScanner_def)
    from run(2) obtain xs s r where c: "c = (s, r)" "sorted_wrt (<) xs" "set xs \<subseteq> set ys"
      "go_fold (batch_add put_ignoring) xs ([], buf) = Some s"
      unfolding J_def by (elim exE conjE) (rule that; assumption)
    note xs = part [OF c(2,3)]
    then have "length xs < 2 ^ 59" using small by simp
    from task_leaves [OF 2 small this] obtain buf' where "collect_into xs buf = Some buf'" "leaves xs bufSize (task_outcome buf')"
      by blast
    moreover from this(1) c(4) have "batch_flush put_ignoring s = Some buf'" by (simp add: collect_into_def)
    ultimately show ?thesis
      using 2 run(1) c(1) part_of_leaves [of xs bufSize _ ys] xs
      by (simp add: taskNextScanDense_def ys_def)
  qed
qed

section \<open>A next scan\<close>

lemma finish_next_part:
  assumes "ms_inv m" "list_all2 outcome_fits xss bufs" "subseq (concat xss) zs" "length zs \<le> 2 ^ 57"
  shows "\<exists>m' ys. finish_next w bufs m = Some m' \<and> ms_inv m' \<and> same_target m m' \<and> subseq ys zs \<and>
    ms_view m' = \<lparr>found = ys, before = found (ms_view m), rounds = rounds (ms_view m) + 1, undoable = True\<rparr>"
proof -
  from assms(1) obtain r p where m: "ms_results m = Some r" "ms_prevResults m = Some p" "array_ok r" "array_ok p"
    by (rule ms_invE)
  have clear: "mm_inv (mm_Clear p)" "mm_contents (mm_Clear p) = []" "mm_capacity (mm_Clear p) \<le> 2 ^ 58"
    using array_ok_Clear [OF m(4)] by (simp_all add: array_ok_def)
  have len: "length (concat xss) \<le> 2 ^ 57" using list_emb_length [OF assms(3)] assms(4) by simp
  with merge_part [OF assms(2) clear(1) _ clear(3), of "w_sys w"] clear(2) obtain p' ys where p': "merge_buffers (w_sys w) bufs (mm_Clear p) = Some p'"
    "mm_inv p'" "mm_contents p' = ys" "subseq ys (concat xss)" "mm_capacity p' \<le> 2 ^ 58"
    by auto
  have "length ys \<le> 2 ^ 57" using list_emb_length [OF p'(4)] len by simp
  then have "array_ok p'" using p' by (simp add: array_ok_def)
  moreover have "subseq ys zs" using subseq_order.trans [OF p'(4) assms(3)] .
  ultimately show ?thesis
    using m p'(1,3) by (auto simp: finish_next_def ms_inv_def ms_view_def same_target_def)
qed

lemma launch_sparse_part:
  assumes "mm_inv r" "\<forall>start \<in> set starts. start < length (mm_contents r)"
  shows "\<exists>k. launch_sparse w r (length (mm_contents r)) starts number =
    Some (take k (map (\<lambda>start. take nextScanTaskSize (drop start (mm_contents r))) starts))"
  using assms(2)
proof (induction starts arbitrary: number)
  case (Cons start starts)
  show ?case
  proof (cases "w_acquire w number")
    case False
    then show ?thesis by (intro exI [of _ 0]) simp
  next
    case True
    from launch_sparse_blocks [OF assms(1), of "w\<lparr>w_acquire := \<lambda>_. True\<rparr>" "[start]" number] Cons.prems
    have "launch_sparse (w\<lparr>w_acquire := \<lambda>_. True\<rparr>) r (length (mm_contents r)) [start] number =
        Some [take nextScanTaskSize (drop start (mm_contents r))]" by simp
    then have block: "mm_GetN (int start) (if length (mm_contents r) < start + nextScanTaskSize
          then int (length (mm_contents r)) - int start else int nextScanTaskSize) r =
        Some (take nextScanTaskSize (drop start (mm_contents r)))" "take nextScanTaskSize (drop start (mm_contents r)) \<noteq> []"
      by (auto simp: Let_def split: Option.bind_splits if_splits)
    from Cons obtain k where "launch_sparse w r (length (mm_contents r)) starts (number + 1) =
        Some (take k (map (\<lambda>start. take nextScanTaskSize (drop start (mm_contents r))) starts))" by auto
    with True block show ?thesis by (intro exI [of _ "Suc k"]) (simp add: Let_def)
  qed
qed simp

text \<open>What a next scan needs of the value and the old results, whatever can be read.\<close>

definition next_safe :: "memory \<Rightarrow> Value \<Rightarrow> ValueComparable \<Rightarrow> u64 list \<Rightarrow> bool" where
  "next_safe mem v cmp addrs \<longleftrightarrow> typed_value v cmp \<and> 2 \<le> Value_Size v \<and> told_apart mem cmp addrs \<and>
     sorted_wrt (<) addrs \<and> size_aligned (Value_Size v) addrs \<and> list_all (\<lambda>a. unat a < 2 ^ 63) addrs"

definition engine_open :: "int \<Rightarrow> Memscan \<Rightarrow> bool" where
  "engine_open pid m \<longleftrightarrow> ms_inv m \<and> ms_proc m = Some pid \<and> ms_ctx m \<noteq> None"

definition next_part :: "(u64 \<Rightarrow> bool) \<Rightarrow> Memscan \<Rightarrow> Memscan \<Rightarrow> bool" where
  "next_part P m m' \<longleftrightarrow> ms_inv m' \<and> same_target m m' \<and> (\<exists>ys. subseq ys (filter P (found (ms_view m))) \<and>
     ms_view m' = \<lparr>found = ys, before = found (ms_view m), rounds = rounds (ms_view m) + 1, undoable = True\<rparr>)"

lemma nextScanSparse_safe:
  assumes "engine_open pid m" "reads_memory (w_readv w) pid mem" "next_safe mem v cmp (found (ms_view m))"
  shows "\<exists>m'. nextScanSparse w v m = Some m' \<and> next_part (holds mem cmp) m m'"
proof -
  have inv: "ms_inv m" "ms_proc m = Some pid" using assms(1) by (simp_all add: engine_open_def)
  from inv(1) obtain r p where m: "ms_results m = Some r" "array_ok r" "found (ms_view m) = mm_contents r"
    by (rule ms_invE)
  define addrs where "addrs = mm_contents r"
  have r: "mm_inv r" "length addrs \<le> 2 ^ 57" using m(2) by (simp_all add: array_ok_def addrs_def)
  have v: "Value_Comparable v = Some cmp" "wf_comparable cmp" "2 \<le> comp_Size cmp" "told_apart mem cmp addrs"
    using assms(3) typed_value_size(1,4) [of v cmp] by (auto simp: next_safe_def typed_value_def m(3) addrs_def)
  have pos: "0 < nextScanTaskSize" by (simp add: nextScanTaskSize_val)
  define starts where "starts = loop_starts (length addrs) nextScanTaskSize"
  define all where "all = map (\<lambda>start. take nextScanTaskSize (drop start addrs)) starts"
  have starts: "\<forall>start \<in> set starts. start < length addrs"
    using loop_starts_less [OF _ pos] by (auto simp: starts_def)
  from launch_sparse_part [OF r(1), of starts w 0] starts obtain k
    where launch: "launch_sparse w r (length addrs) starts 0 = Some (take k all)" by (auto simp: addrs_def all_def)
  have concat: "concat all = addrs" using loop_blocks [OF pos, of addrs] by (simp add: all_def starts_def)
  have len: "length addrs div nextScanTaskSize + (if length addrs mod nextScanTaskSize \<noteq> 0 then 1 else 0) = length all"
    using ceil_div [OF pos, of "length addrs"] by (simp add: all_def starts_def loop_starts_def)
  define task where "task i = taskNextScanSparse (w_task_sys w i) (w_readv w) pid (w_pooled w i) (take k all ! i) cmp" for i
  define ys where "ys i = filter (holds mem cmp) (all ! i)" for i
  have "\<forall>i < length (take k all). \<exists>out. task i = Some out \<and> part_of (ys i) out"
  proof (intro allI impI)
    fix i assume i: "i < length (take k all)"
    then have b: "length (all ! i) \<le> nextScanTaskSize" "set (all ! i) \<subseteq> set addrs"
      by (auto simp: all_def dest!: in_set_takeD in_set_dropD)
    have "told_apart mem cmp (all ! i)"
      using v(4) b(2) by (auto simp: told_apart_def list_all_iff)
    from taskNextScanSparse_safe [OF assms(2) v(2,3) this b(1)] i
    show "\<exists>out. task i = Some out \<and> part_of (ys i) out" by (simp add: task_def ys_def)
  qed
  from run_part [OF this, of "length all"] obtain bufs xss where bufs: "run_tasks task (length (take k all)) (length all) = Some bufs"
    "list_all2 outcome_fits xss bufs" "list_all2 subseq xss (map ys [0..<length all])"
    by (elim exE conjE) (rule that; assumption)
  have "map ys [0..<length all] = map (filter (holds mem cmp)) (map ((!) all) [0..<length all])"
    by (simp add: ys_def)
  then have "concat (map ys [0..<length all]) = filter (holds mem cmp) addrs"
    unfolding map_nth by (simp only: filter_concat [symmetric] concat)
  with subseq_concat [OF bufs(3)] have part: "subseq (concat xss) (filter (holds mem cmp) addrs)" by simp
  have "length (filter (holds mem cmp) addrs) \<le> 2 ^ 57" using r(2) by (meson length_filter_le le_trans)
  from finish_next_part [OF inv(1) bufs(2) part this, of w] obtain m' zs where
    m': "finish_next w bufs m = Some m'" "ms_inv m'" "same_target m m'" "subseq zs (filter (holds mem cmp) addrs)"
    "ms_view m' = \<lparr>found = zs, before = found (ms_view m), rounds = rounds (ms_view m) + 1, undoable = True\<rparr>" by blast
  have "nat (mm_Len r) = length addrs" using r(1) by (simp add: mm_Len_inv addrs_def)
  moreover obtain c where "ms_ctx m = Some c" using assms(1) by (auto simp: engine_open_def)
  ultimately have "nextScanSparse w v m = finish_next w bufs m"
    using m(1) inv(2) v(1) launch len bufs(1)
    by (simp add: nextScanSparse_def Let_def task_def [abs_def] flip: starts_def)
  with m' show ?thesis by (auto simp: next_part_def m(3) addrs_def)
qed

lemma nextScanDense_safe:
  assumes "engine_open pid m" "reads_memory (w_readv w) pid mem" "next_safe mem v cmp (found (ms_view m))"
  shows "\<exists>m'. nextScanDense w v m = Some m' \<and> next_part (holds mem cmp) m m'"
proof -
  have inv: "ms_inv m" "ms_proc m = Some pid" using assms(1) by (simp_all add: engine_open_def)
  from inv(1) obtain r p where m: "ms_results m = Some r" "array_ok r" "found (ms_view m) = mm_contents r"
    by (rule ms_invE)
  define addrs where "addrs = mm_contents r"
  have r: "mm_inv r" "length addrs \<le> 2 ^ 57" using m(2) by (simp_all add: array_ok_def addrs_def)
  define sz where "sz = Value_Size v"
  have typed: "typed_value v cmp" using assms(3) by (simp add: next_safe_def)
  note cmp = typed_value_size(1-3) [OF typed, folded sz_def]
  have sz: "0 < sz" "sz dvd 4096" using cmp by simp_all
  then have "sz \<le> 4096" by (auto dest: dvd_imp_le)
  then have unat_sz: "unat (of_nat sz :: u64) = sz" by (simp add: unat_of_nat)
  define regions where "regions = BuildVirtualRegions addrs (of_nat sz)"
  have ready: "bvr_pre (of_nat sz) addrs" "size_aligned sz addrs"
    using assms(3) sz(1) \<open>sz \<le> 4096\<close> unat_sz
    by (auto simp: next_safe_def bvr_pre_def list_all_iff m(3) simp flip: addrs_def sz_def)
  have good: "list_all (vr_good (of_nat sz)) regions" "concat (map addresses regions) = addrs"
    using regions_good [OF ready(1)] regions_partition by (simp_all add: regions_def)
  obtain scan where scan: "NewScanner v = Some scan"
    using NewScanner_total [of v] typed by (auto simp: typed_value_def)
  obtain cancelled where ctx: "ms_ctx m = Some cancelled" using assms(1) by (auto simp: engine_open_def)
  define task where "task i = taskNextScanDense (w_task_sys w i) (\<lambda>k. cancelled \<or> w_ctx w i k) (w_readv w) pid scan (regions ! i)
    (unat (vSize (regions ! i)) div sz)" for i
  define ys where "ys i = filter (holds mem cmp) (addresses (regions ! i))" for i
  have "\<forall>i < launched w (length regions). \<exists>out. task i = Some out \<and> part_of (ys i) out"
  proof (intro allI impI)
    fix i assume "i < launched w (length regions)"
    with launched_le [of w "length regions"] have i: "regions ! i \<in> set regions" by simp
    then have "set (addresses (regions ! i)) \<subseteq> set addrs" by (auto simp flip: good(2))
    with ready(2) have aligned: "size_aligned sz (addresses (regions ! i))" by (auto simp: size_aligned_def list_all_iff)
    have "vr_good (of_nat sz) (regions ! i)" using i good(1) by (simp add: list_all_iff)
    from taskNextScanDense_safe [OF assms(2) typed scan, unfolded cmp(1), OF this aligned refl]
    show "\<exists>out. task i = Some out \<and> part_of (ys i) out" by (simp add: task_def ys_def)
  qed
  from run_part [OF this, of "length regions"] obtain bufs xss where
    bufs: "run_tasks task (launched w (length regions)) (length regions) = Some bufs"
    "list_all2 outcome_fits xss bufs" "list_all2 subseq xss (map ys [0..<length regions])"
    by (elim exE conjE) (rule that; assumption)
  have "concat (map ys [0..<length regions]) = filter (holds mem cmp) addrs"
    unfolding ys_def by (simp only: concat_filter_regions good(2))
  with subseq_concat [OF bufs(3)] have part: "subseq (concat xss) (filter (holds mem cmp) addrs)" by simp
  have "length (filter (holds mem cmp) addrs) \<le> 2 ^ 57" using r(2) by (meson length_filter_le le_trans)
  from finish_next_part [OF inv(1) bufs(2) part this, of w] obtain m' zs where
    m': "finish_next w bufs m = Some m'" "ms_inv m'" "same_target m m'" "subseq zs (filter (holds mem cmp) addrs)"
    "ms_view m' = \<lparr>found = zs, before = found (ms_view m), rounds = rounds (ms_view m) + 1, undoable = True\<rparr>" by blast
  have "nextScanDense w v m = finish_next w bufs m"
    using m(1) inv(2) ctx scan bufs(1) mm_Data_inv [OF r(1)] sz(1)
    by (simp add: nextScanDense_def Let_def task_def [abs_def] flip: addrs_def sz_def regions_def)
  with m' show ?thesis by (auto simp: next_part_def m(3) addrs_def)
qed

lemma next_scan_safe:
  assumes "engine_open pid m" "reads_memory (w_readv w) pid mem" "next_safe mem v cmp (found (ms_view m))"
  shows "\<exists>m'. NextScan w (Some v) m = Some m' \<and>
    (if found (ms_view m) = [] then m' = m else next_part (holds mem cmp) m m')"
proof -
  have inv: "ms_inv m" using assms(1) by (simp add: engine_open_def)
  show ?thesis
    using nextScanSparse_safe [OF assms] nextScanDense_safe [OF assms]
    by (simp add: NextScan_def next_scan_view [OF inv])
qed

lemma next_part_open: "engine_open pid m \<Longrightarrow> next_part P m m' \<Longrightarrow> engine_open pid m'"
  by (simp add: engine_open_def next_part_def same_target_def)

lemma part_undo:
  assumes "engine_open pid m" "next_part P m m1"
  shows "\<exists>m2. UndoScan m1 = Some (True, m2) \<and> engine_open pid m2 \<and> ms_view m2 = (ms_view m)\<lparr>before := [], undoable := False\<rparr>"
proof -
  have inv: "ms_inv m1" and undo: "ms_canUndo m1"
    and view: "session_undo (ms_view m1) = (ms_view m)\<lparr>before := [], undoable := False\<rparr>"
    using assms(2) by (auto simp: next_part_def ms_view_def session_undo_def)
  from UndoScan_undoes [OF inv] undo obtain m2 where m2: "UndoScan m1 = Some (True, m2)" "ms_inv m2"
    "ms_view m2 = session_undo (ms_view m1)" by auto
  have "engine_open pid m1" using next_part_open [OF assms] .
  with m2(1,2) undo have "engine_open pid m2" by (auto simp: engine_open_def UndoScan_def split: Option.bind_splits)
  with m2 view show ?thesis by simp
qed

section \<open>Undo\<close>

text \<open>The example: the second page of the heap is gone, mappings are refused, only the first task is admitted and it is soon cancelled.\<close>

definition failing_memory :: memory where
  "failing_memory a = (if a < 0x2000 then Some (if a = 0x1000 then 7 else 0) else None)"

definition failing_world :: World where
  "failing_world = sample_world\<lparr>w_readv := sim_readv failing_memory, w_sys := \<lambda>bytes. bytes < 0x1000,
     w_acquire := \<lambda>i. i < 1, w_ctx := \<lambda>i k. 1 < k\<rparr>"

lemma failing_reads: "reads_memory (w_readv failing_world) pid failing_memory"
  by (simp add: failing_world_def sim_readv_reads)

text \<open>
  C8: a next scan of an open session with results, for a value of a number type of two bytes or more to whose size the
  results, ascending below 2^63, are aligned and that no unreadable address seems to match (\<open>told_apart\<close>: every value without a
  rounding option is such, the others while the results can be read), can be undone whatever pages are gone, mappings refused, tasks not
  admitted and whenever it is cancelled: it returns, what it leaves are results that hold an accepted value, in
  their order, and undoing it gives the results and the number of rounds before it back.
\<close>

theorem NextScan_UndoScan:
  assumes "engine_open pid m" "reads_memory (w_readv w) pid mem" "next_safe mem v cmp (found (ms_view m))" "found (ms_view m) \<noteq> []"
  shows "\<exists>m1 m2. NextScan w (Some v) m = Some m1 \<and> subseq (found (ms_view m1)) (filter (holds mem cmp) (found (ms_view m))) \<and>
    UndoScan m1 = Some (True, m2) \<and> engine_open pid m2 \<and> ms_view m2 = (ms_view m)\<lparr>before := [], undoable := False\<rparr>"
proof -
  from next_scan_safe [OF assms(1-3)] assms(4) obtain m1 where m1: "NextScan w (Some v) m = Some m1"
    "next_part (holds mem cmp) m m1" by auto
  moreover have "subseq (found (ms_view m1)) (filter (holds mem cmp) (found (ms_view m)))"
    using m1(2) by (auto simp: next_part_def)
  moreover note part_undo [OF assms(1) m1(2)]
  ultimately show ?thesis by blast
qed

theorem NextScan_UndoScan_witness:
  "\<exists>m1 m2. NextScan failing_world (Some (NewInt32 7)) (sample_engine [0x1000, 0x1004]) = Some m1 \<and>
    UndoScan m1 = Some (True, m2) \<and> found (ms_view m2) = [0x1000, 0x1004] \<and> rounds (ms_view m2) = 1"
proof -
  have "next_safe failing_memory (NewInt32 7) (CmpValue (NewInt32 7)) [0x1000, 0x1004]"
    using sample_value by (simp add: next_safe_def told_apart_def size_aligned_def)
  moreover have "engine_open 1 (sample_engine [0x1000, 0x1004])"
    using sample_engine_ready [of "[0x1000, 0x1004]"] by (simp add: engine_open_def engine_ready_def)
  ultimately obtain m1 m2 where "NextScan failing_world (Some (NewInt32 7)) (sample_engine [0x1000, 0x1004]) = Some m1"
    "UndoScan m1 = Some (True, m2)"
    "ms_view m2 = (ms_view (sample_engine [0x1000, 0x1004]))\<lparr>before := [], undoable := False\<rparr>"
    using NextScan_UndoScan [OF _ failing_reads, of 1 "sample_engine [0x1000, 0x1004]" "NewInt32 7" "CmpValue (NewInt32 7)"]
      sample_engine_ready [of "[0x1000, 0x1004]"] by auto
  then show ?thesis using sample_engine_ready(3) [of "[0x1000, 0x1004]"] by simp
qed

section \<open>Whole sessions\<close>

lemma subseq_set: "subseq xs ys \<Longrightarrow> x \<in> set xs \<Longrightarrow> x \<in> set ys"
  by (induction rule: list_emb.induct) auto

lemma subseq_sorted_wrt: "subseq xs ys \<Longrightarrow> sorted_wrt P ys \<Longrightarrow> sorted_wrt P xs"
  by (induction rule: list_emb.induct) (auto dest: subseq_set)

lemma subseq_list_all: "subseq xs ys \<Longrightarrow> list_all P ys \<Longrightarrow> list_all P xs"
  by (auto simp: list_all_iff dest: subseq_set)

text \<open>
  Rounds in which anything may go wrong: the values searched for have two bytes or more, a size that divides the one of the first
  scan, and tell an unread address apart.
\<close>

definition rounds_safe :: "int \<Rightarrow> nat \<Rightarrow> scan_round list \<Rightarrow> bool" where
  "rounds_safe pid sz = list_all (\<lambda>(w, mem, v, cmp). reads_memory (w_readv w) pid mem \<and> typed_value v cmp \<and> 2 \<le> Value_Size v \<and>
     Value_Size v dvd sz \<and> rejects_unread cmp)"

definition good_results :: "nat \<Rightarrow> u64 list \<Rightarrow> bool" where
  "good_results sz addrs \<longleftrightarrow> sorted_wrt (<) addrs \<and> list_all (\<lambda>a. unat a mod sz = 0 \<and> unat a < 2 ^ 63) addrs"

lemma good_results_part: "subseq xs ys \<Longrightarrow> good_results sz ys \<Longrightarrow> good_results sz xs"
  using subseq_sorted_wrt subseq_list_all unfolding good_results_def by blast

lemma good_results_safe:
  assumes "good_results sz addrs" "typed_value v cmp" "2 \<le> Value_Size v" "Value_Size v dvd sz" "rejects_unread cmp"
  shows "next_safe mem v cmp addrs"
proof -
  have "unat a mod Value_Size v = 0" if "a \<in> set addrs" for a
  proof -
    have "sz dvd unat a" using assms(1) that by (auto simp: good_results_def list_all_iff mod_0_imp_dvd)
    with assms(4) have "Value_Size v dvd unat a" by (rule dvd_trans)
    then show ?thesis by simp
  qed
  with assms show ?thesis
    by (simp add: next_safe_def good_results_def size_aligned_def list_all_iff told_apart_def)
qed

lemma next_scans_safe:
  assumes "engine_open pid m" "rounds_safe pid sz rs" "good_results sz (found (ms_view m))"
  shows "\<exists>m'. next_scans rs m = Some m' \<and> subseq (found (ms_view m')) (filter (held rs) (found (ms_view m)))"
  using assms
proof (induction rs arbitrary: m)
  case Nil
  then show ?case by (simp add: next_scans_def held_def)
next
  case (Cons r rs)
  obtain w mem v cmp where r: "r = (w, mem, v, cmp)" by (cases r)
  with Cons.prems have w: "reads_memory (w_readv w) pid mem" "typed_value v cmp" "2 \<le> Value_Size v" "Value_Size v dvd sz"
    "rejects_unread cmp" and rs: "rounds_safe pid sz rs" by (simp_all add: rounds_safe_def)
  from next_scan_safe [OF Cons.prems(1) w(1) good_results_safe [OF Cons.prems(3) w(2-5)]] obtain m1 where
    m1: "NextScan w (Some v) m = Some m1" "if found (ms_view m) = [] then m1 = m else next_part (holds mem cmp) m m1" by blast
  have part: "subseq (found (ms_view m1)) (filter (holds mem cmp) (found (ms_view m)))" and opened: "engine_open pid m1"
    using m1(2) next_part_open [OF Cons.prems(1)] Cons.prems(1) by (auto simp: next_part_def split: if_splits)
  have "good_results sz (found (ms_view m1))"
    using good_results_part [OF subseq_order.trans [OF part subseq_filter_left] Cons.prems(3)] .
  from Cons.IH [OF opened rs this] obtain m' where m': "next_scans rs m1 = Some m'"
    "subseq (found (ms_view m')) (filter (held rs) (found (ms_view m1)))" by blast
  have "subseq (found (ms_view m')) (filter (held rs) (filter (holds mem cmp) (found (ms_view m))))"
    using subseq_order.trans [OF m'(2) subseq_filter [OF part]] .
  moreover have "held (r # rs) = (\<lambda>a. holds mem cmp a \<and> held rs a)" by (simp add: held_def r fun_eq_iff)
  ultimately show ?case using m1(1) m'(1) r by (simp add: next_scans_def conj_commute)
qed

text \<open>
  C2: a session of a first scan for a value of a number type, of eight bytes or with no region that has too many matches for its
  buffer, and of next scans for values of number types of two bytes or more, whose sizes divide that of the first and whose disturbed
  bytes they reject (\<open>rejects_unread\<close>, as every value without a rounding option does), returns whatever happens outside the program
  (pages that cannot be read or change between the scans, mappings refused, tasks not admitted, scans cancelled at
  any moment, the process gone), and its results are a subsequence of the complete answer: aligned addresses of the
  mappings listed, which are whole pages, at most 2^57 bytes, and ascend below 2^63, that held an accepted value at every one of the scans.
\<close>

theorem session_sound:
  assumes "ms_inv m" "ms_proc m = Some pid" "reads_memory (w_readv w) pid mem" "listed w m regions"
    and "sorted_wrt (<) (covered_addrs regions)" "list_all (\<lambda>a. unat a < 2 ^ 63) (covered_addrs regions)"
    and "typed_value v cmp" "rounds_safe pid (Value_Size v) rs" "RegionsOptimize regions = Some out"
    and "8 \<le> Value_Size v \<or> list_all (few_matches mem cmp) out"
  shows "\<exists>m1 m2. FirstScan w v m = Some m1 \<and> next_scans rs m1 = Some m2 \<and>
    subseq (found (ms_view m2)) (filter (\<lambda>a. aligned_holds mem cmp a \<and> held rs a) (covered_addrs regions))"
proof -
  from FirstScan_part [OF assms(1-4,7,9,10)] obtain m1 where m1: "FirstScan w v m = Some m1" "ms_inv m1" "ms_proc m1 = Some pid"
    "ms_ctx m1 = Some False" "subseq (found (ms_view m1)) (filter (aligned_holds mem cmp) (covered_addrs regions))" by blast
  have "list_all (\<lambda>a. unat a mod Value_Size v = 0 \<and> unat a < 2 ^ 63) (filter (aligned_holds mem cmp) (covered_addrs regions))"
    using assms(6) typed_value_size(1) [OF assms(7)] by (simp add: list_all_iff aligned_holds_def)
  then have "good_results (Value_Size v) (filter (aligned_holds mem cmp) (covered_addrs regions))"
    using assms(5) by (simp add: good_results_def sorted_wrt_filter)
  from good_results_part [OF m1(5) this] next_scans_safe [of pid m1 "Value_Size v" rs] assms(8) m1(2-4) obtain m2 where
    m2: "next_scans rs m1 = Some m2" "subseq (found (ms_view m2)) (filter (held rs) (found (ms_view m1)))"
    by (auto simp: engine_open_def)
  from subseq_order.trans [OF m2(2) subseq_filter [OF m1(5)]] m1(1) m2(1) show ?thesis
    by (simp add: conj_commute)
qed

theorem session_sound_witness:
  "\<exists>m1 m2. FirstScan failing_world (NewInt64 7) (sample_engine []) = Some m1 \<and>
    next_scans [(failing_world, failing_memory, NewInt32 7, CmpValue (NewInt32 7))] m1 = Some m2 \<and>
    list_all (\<lambda>a. aligned_holds failing_memory (CmpValue (NewInt64 7)) a \<and> holds failing_memory (CmpValue (NewInt32 7)) a)
      (found (ms_view m2))"
proof -
  obtain regions out where regions: "mapped sample_world sample_memory 1 (sample_engine []) regions"
    "RegionsOptimize regions = Some out" "map strip regions = [sample_region 4096 12288 11 ''[heap]'', sample_region 28672 32768 11 []]"
    using sample_mapped [of "[]"] by (elim exE conjE) (rule that; assumption)
  then have "listed failing_world (sample_engine []) regions"
    by (simp add: mapped_def listed_def failing_world_def)
  moreover note regions(2)
  moreover have cov: "covered_addrs regions = addr_range 4096 12288 @ addr_range 28672 32768"
    unfolding covered_addrs_strip [of regions, symmetric] regions(3)
    by (simp add: sample_region_def region_addrs_def)
  have "x < y" if "x < 12288" "28672 \<le> y" for x y :: u64
    using that by (simp add: word_less_nat_alt word_le_nat_alt)
  then have "sorted_wrt (<) (covered_addrs regions)"
    unfolding cov by (auto simp: sorted_wrt_append sorted_addr_range set_addr_range)
  moreover have "list_all (\<lambda>a. unat a < 2 ^ 63) (covered_addrs regions)"
    by (auto simp: cov list_all_iff set_addr_range word_less_nat_alt)
  moreover have "rounds_safe 1 (Value_Size (NewInt64 7)) [(failing_world, failing_memory, NewInt32 7, CmpValue (NewInt32 7))]"
    using sample_value failing_reads by (simp add: rounds_safe_def)
  moreover have "ms_proc (sample_engine []) = Some 1" "ms_inv (sample_engine [])" "8 \<le> Value_Size (NewInt64 7)"
    using sample_engine_ready [of "[]"] by (simp_all add: sample_engine_def sample_value(6))
  ultimately obtain m1 m2 where s: "FirstScan failing_world (NewInt64 7) (sample_engine []) = Some m1"
    "next_scans [(failing_world, failing_memory, NewInt32 7, CmpValue (NewInt32 7))] m1 = Some m2"
    "subseq (found (ms_view m2)) (filter (\<lambda>a. aligned_holds failing_memory (CmpValue (NewInt64 7)) a \<and>
      held [(failing_world, failing_memory, NewInt32 7, CmpValue (NewInt32 7))] a) (covered_addrs regions))"
    using session_sound [OF _ _ failing_reads _ _ _ sample_value(5)] by blast
  from s(3) have "list_all (\<lambda>a. aligned_holds failing_memory (CmpValue (NewInt64 7)) a \<and>
      holds failing_memory (CmpValue (NewInt32 7)) a) (found (ms_view m2))"
    by (rule subseq_list_all) (simp add: list_all_iff held_def)
  with s(1,2) show ?thesis by blast
qed

end
