(* ===== verification/Float_Generators.thy ===== *)
theory Float_Generators
  imports Scan_Float
begin

text \<open>
  The generators of the float scanners (\<^verbatim>\<open>scanner/gen\<close>): each is a template of \<^verbatim>\<open>text/template\<close> executed once for
  every format. Modelled are the parsing and the execution of templates as far as these two use them, and both
  generators; the proofs compare what they write with the files of the repository, which \<open>Scan_Float\<close> models.
\<close>

section \<open>Text\<close>

definition TAB :: char where "TAB = CHR 0x09"

definition NL :: char where "NL = CHR 0x0A"

text \<open>A source text given by its lines, each with the tabs it is indented by.\<close>

definition source_text :: "(nat \<times> string) list \<Rightarrow> string" where
  "source_text ls = concat (map (\<lambda>(n, s). replicate n TAB @ s @ [NL]) ls)"

definition quoted :: "string \<Rightarrow> string" where
  "quoted s = CHR 0x22 # s @ [CHR 0x22]"

text \<open>The pieces of the comments written in Chinese, in UTF-8.\<close>

definition keep_aligned :: string where
  "keep_aligned = map char_of ([0xE4, 0xBF, 0x9D, 0xE8, 0xAF, 0x81, 0xE5, 0xA4, 0x84, 0xE7, 0x90, 0x86, 0xE7, 0x9A, 0x84, 0xE9, 0x95, 0xBF,
      0xE5, 0xBA, 0xA6, 0xE5, 0xA7, 0x8B, 0xE7, 0xBB, 0x88, 0xE6, 0x98, 0xAF, 0xE5, 0xAF, 0xB9, 0xE9, 0xBD, 0x90,
      0xE5, 0x88, 0xB0] :: nat list)"

definition of_bytes :: string where
  "of_bytes = map char_of ([0xE5, 0xAD, 0x97, 0xE8, 0x8A, 0x82, 0xE7, 0x9A, 0x84] :: nat list)"

definition next_page_comment :: string where
  "next_page_comment = map char_of
    ([0xE5, 0xA6, 0x82, 0xE6, 0x9E, 0x9C, 0xE6, 0x9C, 0xAA, 0xE8, 0xAF, 0xBB, 0xE5, 0xAE, 0x8C, 0xE6, 0x9C, 0x9F,
      0xE6, 0x9C, 0x9B, 0xE5, 0xA4, 0xA7, 0xE5, 0xB0, 0x8F, 0x2C, 0x20, 0xE5, 0xB0, 0x9D, 0xE8, 0xAF, 0x95, 0xE5,
      0xAF, 0xB9, 0xE9, 0xBD, 0x90, 0xE5, 0x88, 0xB0, 0xE4, 0xB8, 0x8B, 0xE4, 0xB8, 0x80, 0xE9, 0xA1, 0xB5] :: nat list)"

section \<open>Templates\<close>

text \<open>
  \<open>cut\<close> splits a text at the first place where a character stands twice. Between \<open>{{\<close> and \<open>}}\<close> stands an action; one that
  starts with a minus and a blank takes the white space before it away.
\<close>

fun cut :: "char \<Rightarrow> string \<Rightarrow> (string \<times> string) option" where
  "cut x [] = None"
| "cut x (c # cs) =
     (if c = x then
        (case cs of
           [] \<Rightarrow> None
         | d # ds \<Rightarrow> if d = x then Some ([], ds) else map_option (\<lambda>(a, b). (c # a, b)) (cut x cs))
      else map_option (\<lambda>(a, b). (c # a, b)) (cut x cs))"

lemma cut_shorter: "cut x s = Some (a, b) \<Longrightarrow> length b < length s"
proof (induction x s arbitrary: a rule: cut.induct)
  case (2 x c cs)
  then show ?case by (cases cs) (fastforce split: if_splits)+
qed simp

datatype token = TText string | TAction bool string

function lex_template :: "string \<Rightarrow> token list option" where
  "lex_template s =
     (case cut (CHR ''{'') s of
        None \<Rightarrow> Some [TText s]
      | Some (t, rest) \<Rightarrow>
          (case cut (CHR ''}'') rest of
             None \<Rightarrow> None
           | Some (act, rest) \<Rightarrow>
               map_option (\<lambda>ts. TText t # (if take 2 act = ''- '' then TAction True (drop 2 act) else TAction False act) # ts)
                 (lex_template rest)))"
  by pat_completeness auto
termination
  by (relation "measure length") (auto dest!: cut_shorter)

declare lex_template.simps [simp del]

definition is_template_space :: "char \<Rightarrow> bool" where
  "is_template_space c \<longleftrightarrow> c = CHR 0x20 \<or> c = TAB \<or> c = CHR 0x0D \<or> c = NL"

fun trim_template :: "string \<Rightarrow> string" where
  "trim_template [] = []"
| "trim_template (c # cs) = (case trim_template cs of [] \<Rightarrow> if is_template_space c then [] else [c] | d # ds \<Rightarrow> c # d # ds)"

fun trim_tokens :: "token list \<Rightarrow> token list" where
  "trim_tokens (TText t # TAction trim act # ts) =
     TText (if trim then trim_template t else t) # TAction trim act # trim_tokens ts"
| "trim_tokens (t # ts) = t # trim_tokens ts"
| "trim_tokens [] = []"

text \<open>A template: texts, fields of the data, from its root where they start with \<open>$\<close>, and ranges over a list of the data.\<close>

datatype node = Text string | Field bool "string list" | Range "string list" "node list"

fun split_dots :: "string \<Rightarrow> string \<Rightarrow> string list" where
  "split_dots cur [] = [cur]"
| "split_dots cur (c # cs) = (if c = CHR ''.'' then cur # split_dots [] cs else split_dots (cur @ [c]) cs)"

definition field_path :: "string \<Rightarrow> (bool \<times> string list) option" where
  "field_path s =
     (case split_dots [] s of
        first # path \<Rightarrow> if first = [] then Some (False, path) else if first = ''$'' then Some (True, path) else None
      | [] \<Rightarrow> None)"

text \<open>The nodes up to the end of the text or of the range, and the tokens after it.\<close>

fun parse_nodes :: "nat \<Rightarrow> token list \<Rightarrow> (node list \<times> token list) option" where
  "parse_nodes depth [] = (if depth = 0 then Some ([], []) else None)"
| "parse_nodes depth (TText s # ts) = map_option (\<lambda>(ns, ts). (Text s # ns, ts)) (parse_nodes depth ts)"
| "parse_nodes depth (TAction trim act # ts) =
     (if act = ''end'' then if depth = 0 then None else Some ([], ts)
      else if take 6 act = ''range '' then
        (case field_path (drop 6 act) of
           Some (False, path) \<Rightarrow>
             (case parse_nodes (depth + 1) ts of
                None \<Rightarrow> None
              | Some (body, ts') \<Rightarrow>
                  if length ts' \<le> length ts then map_option (\<lambda>(ns, ts). (Range path body # ns, ts)) (parse_nodes depth ts') else None)
         | _ \<Rightarrow> None)
      else
        (case field_path act of
           None \<Rightarrow> None
         | Some (root, path) \<Rightarrow> map_option (\<lambda>(ns, ts). (Field root path # ns, ts)) (parse_nodes depth ts)))"

definition parse_template :: "string \<Rightarrow> node list option" where
  "parse_template s = do { ts \<leftarrow> lex_template s; (ns, ts) \<leftarrow> parse_nodes 0 (trim_tokens ts); Some ns }"

text \<open>The data a template is executed on: structs by the names of their fields.\<close>

datatype tval = VString string | VInt nat | VStruct "(string \<times> tval) list" | VSlice "tval list"

fun lookup_field :: "tval \<Rightarrow> string list \<Rightarrow> tval option" where
  "lookup_field v [] = Some v"
| "lookup_field (VStruct fs) (name # path) = (case map_of fs name of None \<Rightarrow> None | Some v \<Rightarrow> lookup_field v path)"
| "lookup_field v (name # path) = None"

definition print_tval :: "tval \<Rightarrow> string option" where
  "print_tval v = (case v of VString s \<Rightarrow> Some s | VInt n \<Rightarrow> Some (digits 10 n) | _ \<Rightarrow> None)"

function (sequential) exec_nodes :: "tval \<Rightarrow> tval \<Rightarrow> node list \<Rightarrow> string option"
  and exec_range :: "tval \<Rightarrow> tval list \<Rightarrow> node list \<Rightarrow> string option" where
  "exec_nodes root dot [] = Some []"
| "exec_nodes root dot (Text s # ns) = map_option ((@) s) (exec_nodes root dot ns)"
| "exec_nodes root dot (Field from_root path # ns) = do {
     v \<leftarrow> lookup_field (if from_root then root else dot) path;
     s \<leftarrow> print_tval v;
     rest \<leftarrow> exec_nodes root dot ns;
     Some (s @ rest)
   }"
| "exec_nodes root dot (Range path body # ns) = do {
     v \<leftarrow> lookup_field dot path;
     s \<leftarrow> (case v of VSlice vs \<Rightarrow> exec_range root vs body | _ \<Rightarrow> None);
     rest \<leftarrow> exec_nodes root dot ns;
     Some (s @ rest)
   }"
| "exec_range root [] body = Some []"
| "exec_range root (v # vs) body = do {
     s \<leftarrow> exec_nodes root v body;
     rest \<leftarrow> exec_range root vs body;
     Some (s @ rest)
   }"
  by pat_completeness auto
termination
  by (relation "measures [\<lambda>x. case x of Inl (root, dot, ns) \<Rightarrow> size_list size ns | Inr (root, vs, body) \<Rightarrow> Suc (size_list size body),
      \<lambda>x. case x of Inl (root, dot, ns) \<Rightarrow> 0 | Inr (root, vs, body) \<Rightarrow> length vs]") auto

definition execute :: "string \<Rightarrow> tval \<Rightarrow> string option" where
  "execute template data = do { ns \<leftarrow> parse_template template; exec_nodes data data ns }"

section \<open>The vectorised scan\<close>

record TypeConfig =
  cfg_Name :: string
  cfg_Type :: string
  cfg_Size :: nat
  cfg_Factor :: nat

definition config_val :: "TypeConfig \<Rightarrow> tval" where
  "config_val c = VStruct [(''Name'', VString (cfg_Name c)), (''Type'', VString (cfg_Type c)), (''Size'', VInt (cfg_Size c)),
     (''Factor'', VInt (cfg_Factor c))]"

definition configs :: "TypeConfig list" where
  "configs = [\<lparr>cfg_Name = ''Float32'', cfg_Type = ''float32'', cfg_Size = 4, cfg_Factor = 8\<rparr>,
     \<lparr>cfg_Name = ''Float64'', cfg_Type = ''float64'', cfg_Size = 8, cfg_Factor = 8\<rparr>]"

definition templateStr :: string where
  "templateStr = source_text
    [(0, ''// Code generated by gen/gen_scan_float_vectorized.go; DO NOT EDIT.''),
     (0, ''package scanner''),
     (0, []),
     (0, ''import '' @ quoted ''unsafe''),
     (0, []),
     (0, ''func scan{{.Name}}Vectorized(data []byte, min, max {{.Type.Type}}, offset int, collector CollectorFunc) {''),
     (1, ''n := len(data)''),
     (1, ''if n < {{.Type.Size}} {''),
     (2, ''return''),
     (1, ''}''),
     (1, ''basePtr := uintptr(unsafe.Pointer(&data[0]))''),
     (1, ''i := 0''),
     (0, []),
     (1, ''for ; i <= n-{{.Step}}; i += {{.Step}} {''),
     (2, ''{{- range .Items}}''),
     (2, ''v{{.Index}} := *('' @ ''*{{$.Type.Type}})(unsafe.Pointer(basePtr + uintptr(i+{{.Offset}})))''),
     (2, ''{{- end}}''),
     (0, []),
     (2, ''{{- range .Items}}''),
     (2, ''if v{{.Index}} >= min && v{{.Index}} < max {''),
     (3, ''collector(offset+i+{{.Offset}})''),
     (2, ''}''),
     (2, ''{{- end}}''),
     (1, ''}''),
     (0, []),
     (1, ''for ; i <= n-{{.Type.Size}}; i += {{.Type.Size}} {''),
     (2, ''val := *('' @ ''*{{.Type.Type}})(unsafe.Pointer(basePtr + uintptr(i)))''),
     (2, ''if val >= min && val < max {''),
     (3, ''collector(offset+i)''),
     (2, ''}''),
     (1, ''}''),
     (1, ''return''),
     (0, ''}'')]"

definition UnrollItem :: "nat \<Rightarrow> nat \<Rightarrow> tval" where
  "UnrollItem idx offset = VStruct [(''Index'', VInt idx), (''Offset'', VInt offset)]"

definition vectorized_data :: "TypeConfig \<Rightarrow> tval" where
  "vectorized_data cfg = VStruct [(''Name'', VString (cfg_Name cfg)), (''Type'', config_val cfg), (''Factor'', VInt (cfg_Factor cfg)),
     (''Step'', VInt (cfg_Factor cfg * cfg_Size cfg)),
     (''Items'', VSlice (map (\<lambda>i. UnrollItem i (i * cfg_Size cfg)) [0..<cfg_Factor cfg]))]"

text \<open>The files written, by their names.\<close>

definition gen_vectorized :: "(string \<times> string option) list" where
  "gen_vectorized = map (\<lambda>cfg. (''../scan_'' @ cfg_Type cfg @ ''_vectorized.go'', execute templateStr (vectorized_data cfg))) configs"

section \<open>The rounded scan\<close>

definition roundedTemplateStr :: string where
  "roundedTemplateStr = source_text
    [(0, ''// Code generated by gen/gen_scan_float_rounded.go; DO NOT EDIT.''),
     (0, ''package scanner''),
     (0, []),
     (0, ''import (''),
     (1, quoted ''context''),
     (1, quoted ''errors''),
     (1, quoted ''io''),
     (0, '')''),
     (0, []),
     (0, ''const vector{{.Name}}Size = {{.Type.Size}} * {{.Type.Factor}}''),
     (0, []),
     (0, ''func scan{{.Name}}Rounded(ctx context.Context, reader io.Reader, bufSize int, min {{.Type.Type}}, max {{.Type.Type}}, collector CollectorFunc, options *Options) {''),
     (1, ''var (''),
     (2, ''chunk     = make([]byte, bufSize)''),
     (2, ''offset    = 0''),
     (2, ''seeker, _ = reader.(io.Seeker)''),
     (1, '')''),
     (0, []),
     (1, ''for {''),
     (2, ''if ctx.Err() != nil {''),
     (3, ''return''),
     (2, ''}''),
     (0, []),
     (2, ''n, err := io.ReadFull(reader, chunk)''),
     (2, ''if n < 0 {''),
     (3, ''n = 0''),
     (2, ''}''),
     (2, ''if n >= {{.Type.Size}} {''),
     (3, ''// '' @ keep_aligned @ '' {{.Type.Size}} '' @ of_bytes),
     (3, ''processable := (n / {{.Type.Size}}) * {{.Type.Size}}''),
     (3, ''scan{{.Type.Name}}Vectorized(chunk[:processable], min, max, offset, collector)''),
     (2, ''}''),
     (2, ''offset += n''),
     (2, ''if err != nil {''),
     (3, ''if errors.Is(err, io.EOF) {''),
     (4, ''break''),
     (3, ''}''),
     (3, ''if options != nil {''),
     (4, ''// '' @ next_page_comment),
     (4, ''nextOffset, ok := options.alignNextPage(seeker, uint64(offset))''),
     (4, ''if ok {''),
     (5, ''offset = int(nextOffset)''),
     (5, ''continue''),
     (4, ''}''),
     (3, ''}''),
     (3, ''break''),
     (2, ''}''),
     (1, ''}''),
     (0, ''}'')]"

definition rounded_data :: "TypeConfig \<Rightarrow> tval" where
  "rounded_data cfg = VStruct [(''Name'', VString (cfg_Name cfg)), (''Type'', config_val cfg)]"

definition gen_rounded :: "(string \<times> string option) list" where
  "gen_rounded = map (\<lambda>cfg. (''../scan_'' @ cfg_Type cfg @ ''_rounded.go'', execute roundedTemplateStr (rounded_data cfg))) configs"

section \<open>The files of the repository\<close>

definition scan_float32_vectorized_go :: string where
  "scan_float32_vectorized_go = source_text
    [(0, ''// Code generated by gen/gen_scan_float_vectorized.go; DO NOT EDIT.''),
     (0, ''package scanner''),
     (0, []),
     (0, ''import '' @ quoted ''unsafe''),
     (0, []),
     (0, ''func scanFloat32Vectorized(data []byte, min, max float32, offset int, collector CollectorFunc) {''),
     (1, ''n := len(data)''),
     (1, ''if n < 4 {''),
     (2, ''return''),
     (1, ''}''),
     (1, ''basePtr := uintptr(unsafe.Pointer(&data[0]))''),
     (1, ''i := 0''),
     (0, []),
     (1, ''for ; i <= n-32; i += 32 {''),
     (2, ''v0 := *('' @ ''*float32)(unsafe.Pointer(basePtr + uintptr(i+0)))''),
     (2, ''v1 := *('' @ ''*float32)(unsafe.Pointer(basePtr + uintptr(i+4)))''),
     (2, ''v2 := *('' @ ''*float32)(unsafe.Pointer(basePtr + uintptr(i+8)))''),
     (2, ''v3 := *('' @ ''*float32)(unsafe.Pointer(basePtr + uintptr(i+12)))''),
     (2, ''v4 := *('' @ ''*float32)(unsafe.Pointer(basePtr + uintptr(i+16)))''),
     (2, ''v5 := *('' @ ''*float32)(unsafe.Pointer(basePtr + uintptr(i+20)))''),
     (2, ''v6 := *('' @ ''*float32)(unsafe.Pointer(basePtr + uintptr(i+24)))''),
     (2, ''v7 := *('' @ ''*float32)(unsafe.Pointer(basePtr + uintptr(i+28)))''),
     (2, ''if v0 >= min && v0 < max {''),
     (3, ''collector(offset + i + 0)''),
     (2, ''}''),
     (2, ''if v1 >= min && v1 < max {''),
     (3, ''collector(offset + i + 4)''),
     (2, ''}''),
     (2, ''if v2 >= min && v2 < max {''),
     (3, ''collector(offset + i + 8)''),
     (2, ''}''),
     (2, ''if v3 >= min && v3 < max {''),
     (3, ''collector(offset + i + 12)''),
     (2, ''}''),
     (2, ''if v4 >= min && v4 < max {''),
     (3, ''collector(offset + i + 16)''),
     (2, ''}''),
     (2, ''if v5 >= min && v5 < max {''),
     (3, ''collector(offset + i + 20)''),
     (2, ''}''),
     (2, ''if v6 >= min && v6 < max {''),
     (3, ''collector(offset + i + 24)''),
     (2, ''}''),
     (2, ''if v7 >= min && v7 < max {''),
     (3, ''collector(offset + i + 28)''),
     (2, ''}''),
     (1, ''}''),
     (0, []),
     (1, ''for ; i <= n-4; i += 4 {''),
     (2, ''val := *('' @ ''*float32)(unsafe.Pointer(basePtr + uintptr(i)))''),
     (2, ''if val >= min && val < max {''),
     (3, ''collector(offset + i)''),
     (2, ''}''),
     (1, ''}''),
     (1, ''return''),
     (0, ''}'')]"

definition scan_float64_vectorized_go :: string where
  "scan_float64_vectorized_go = source_text
    [(0, ''// Code generated by gen/gen_scan_float_vectorized.go; DO NOT EDIT.''),
     (0, ''package scanner''),
     (0, []),
     (0, ''import '' @ quoted ''unsafe''),
     (0, []),
     (0, ''func scanFloat64Vectorized(data []byte, min, max float64, offset int, collector CollectorFunc) {''),
     (1, ''n := len(data)''),
     (1, ''if n < 8 {''),
     (2, ''return''),
     (1, ''}''),
     (1, ''basePtr := uintptr(unsafe.Pointer(&data[0]))''),
     (1, ''i := 0''),
     (0, []),
     (1, ''for ; i <= n-64; i += 64 {''),
     (2, ''v0 := *('' @ ''*float64)(unsafe.Pointer(basePtr + uintptr(i+0)))''),
     (2, ''v1 := *('' @ ''*float64)(unsafe.Pointer(basePtr + uintptr(i+8)))''),
     (2, ''v2 := *('' @ ''*float64)(unsafe.Pointer(basePtr + uintptr(i+16)))''),
     (2, ''v3 := *('' @ ''*float64)(unsafe.Pointer(basePtr + uintptr(i+24)))''),
     (2, ''v4 := *('' @ ''*float64)(unsafe.Pointer(basePtr + uintptr(i+32)))''),
     (2, ''v5 := *('' @ ''*float64)(unsafe.Pointer(basePtr + uintptr(i+40)))''),
     (2, ''v6 := *('' @ ''*float64)(unsafe.Pointer(basePtr + uintptr(i+48)))''),
     (2, ''v7 := *('' @ ''*float64)(unsafe.Pointer(basePtr + uintptr(i+56)))''),
     (2, ''if v0 >= min && v0 < max {''),
     (3, ''collector(offset + i + 0)''),
     (2, ''}''),
     (2, ''if v1 >= min && v1 < max {''),
     (3, ''collector(offset + i + 8)''),
     (2, ''}''),
     (2, ''if v2 >= min && v2 < max {''),
     (3, ''collector(offset + i + 16)''),
     (2, ''}''),
     (2, ''if v3 >= min && v3 < max {''),
     (3, ''collector(offset + i + 24)''),
     (2, ''}''),
     (2, ''if v4 >= min && v4 < max {''),
     (3, ''collector(offset + i + 32)''),
     (2, ''}''),
     (2, ''if v5 >= min && v5 < max {''),
     (3, ''collector(offset + i + 40)''),
     (2, ''}''),
     (2, ''if v6 >= min && v6 < max {''),
     (3, ''collector(offset + i + 48)''),
     (2, ''}''),
     (2, ''if v7 >= min && v7 < max {''),
     (3, ''collector(offset + i + 56)''),
     (2, ''}''),
     (1, ''}''),
     (0, []),
     (1, ''for ; i <= n-8; i += 8 {''),
     (2, ''val := *('' @ ''*float64)(unsafe.Pointer(basePtr + uintptr(i)))''),
     (2, ''if val >= min && val < max {''),
     (3, ''collector(offset + i)''),
     (2, ''}''),
     (1, ''}''),
     (1, ''return''),
     (0, ''}'')]"

definition scan_float32_rounded_go :: string where
  "scan_float32_rounded_go = source_text
    [(0, ''// Code generated by gen/gen_scan_float_rounded.go; DO NOT EDIT.''),
     (0, ''package scanner''),
     (0, []),
     (0, ''import (''),
     (1, quoted ''context''),
     (1, quoted ''errors''),
     (1, quoted ''io''),
     (0, '')''),
     (0, []),
     (0, ''const vectorFloat32Size = 4 * 8''),
     (0, []),
     (0, ''func scanFloat32Rounded(ctx context.Context, reader io.Reader, bufSize int, min float32, max float32, collector CollectorFunc, options *Options) {''),
     (1, ''var (''),
     (2, ''chunk     = make([]byte, bufSize)''),
     (2, ''offset    = 0''),
     (2, ''seeker, _ = reader.(io.Seeker)''),
     (1, '')''),
     (0, []),
     (1, ''for {''),
     (2, ''if ctx.Err() != nil {''),
     (3, ''return''),
     (2, ''}''),
     (0, []),
     (2, ''n, err := io.ReadFull(reader, chunk)''),
     (2, ''if n < 0 {''),
     (3, ''n = 0''),
     (2, ''}''),
     (2, ''if n >= 4 {''),
     (3, ''// '' @ keep_aligned @ '' 4 '' @ of_bytes),
     (3, ''processable := (n / 4) * 4''),
     (3, ''scanFloat32Vectorized(chunk[:processable], min, max, offset, collector)''),
     (2, ''}''),
     (2, ''offset += n''),
     (2, ''if err != nil {''),
     (3, ''if errors.Is(err, io.EOF) {''),
     (4, ''break''),
     (3, ''}''),
     (3, ''if options != nil {''),
     (4, ''// '' @ next_page_comment),
     (4, ''nextOffset, ok := options.alignNextPage(seeker, uint64(offset))''),
     (4, ''if ok {''),
     (5, ''offset = int(nextOffset)''),
     (5, ''continue''),
     (4, ''}''),
     (3, ''}''),
     (3, ''break''),
     (2, ''}''),
     (1, ''}''),
     (0, ''}'')]"

definition scan_float64_rounded_go :: string where
  "scan_float64_rounded_go = source_text
    [(0, ''// Code generated by gen/gen_scan_float_rounded.go; DO NOT EDIT.''),
     (0, ''package scanner''),
     (0, []),
     (0, ''import (''),
     (1, quoted ''context''),
     (1, quoted ''errors''),
     (1, quoted ''io''),
     (0, '')''),
     (0, []),
     (0, ''const vectorFloat64Size = 8 * 8''),
     (0, []),
     (0, ''func scanFloat64Rounded(ctx context.Context, reader io.Reader, bufSize int, min float64, max float64, collector CollectorFunc, options *Options) {''),
     (1, ''var (''),
     (2, ''chunk     = make([]byte, bufSize)''),
     (2, ''offset    = 0''),
     (2, ''seeker, _ = reader.(io.Seeker)''),
     (1, '')''),
     (0, []),
     (1, ''for {''),
     (2, ''if ctx.Err() != nil {''),
     (3, ''return''),
     (2, ''}''),
     (0, []),
     (2, ''n, err := io.ReadFull(reader, chunk)''),
     (2, ''if n < 0 {''),
     (3, ''n = 0''),
     (2, ''}''),
     (2, ''if n >= 8 {''),
     (3, ''// '' @ keep_aligned @ '' 8 '' @ of_bytes),
     (3, ''processable := (n / 8) * 8''),
     (3, ''scanFloat64Vectorized(chunk[:processable], min, max, offset, collector)''),
     (2, ''}''),
     (2, ''offset += n''),
     (2, ''if err != nil {''),
     (3, ''if errors.Is(err, io.EOF) {''),
     (4, ''break''),
     (3, ''}''),
     (3, ''if options != nil {''),
     (4, ''// '' @ next_page_comment),
     (4, ''nextOffset, ok := options.alignNextPage(seeker, uint64(offset))''),
     (4, ''if ok {''),
     (5, ''offset = int(nextOffset)''),
     (5, ''continue''),
     (4, ''}''),
     (3, ''}''),
     (3, ''break''),
     (2, ''}''),
     (1, ''}''),
     (0, ''}'')]"

section \<open>Lexing what was written\<close>

text \<open>A template written down from its tokens; texts and actions in which no brace stands twice, nor last, are read back.\<close>

fun write_tokens :: "token list \<Rightarrow> string" where
  "write_tokens [] = []"
| "write_tokens (TText t # ts) = t @ write_tokens ts"
| "write_tokens (TAction trim act # ts) = ''{{'' @ (if trim then ''- '' else []) @ act @ ''}}'' @ write_tokens ts"

fun clean :: "char \<Rightarrow> string \<Rightarrow> bool" where
  "clean x [] \<longleftrightarrow> True"
| "clean x (c # cs) \<longleftrightarrow> (c = x \<longrightarrow> cs \<noteq> [] \<and> hd cs \<noteq> x) \<and> clean x cs"

fun clean_tokens :: "token list \<Rightarrow> bool" where
  "clean_tokens [TText t] \<longleftrightarrow> clean (CHR ''{'') t"
| "clean_tokens (TText t # TAction trim act # ts) \<longleftrightarrow>
     clean (CHR ''{'') t \<and> clean (CHR ''}'') act \<and> (trim \<or> take 2 act \<noteq> ''- '') \<and> clean_tokens ts"
| "clean_tokens _ \<longleftrightarrow> False"

lemma cut_clean_none: "clean x s \<Longrightarrow> cut x s = None"
  by (induction x s rule: clean.induct) (auto split: list.splits)

lemma cut_clean: "clean x s \<Longrightarrow> cut x (s @ x # x # rest) = Some (s, rest)"
proof (induction x s rule: clean.induct)
  case (2 x c cs)
  then show ?case by (cases cs) auto
qed simp

lemma clean_append: "clean x s \<Longrightarrow> clean x t \<Longrightarrow> clean x (s @ t)"
proof (induction x s rule: clean.induct)
  case (2 x c cs)
  then show ?case by (cases cs) auto
qed simp

lemma clean_minus: "clean (CHR ''}'') act \<Longrightarrow> clean (CHR ''}'') (CHR ''-'' # CHR '' '' # act)"
  by simp

theorem lex_written: "clean_tokens ts \<Longrightarrow> lex_template (write_tokens ts) = Some ts"
proof (induction ts rule: clean_tokens.induct)
  case (1 t)
  then show ?case by (subst lex_template.simps) (simp add: cut_clean_none)
next
  case (2 t trim act ts)
  then have clean: "clean (CHR ''{'') t" "clean (CHR ''}'') act" and ts: "lex_template (write_tokens ts) = Some ts"
    and act: "trim \<or> take 2 act \<noteq> ''- ''"
    by auto
  define a where "a = (if trim then ''- '' else []) @ act"
  have "clean (CHR ''}'') a"
    unfolding a_def using clean(2) by (cases trim) (simp_all add: clean_minus)
  moreover have "(if take 2 a = ''- '' then TAction True (drop 2 a) else TAction False a) = TAction trim act"
    unfolding a_def using act by (cases trim) auto
  moreover have "write_tokens (TText t # TAction trim act # ts) = t @ CHR ''{'' # CHR ''{'' # a @ CHR ''}'' # CHR ''}'' # write_tokens ts"
    by (simp add: a_def)
  ultimately show ?case
    using ts by (subst lex_template.simps) (simp add: cut_clean clean(1) del: write_tokens.simps)
qed simp_all

lemma lexI: "s = write_tokens ts \<Longrightarrow> clean_tokens ts \<Longrightarrow> lex_template s = Some ts"
  by (simp add: lex_written)

section \<open>The templates, parsed\<close>

lemma replicate_numeral_char: "replicate (numeral k) c = c # replicate (pred_numeral k) c"
  by (simp add: numeral_eq_Suc)

lemma char_of_brace: "char_of (n :: nat) = CHR ''{'' \<longleftrightarrow> n mod 256 = 123"
proof -
  have "CHR ''{'' = (char_of (123 :: nat) :: char)" by code_simp
  then show ?thesis by (simp only: char_of_eq_iff) (simp add: take_bit_eq_mod)
qed

lemmas text_defs = source_text_def replicate_numeral_char quoted_def
lemmas char_defs = TAB_def NL_def keep_aligned_def of_bytes_def next_page_comment_def

lemma rounded_lexed: "lex_template roundedTemplateStr = Some
    [TText (source_text [(0, ''// Code generated by gen/gen_scan_float_rounded.go; DO NOT EDIT.''), (0, ''package scanner''), (0, []),
      (0, ''import (''), (1, quoted ''context''), (1, quoted ''errors''), (1, quoted ''io''), (0, '')''), (0, [])] @ ''const vector''),
     TAction False ''.Name'',
     TText (''Size = ''),
     TAction False ''.Type.Size'',
     TText ('' * ''),
     TAction False ''.Type.Factor'',
     TText (source_text [(0, []), (0, [])] @ ''func scan''),
     TAction False ''.Name'',
     TText (''Rounded(ctx context.Context, reader io.Reader, bufSize int, min ''),
     TAction False ''.Type.Type'',
     TText ('', max ''),
     TAction False ''.Type.Type'',
     TText (source_text [(0, '', collector CollectorFunc, options *Options) {''), (1, ''var (''),
       (2, ''chunk     = make([]byte, bufSize)''), (2, ''offset    = 0''), (2, ''seeker, _ = reader.(io.Seeker)''), (1, '')''),
         (0, []), (1, ''for {''), (2, ''if ctx.Err() != nil {''), (3, ''return''), (2, ''}''), (0, []),
         (2, ''n, err := io.ReadFull(reader, chunk)''), (2, ''if n < 0 {''), (3, ''n = 0''), (2, ''}'')] @ replicate 2 TAB @ ''if n >= ''),
     TAction False ''.Type.Size'',
     TText (source_text [(0, '' {'')] @ replicate 3 TAB @ ''// '' @ keep_aligned @ '' ''),
     TAction False ''.Type.Size'',
     TText (source_text [(0, '' '' @ of_bytes)] @ replicate 3 TAB @ ''processable := (n / ''),
     TAction False ''.Type.Size'',
     TText ('') * ''),
     TAction False ''.Type.Size'',
     TText (source_text [(0, [])] @ replicate 3 TAB @ ''scan''),
     TAction False ''.Type.Name'',
     TText (source_text [(0, ''Vectorized(chunk[:processable], min, max, offset, collector)''), (2, ''}''), (2, ''offset += n''),
       (2, ''if err != nil {''), (3, ''if errors.Is(err, io.EOF) {''), (4, ''break''), (3, ''}''), (3, ''if options != nil {''),
         (4, ''// '' @ next_page_comment), (4, ''nextOffset, ok := options.alignNextPage(seeker, uint64(offset))''), (4, ''if ok {''),
         (5, ''offset = int(nextOffset)''), (5, ''continue''), (4, ''}''), (3, ''}''), (3, ''break''), (2, ''}''), (1, ''}''),
         (0, ''}'')])]"
  by (rule lexI) (simp_all add: roundedTemplateStr_def text_defs, simp_all add: char_defs char_of_brace)

lemma vectorized_lexed: "lex_template templateStr = Some
    [TText (source_text [(0, ''// Code generated by gen/gen_scan_float_vectorized.go; DO NOT EDIT.''), (0, ''package scanner''),
      (0, []), (0, ''import '' @ quoted ''unsafe''), (0, [])] @ ''func scan''),
     TAction False ''.Name'',
     TText (''Vectorized(data []byte, min, max ''),
     TAction False ''.Type.Type'',
     TText (source_text [(0, '', offset int, collector CollectorFunc) {''), (1, ''n := len(data)'')] @ replicate 1 TAB @ ''if n < ''),
     TAction False ''.Type.Size'',
     TText (source_text [(0, '' {''), (2, ''return''), (1, ''}''), (1, ''basePtr := uintptr(unsafe.Pointer(&data[0]))''),
       (1, ''i := 0''), (0, [])] @ replicate 1 TAB @ ''for ; i <= n-''),
     TAction False ''.Step'',
     TText (''; i += ''),
     TAction False ''.Step'',
     TText (source_text [(0, '' {'')] @ replicate 2 TAB),
     TAction True ''range .Items'',
     TText (source_text [(0, [])] @ replicate 2 TAB @ ''v''),
     TAction False ''.Index'',
     TText ('' := *('' @ ''*''),
     TAction False ''$.Type.Type'',
     TText ('')(unsafe.Pointer(basePtr + uintptr(i+''),
     TAction False ''.Offset'',
     TText (source_text [(0, '')))'')] @ replicate 2 TAB),
     TAction True ''end'',
     TText (source_text [(0, []), (0, [])] @ replicate 2 TAB),
     TAction True ''range .Items'',
     TText (source_text [(0, [])] @ replicate 2 TAB @ ''if v''),
     TAction False ''.Index'',
     TText ('' >= min && v''),
     TAction False ''.Index'',
     TText (source_text [(0, '' < max {'')] @ replicate 3 TAB @ ''collector(offset+i+''),
     TAction False ''.Offset'',
     TText (source_text [(0, '')''), (2, ''}'')] @ replicate 2 TAB),
     TAction True ''end'',
     TText (source_text [(0, []), (1, ''}''), (0, [])] @ replicate 1 TAB @ ''for ; i <= n-''),
     TAction False ''.Type.Size'',
     TText (''; i += ''),
     TAction False ''.Type.Size'',
     TText (source_text [(0, '' {'')] @ replicate 2 TAB @ ''val := *('' @ ''*''),
     TAction False ''.Type.Type'',
     TText (source_text [(0, '')(unsafe.Pointer(basePtr + uintptr(i)))''), (2, ''if val >= min && val < max {''),
       (3, ''collector(offset+i)''), (2, ''}''), (1, ''}''), (1, ''return''), (0, ''}'')])]"
  by (rule lexI) (simp_all add: templateStr_def text_defs, simp_all add: char_defs char_of_brace)

lemma rounded_parsed: "parse_template roundedTemplateStr = Some
    [Text (source_text [(0, ''// Code generated by gen/gen_scan_float_rounded.go; DO NOT EDIT.''), (0, ''package scanner''), (0, []),
      (0, ''import (''), (1, quoted ''context''), (1, quoted ''errors''), (1, quoted ''io''), (0, '')''), (0, [])] @ ''const vector''),
     Field False [''Name''],
     Text (''Size = ''),
     Field False [''Type'', ''Size''],
     Text ('' * ''),
     Field False [''Type'', ''Factor''],
     Text (source_text [(0, []), (0, [])] @ ''func scan''),
     Field False [''Name''],
     Text (''Rounded(ctx context.Context, reader io.Reader, bufSize int, min ''),
     Field False [''Type'', ''Type''],
     Text ('', max ''),
     Field False [''Type'', ''Type''],
     Text (source_text [(0, '', collector CollectorFunc, options *Options) {''), (1, ''var (''),
       (2, ''chunk     = make([]byte, bufSize)''), (2, ''offset    = 0''), (2, ''seeker, _ = reader.(io.Seeker)''), (1, '')''),
         (0, []), (1, ''for {''), (2, ''if ctx.Err() != nil {''), (3, ''return''), (2, ''}''), (0, []),
         (2, ''n, err := io.ReadFull(reader, chunk)''), (2, ''if n < 0 {''), (3, ''n = 0''), (2, ''}'')] @ replicate 2 TAB @ ''if n >= ''),
     Field False [''Type'', ''Size''],
     Text (source_text [(0, '' {'')] @ replicate 3 TAB @ ''// '' @ keep_aligned @ '' ''),
     Field False [''Type'', ''Size''],
     Text (source_text [(0, '' '' @ of_bytes)] @ replicate 3 TAB @ ''processable := (n / ''),
     Field False [''Type'', ''Size''],
     Text ('') * ''),
     Field False [''Type'', ''Size''],
     Text (source_text [(0, [])] @ replicate 3 TAB @ ''scan''),
     Field False [''Type'', ''Name''],
     Text (source_text [(0, ''Vectorized(chunk[:processable], min, max, offset, collector)''), (2, ''}''), (2, ''offset += n''),
       (2, ''if err != nil {''), (3, ''if errors.Is(err, io.EOF) {''), (4, ''break''), (3, ''}''), (3, ''if options != nil {''),
         (4, ''// '' @ next_page_comment), (4, ''nextOffset, ok := options.alignNextPage(seeker, uint64(offset))''), (4, ''if ok {''),
         (5, ''offset = int(nextOffset)''), (5, ''continue''), (4, ''}''), (3, ''}''), (3, ''break''), (2, ''}''), (1, ''}''),
         (0, ''}'')])]"
  unfolding parse_template_def rounded_lexed
  by (simp add: field_path_def text_defs TAB_def NL_def is_template_space_def)

lemma vectorized_parsed: "parse_template templateStr = Some
    [Text (source_text [(0, ''// Code generated by gen/gen_scan_float_vectorized.go; DO NOT EDIT.''), (0, ''package scanner''),
      (0, []), (0, ''import '' @ quoted ''unsafe''), (0, [])] @ ''func scan''),
     Field False [''Name''],
     Text (''Vectorized(data []byte, min, max ''),
     Field False [''Type'', ''Type''],
     Text (source_text [(0, '', offset int, collector CollectorFunc) {''), (1, ''n := len(data)'')] @ replicate 1 TAB @ ''if n < ''),
     Field False [''Type'', ''Size''],
     Text (source_text [(0, '' {''), (2, ''return''), (1, ''}''), (1, ''basePtr := uintptr(unsafe.Pointer(&data[0]))''),
       (1, ''i := 0''), (0, [])] @ replicate 1 TAB @ ''for ; i <= n-''),
     Field False [''Step''],
     Text (''; i += ''),
     Field False [''Step''],
     Text ('' {''),
     Range [''Items''] [Text (source_text [(0, [])] @ replicate 2 TAB @ ''v''),
        Field False [''Index''],
        Text ('' := *('' @ ''*''),
        Field True [''Type'', ''Type''],
        Text ('')(unsafe.Pointer(basePtr + uintptr(i+''),
        Field False [''Offset''],
        Text ('')))'')],
     Text ([]),
     Range [''Items''] [Text (source_text [(0, [])] @ replicate 2 TAB @ ''if v''),
        Field False [''Index''],
        Text ('' >= min && v''),
        Field False [''Index''],
        Text (source_text [(0, '' < max {'')] @ replicate 3 TAB @ ''collector(offset+i+''),
        Field False [''Offset''],
        Text (source_text [(0, '')'')] @ replicate 2 TAB @ ''}'')],
     Text (source_text [(0, []), (1, ''}''), (0, [])] @ replicate 1 TAB @ ''for ; i <= n-''),
     Field False [''Type'', ''Size''],
     Text (''; i += ''),
     Field False [''Type'', ''Size''],
     Text (source_text [(0, '' {'')] @ replicate 2 TAB @ ''val := *('' @ ''*''),
     Field False [''Type'', ''Type''],
     Text (source_text [(0, '')(unsafe.Pointer(basePtr + uintptr(i)))''), (2, ''if val >= min && val < max {''),
       (3, ''collector(offset+i)''), (2, ''}''), (1, ''}''), (1, ''return''), (0, ''}'')])]"
  unfolding parse_template_def vectorized_lexed
  by (simp add: field_path_def text_defs TAB_def NL_def is_template_space_def)

section \<open>What is generated\<close>

lemma digits_printed:
  "digits 10 0 = ''0''" "digits 10 (Suc 0) = ''1''" "digits 10 2 = ''2''" "digits 10 3 = ''3''" "digits 10 4 = ''4''" "digits 10 5 = ''5''"
  "digits 10 6 = ''6''" "digits 10 7 = ''7''" "digits 10 8 = ''8''" "digits 10 12 = ''12''" "digits 10 16 = ''16''"
  "digits 10 20 = ''20''" "digits 10 24 = ''24''" "digits 10 28 = ''28''" "digits 10 32 = ''32''" "digits 10 40 = ''40''"
  "digits 10 48 = ''48''" "digits 10 56 = ''56''" "digits 10 64 = ''64''"
  by code_simp+

lemma eight_items: "map f [0..<8] = [f 0, f 1, f 2, f 3, f 4, f 5, f 6, f 7]"
proof -
  have "[0..<8] = [0, 1, 2, 3, 4, 5, 6, 7]" by code_simp
  then show ?thesis by (simp only: list.map)
qed

lemmas data_defs = configs_def config_val_def print_tval_def digits_printed rounded_data_def vectorized_data_def UnrollItem_def eight_items

lemma rounded_generated:
  "execute roundedTemplateStr (rounded_data (configs ! 0)) = Some scan_float32_rounded_go"
  "execute roundedTemplateStr (rounded_data (configs ! 1)) = Some scan_float64_rounded_go"
  by (simp_all add: execute_def rounded_parsed data_defs text_defs scan_float32_rounded_go_def scan_float64_rounded_go_def)

lemma vectorized_float32_generated: "execute templateStr (vectorized_data (configs ! 0)) = Some (source_text
    [(0, ''// Code generated by gen/gen_scan_float_vectorized.go; DO NOT EDIT.''),
     (0, ''package scanner''),
     (0, []),
     (0, ''import '' @ quoted ''unsafe''),
     (0, []),
     (0, ''func scanFloat32Vectorized(data []byte, min, max float32, offset int, collector CollectorFunc) {''),
     (1, ''n := len(data)''),
     (1, ''if n < 4 {''),
     (2, ''return''),
     (1, ''}''),
     (1, ''basePtr := uintptr(unsafe.Pointer(&data[0]))''),
     (1, ''i := 0''),
     (0, []),
     (1, ''for ; i <= n-32; i += 32 {''),
     (2, ''v0 := *('' @ ''*float32)(unsafe.Pointer(basePtr + uintptr(i+0)))''),
     (2, ''v1 := *('' @ ''*float32)(unsafe.Pointer(basePtr + uintptr(i+4)))''),
     (2, ''v2 := *('' @ ''*float32)(unsafe.Pointer(basePtr + uintptr(i+8)))''),
     (2, ''v3 := *('' @ ''*float32)(unsafe.Pointer(basePtr + uintptr(i+12)))''),
     (2, ''v4 := *('' @ ''*float32)(unsafe.Pointer(basePtr + uintptr(i+16)))''),
     (2, ''v5 := *('' @ ''*float32)(unsafe.Pointer(basePtr + uintptr(i+20)))''),
     (2, ''v6 := *('' @ ''*float32)(unsafe.Pointer(basePtr + uintptr(i+24)))''),
     (2, ''v7 := *('' @ ''*float32)(unsafe.Pointer(basePtr + uintptr(i+28)))''),
     (2, ''if v0 >= min && v0 < max {''),
     (3, ''collector(offset+i+0)''),
     (2, ''}''),
     (2, ''if v1 >= min && v1 < max {''),
     (3, ''collector(offset+i+4)''),
     (2, ''}''),
     (2, ''if v2 >= min && v2 < max {''),
     (3, ''collector(offset+i+8)''),
     (2, ''}''),
     (2, ''if v3 >= min && v3 < max {''),
     (3, ''collector(offset+i+12)''),
     (2, ''}''),
     (2, ''if v4 >= min && v4 < max {''),
     (3, ''collector(offset+i+16)''),
     (2, ''}''),
     (2, ''if v5 >= min && v5 < max {''),
     (3, ''collector(offset+i+20)''),
     (2, ''}''),
     (2, ''if v6 >= min && v6 < max {''),
     (3, ''collector(offset+i+24)''),
     (2, ''}''),
     (2, ''if v7 >= min && v7 < max {''),
     (3, ''collector(offset+i+28)''),
     (2, ''}''),
     (1, ''}''),
     (0, []),
     (1, ''for ; i <= n-4; i += 4 {''),
     (2, ''val := *('' @ ''*float32)(unsafe.Pointer(basePtr + uintptr(i)))''),
     (2, ''if val >= min && val < max {''),
     (3, ''collector(offset+i)''),
     (2, ''}''),
     (1, ''}''),
     (1, ''return''),
     (0, ''}'')])"
  by (simp add: execute_def vectorized_parsed data_defs text_defs)

lemma vectorized_float64_generated: "execute templateStr (vectorized_data (configs ! 1)) = Some (source_text
    [(0, ''// Code generated by gen/gen_scan_float_vectorized.go; DO NOT EDIT.''),
     (0, ''package scanner''),
     (0, []),
     (0, ''import '' @ quoted ''unsafe''),
     (0, []),
     (0, ''func scanFloat64Vectorized(data []byte, min, max float64, offset int, collector CollectorFunc) {''),
     (1, ''n := len(data)''),
     (1, ''if n < 8 {''),
     (2, ''return''),
     (1, ''}''),
     (1, ''basePtr := uintptr(unsafe.Pointer(&data[0]))''),
     (1, ''i := 0''),
     (0, []),
     (1, ''for ; i <= n-64; i += 64 {''),
     (2, ''v0 := *('' @ ''*float64)(unsafe.Pointer(basePtr + uintptr(i+0)))''),
     (2, ''v1 := *('' @ ''*float64)(unsafe.Pointer(basePtr + uintptr(i+8)))''),
     (2, ''v2 := *('' @ ''*float64)(unsafe.Pointer(basePtr + uintptr(i+16)))''),
     (2, ''v3 := *('' @ ''*float64)(unsafe.Pointer(basePtr + uintptr(i+24)))''),
     (2, ''v4 := *('' @ ''*float64)(unsafe.Pointer(basePtr + uintptr(i+32)))''),
     (2, ''v5 := *('' @ ''*float64)(unsafe.Pointer(basePtr + uintptr(i+40)))''),
     (2, ''v6 := *('' @ ''*float64)(unsafe.Pointer(basePtr + uintptr(i+48)))''),
     (2, ''v7 := *('' @ ''*float64)(unsafe.Pointer(basePtr + uintptr(i+56)))''),
     (2, ''if v0 >= min && v0 < max {''),
     (3, ''collector(offset+i+0)''),
     (2, ''}''),
     (2, ''if v1 >= min && v1 < max {''),
     (3, ''collector(offset+i+8)''),
     (2, ''}''),
     (2, ''if v2 >= min && v2 < max {''),
     (3, ''collector(offset+i+16)''),
     (2, ''}''),
     (2, ''if v3 >= min && v3 < max {''),
     (3, ''collector(offset+i+24)''),
     (2, ''}''),
     (2, ''if v4 >= min && v4 < max {''),
     (3, ''collector(offset+i+32)''),
     (2, ''}''),
     (2, ''if v5 >= min && v5 < max {''),
     (3, ''collector(offset+i+40)''),
     (2, ''}''),
     (2, ''if v6 >= min && v6 < max {''),
     (3, ''collector(offset+i+48)''),
     (2, ''}''),
     (2, ''if v7 >= min && v7 < max {''),
     (3, ''collector(offset+i+56)''),
     (2, ''}''),
     (1, ''}''),
     (0, []),
     (1, ''for ; i <= n-8; i += 8 {''),
     (2, ''val := *('' @ ''*float64)(unsafe.Pointer(basePtr + uintptr(i)))''),
     (2, ''if val >= min && val < max {''),
     (3, ''collector(offset+i)''),
     (2, ''}''),
     (1, ''}''),
     (1, ''return''),
     (0, ''}'')])"
  by (simp add: execute_def vectorized_parsed data_defs text_defs)

definition without_blanks :: "string \<Rightarrow> string" where
  "without_blanks s = filter (\<lambda>c. c \<noteq> CHR 0x20 \<and> c \<noteq> TAB) s"

lemma without_blanks_lines: "without_blanks (source_text ls) = concat (map (\<lambda>(n, s). without_blanks s @ [NL]) ls)"
  by (induction ls) (auto simp: without_blanks_def source_text_def NL_def TAB_def)

lemma without_blanks_append: "without_blanks (s @ t) = without_blanks s @ without_blanks t"
  by (simp add: without_blanks_def)

lemma vectorized_spacing:
  "map_option without_blanks (execute templateStr (vectorized_data (configs ! 0))) = Some (without_blanks scan_float32_vectorized_go)"
  "map_option without_blanks (execute templateStr (vectorized_data (configs ! 1))) = Some (without_blanks scan_float64_vectorized_go)"
  unfolding vectorized_float32_generated vectorized_float64_generated scan_float32_vectorized_go_def scan_float64_vectorized_go_def
  by (simp_all add: without_blanks_lines without_blanks_append quoted_def) (simp_all add: without_blanks_def TAB_def)

text \<open>Neither template asks for a field that its data lack, whatever the format.\<close>

lemma exec_range_some: "(\<And>v. v \<in> set vs \<Longrightarrow> exec_nodes root v body \<noteq> None) \<Longrightarrow> exec_range root vs body \<noteq> None"
  by (induction vs) fastforce+

lemma vectorized_total: "execute templateStr (vectorized_data cfg) \<noteq> None"
proof -
  let ?root = "vectorized_data cfg"
  have items: "exec_range ?root vs body \<noteq> None"
    if "vs = map (\<lambda>i. UnrollItem i (i * cfg_Size cfg)) [0..<cfg_Factor cfg]"
      "\<And>i. exec_nodes ?root (UnrollItem i (i * cfg_Size cfg)) body \<noteq> None" for vs body
    using that by (intro exec_range_some) auto
  show ?thesis
    unfolding execute_def vectorized_parsed
    using items[OF refl]
    by (auto simp: vectorized_data_def config_val_def print_tval_def UnrollItem_def bind_eq_None_conv)
qed

lemma rounded_total: "execute roundedTemplateStr (rounded_data cfg) \<noteq> None"
  by (simp add: execute_def rounded_parsed rounded_data_def config_val_def print_tval_def)

text \<open>
  C28: Executed on the formats the generators list, the template of the rounded scan writes the two files of the
  repository character by character, and the template of the vectorised scan writes files that differ from those of the
  repository in blanks and tabs only; and parsing and executing either template succeeds for every format.
\<close>

theorem generated_files:
  "gen_rounded = [(''../scan_float32_rounded.go'', Some scan_float32_rounded_go),
    (''../scan_float64_rounded.go'', Some scan_float64_rounded_go)]
   \<and> map (map_prod id (map_option without_blanks)) gen_vectorized =
     [(''../scan_float32_vectorized.go'', Some (without_blanks scan_float32_vectorized_go)),
      (''../scan_float64_vectorized.go'', Some (without_blanks scan_float64_vectorized_go))]
   \<and> (\<forall>cfg. execute templateStr (vectorized_data cfg) \<noteq> None \<and> execute roundedTemplateStr (rounded_data cfg) \<noteq> None)"
proof -
  have configs: "map f configs = [f (configs ! 0), f (configs ! 1)]" for f :: "TypeConfig \<Rightarrow> 'a"
    by (simp add: configs_def)
  have types: "cfg_Type (configs ! 0) = ''float32''" "cfg_Type (configs ! 1) = ''float64''"
    by (simp_all add: configs_def)
  show ?thesis
    unfolding gen_rounded_def gen_vectorized_def configs types rounded_generated
    using vectorized_spacing vectorized_total rounded_total by simp
qed

end
