(* ===== verification/Buffer_Pools.thy ===== *)
theory Buffer_Pools
  imports Vector_IO
begin

text \<open>
  The pools of \<^verbatim>\<open>pool.go\<close> as the tasks of a scan share them: objects are taken, used and put back in any order, the pool may
  make a new object or give any of those put back, and drop some. The locale \<open>pool_contract\<close> says when it does not
  show which object a task was given; it is interpreted on all four pools. The other theories, in which a
  pool gives an arbitrary object, rest on this.
\<close>

section \<open>A pool\<close>

text \<open>
  What distinguishes the pools: the object \<^verbatim>\<open>New\<close> makes, how a taken one is prepared for a request, \<open>None\<close> where it does not do
  and one is made in its place, and what is done to one put back.
\<close>

record ('r, 'a) kind =
  pk_new :: 'a
  pk_get :: "'r \<Rightarrow> 'a \<Rightarrow> 'a option"
  pk_fresh :: "'r \<Rightarrow> 'a"
  pk_put :: "'a \<Rightarrow> 'a"

definition prepared :: "('r, 'a) kind \<Rightarrow> 'r \<Rightarrow> 'a \<Rightarrow> 'a" where
  "prepared k r x = (case pk_get k r x of Some y \<Rightarrow> y | None \<Rightarrow> pk_fresh k r)"

text \<open>The objects made so far by their numbers, those in the pool, and the one each task holds.\<close>

record 'a SyncPool =
  sp_heap :: "nat \<Rightarrow> 'a"
  sp_made :: nat
  sp_free :: "nat set"
  sp_held :: "nat \<Rightarrow> nat option"

definition pool_empty :: "('r, 'a) kind \<Rightarrow> 'a SyncPool" where
  "pool_empty k = \<lparr>sp_heap = \<lambda>_. pk_new k, sp_made = 0, sp_free = {}, sp_held = \<lambda>_. None\<rparr>"

text \<open>
  A task takes an object, a new one or a given one of the pool; it changes the object it holds; it puts it back; and
  the pool drops an object.
\<close>

datatype ('r, 'a) pool_op = Take nat "nat option" 'r | Use nat "'a \<Rightarrow> 'a" | Put_Back nat | Drop nat

definition make_object :: "'a \<Rightarrow> 'a SyncPool \<Rightarrow> nat \<times> 'a SyncPool" where
  "make_object x p = (sp_made p, p\<lparr>sp_heap := (sp_heap p)(sp_made p := x), sp_made := sp_made p + 1\<rparr>)"

definition pool_take :: "('r, 'a) kind \<Rightarrow> nat \<Rightarrow> nat option \<Rightarrow> 'r \<Rightarrow> 'a SyncPool \<Rightarrow> 'a SyncPool option" where
  "pool_take k task choice r p = do {
     (i, p) \<leftarrow> (case choice of
        None \<Rightarrow> Some (make_object (pk_new k) p)
      | Some i \<Rightarrow> if i \<in> sp_free p then Some (i, p\<lparr>sp_free := sp_free p - {i}\<rparr>) else None);
     let (i, p) = (case pk_get k r (sp_heap p i) of
        Some x \<Rightarrow> (i, p\<lparr>sp_heap := (sp_heap p)(i := x)\<rparr>)
      | None \<Rightarrow> make_object (pk_fresh k r) p);
     Some (p\<lparr>sp_held := (sp_held p)(task \<mapsto> i)\<rparr>)
   }"

fun pool_do :: "('r, 'a) kind \<Rightarrow> ('r, 'a) pool_op \<Rightarrow> 'a SyncPool \<Rightarrow> 'a SyncPool option" where
  "pool_do k (Take task choice r) p = (if sp_held p task = None then pool_take k task choice r p else None)"
| "pool_do k (Use task f) p =
     (case sp_held p task of
        None \<Rightarrow> None
      | Some i \<Rightarrow> Some (p\<lparr>sp_heap := (sp_heap p)(i := f (sp_heap p i))\<rparr>))"
| "pool_do k (Put_Back task) p =
     (case sp_held p task of
        None \<Rightarrow> None
      | Some i \<Rightarrow> Some (p\<lparr>sp_heap := (sp_heap p)(i := pk_put k (sp_heap p i)), sp_free := insert i (sp_free p),
                   sp_held := (sp_held p)(task := None)\<rparr>))"
| "pool_do k (Drop i) p = Some (p\<lparr>sp_free := sp_free p - {i}\<rparr>)"

definition pool_run :: "('r, 'a) kind \<Rightarrow> ('r, 'a) pool_op list \<Rightarrow> 'a SyncPool \<Rightarrow> 'a SyncPool option" where
  "pool_run k = go_fold (pool_do k)"

definition held_object :: "'a SyncPool \<Rightarrow> nat \<Rightarrow> 'a option" where
  "held_object p task = map_option (sp_heap p) (sp_held p task)"

text \<open>No object is held by two tasks, or held and in the pool; all are made.\<close>

definition exclusive :: "'a SyncPool \<Rightarrow> bool" where
  "exclusive p \<longleftrightarrow> (\<forall>task i. sp_held p task = Some i \<longrightarrow> i \<notin> sp_free p \<and> i < sp_made p) \<and>
     (\<forall>task task' i. sp_held p task = Some i \<longrightarrow> sp_held p task' = Some i \<longrightarrow> task = task') \<and>
     (\<forall>i \<in> sp_free p. i < sp_made p)"

lemma exclusive_heap [simp]: "exclusive (p\<lparr>sp_heap := h\<rparr>) \<longleftrightarrow> exclusive p"
  by (simp add: exclusive_def)

text \<open>The tasks with an object of their own, newly made each time.\<close>

fun private_do :: "('r, 'a) kind \<Rightarrow> ('r, 'a) pool_op \<Rightarrow> (nat \<Rightarrow> 'a option) \<Rightarrow> (nat \<Rightarrow> 'a option)" where
  "private_do k (Take task choice r) own = own(task \<mapsto> prepared k r (pk_new k))"
| "private_do k (Use task f) own = own(task := map_option f (own task))"
| "private_do k (Put_Back task) own = own(task := None)"
| "private_do k (Drop i) own = own"

definition private_run :: "('r, 'a) kind \<Rightarrow> ('r, 'a) pool_op list \<Rightarrow> (nat \<Rightarrow> 'a option)" where
  "private_run k ops = fold (private_do k) ops (\<lambda>_. None)"

section \<open>The contract of a pool\<close>

text \<open>What a task may do with its object: keep it good, and change what it sees of it according to what it sees.\<close>

definition honest :: "('a \<Rightarrow> bool) \<Rightarrow> ('a \<Rightarrow> 'v) \<Rightarrow> ('r, 'a) pool_op \<Rightarrow> bool" where
  "honest good view c \<longleftrightarrow> (case c of
     Use task f \<Rightarrow> (\<forall>x. good x \<longrightarrow> good (f x)) \<and> (\<forall>x y. good x \<longrightarrow> good y \<longrightarrow> view x = view y \<longrightarrow> view (f x) = view (f y))
   | _ \<Rightarrow> True)"

definition pool_inv :: "('a \<Rightarrow> bool) \<Rightarrow> 'a SyncPool \<Rightarrow> bool" where
  "pool_inv good p \<longleftrightarrow> exclusive p \<and> (\<forall>i. good (sp_heap p i))"

text \<open>What the tasks see agrees with objects of their own.\<close>

definition agrees :: "('a \<Rightarrow> bool) \<Rightarrow> ('a \<Rightarrow> 'v) \<Rightarrow> 'a SyncPool \<Rightarrow> (nat \<Rightarrow> 'a option) \<Rightarrow> bool" where
  "agrees good view p own \<longleftrightarrow> (\<forall>task. map_option view (held_object p task) = map_option view (own task)) \<and>
     (\<forall>task x. own task = Some x \<longrightarrow> good x)"

text \<open>An object that nobody has, while those held are as before.\<close>

definition spare :: "('a \<Rightarrow> bool) \<Rightarrow> 'a SyncPool \<Rightarrow> nat \<Rightarrow> 'a SyncPool \<Rightarrow> bool" where
  "spare good p i p' \<longleftrightarrow> pool_inv good p' \<and> i < sp_made p' \<and> i \<notin> sp_free p' \<and> sp_held p' = sp_held p \<and>
     (\<forall>task. sp_held p task \<noteq> Some i) \<and> held_object p' = held_object p"

lemma spare_make:
  assumes "pool_inv good p" "good x" "make_object x p = (i, p')"
  shows "spare good p i p' \<and> sp_heap p' i = x"
  using assms
  by (fastforce simp: make_object_def pool_inv_def exclusive_def spare_def held_object_def less_Suc_eq fun_eq_iff intro!: option.map_cong0)

lemma spare_free:
  assumes "pool_inv good p" "i \<in> sp_free p"
  shows "spare good p i (p\<lparr>sp_free := sp_free p - {i}\<rparr>)"
  using assms by (auto simp: pool_inv_def exclusive_def spare_def held_object_def)

lemma spare_trans:
  assumes "spare good p i p1" "spare good p1 j p2"
  shows "spare good p j p2"
  using assms by (simp add: spare_def)

lemma spare_update:
  assumes "spare good p i p'" "good x"
  shows "spare good p i (p'\<lparr>sp_heap := (sp_heap p')(i := x)\<rparr>)"
proof -
  have "held_object (p'\<lparr>sp_heap := (sp_heap p')(i := x)\<rparr>) task = held_object p' task" for task
  proof -
    have "sp_held p' task \<noteq> Some i" using assms(1) by (simp add: spare_def)
    then show ?thesis by (cases "sp_held p' task") (auto simp: held_object_def)
  qed
  with assms show ?thesis by (auto simp: spare_def pool_inv_def exclusive_def)
qed

lemma only_holder: "pool_inv good p \<Longrightarrow> sp_held p task = Some i \<Longrightarrow> sp_held p task' = Some i \<longleftrightarrow> task' = task"
  unfolding pool_inv_def exclusive_def by metis

lemma exclusive_put:
  assumes "exclusive p" "sp_held p task = Some i"
  shows "exclusive (p\<lparr>sp_heap := h, sp_free := insert i (sp_free p), sp_held := (sp_held p)(task := None)\<rparr>)"
proof -
  have "\<forall>task' j. sp_held p task' = Some j \<longrightarrow> j \<notin> sp_free p \<and> j < sp_made p" "\<forall>j \<in> sp_free p. j < sp_made p"
    and one: "\<forall>task' task'' j. sp_held p task' = Some j \<longrightarrow> sp_held p task'' = Some j \<longrightarrow> task' = task''"
    using assms(1) unfolding exclusive_def by blast+
  moreover from one assms(2) have "\<forall>task'. sp_held p task' = Some i \<longrightarrow> task' = task" by blast
  ultimately show ?thesis using assms(2) by (auto simp: exclusive_def)
qed

locale pool_contract =
  fixes k :: "('r, 'a) kind" and good :: "'a \<Rightarrow> bool" and view :: "'a \<Rightarrow> 'v"
  assumes good_new: "good (pk_new k)"
    and good_get: "good x \<Longrightarrow> pk_get k r x = Some y \<Longrightarrow> good y"
    and good_fresh: "good (pk_fresh k r)"
    and good_put: "good x \<Longrightarrow> good (pk_put k x)"
    and same_view: "good x \<Longrightarrow> good y \<Longrightarrow> view (prepared k r x) = view (prepared k r y)"
begin

lemma empty_inv: "pool_inv good (pool_empty k)" "agrees good view (pool_empty k) (\<lambda>_. None)"
  by (simp_all add: pool_inv_def exclusive_def pool_empty_def agrees_def held_object_def good_new)

lemma good_prepared: "good x \<Longrightarrow> good (prepared k r x)"
  by (auto simp: prepared_def good_fresh intro: good_get split: option.splits)

lemma take_spare:
  assumes "pool_inv good p" "pool_take k task choice r p = Some p'"
  obtains i p1 x where "spare good p i p1" "p' = p1\<lparr>sp_held := (sp_held p1)(task \<mapsto> i)\<rparr>" "sp_heap p1 i = prepared k r x" "good x"
proof -
  obtain i p1 where chosen: "(case choice of None \<Rightarrow> Some (make_object (pk_new k) p)
      | Some i \<Rightarrow> if i \<in> sp_free p then Some (i, p\<lparr>sp_free := sp_free p - {i}\<rparr>) else None) = Some (i, p1)"
    and p': "Some p' = (let (i, p) = (case pk_get k r (sp_heap p1 i) of
          Some x \<Rightarrow> (i, p1\<lparr>sp_heap := (sp_heap p1)(i := x)\<rparr>) | None \<Rightarrow> make_object (pk_fresh k r) p1)
        in Some (p\<lparr>sp_held := (sp_held p)(task \<mapsto> i)\<rparr>))"
    using assms(2) by (auto simp: pool_take_def Let_def split: Option.bind_splits)
  have spare: "spare good p i p1"
    using chosen spare_make [OF assms(1) good_new] spare_free [OF assms(1)]
    by (auto split: option.splits if_splits)
  then have inv: "pool_inv good p1" and good: "good (sp_heap p1 i)" by (simp_all add: spare_def pool_inv_def)
  show ?thesis
  proof (cases "pk_get k r (sp_heap p1 i)")
    case None
    obtain j p2 where j: "make_object (pk_fresh k r) p1 = (j, p2)" by fastforce
    from spare_make [OF inv good_fresh this] have "spare good p1 j p2" "sp_heap p2 j = pk_fresh k r" by simp_all
    with spare_trans [OF spare] that [of j p2 "sp_heap p1 i"] p' None j good show ?thesis by (simp add: prepared_def)
  next
    case (Some x)
    from spare_update [OF spare good_get [OF good Some]] that [of i _ "sp_heap p1 i"] p' Some good show ?thesis
      by (simp add: prepared_def)
  qed
qed

lemma take_inv:
  assumes "pool_inv good p" "agrees good view p own" "sp_held p task = None" "pool_take k task choice r p = Some p'"
  shows "pool_inv good p' \<and> agrees good view p' (own(task \<mapsto> prepared k r (pk_new k)))"
proof -
  obtain i p1 x where t: "spare good p i p1" "p' = p1\<lparr>sp_held := (sp_held p1)(task \<mapsto> i)\<rparr>" "sp_heap p1 i = prepared k r x" "good x"
    using assms(1,4) by (rule take_spare)
  have "pool_inv good p'" using t(1) by (auto simp: t(2) spare_def pool_inv_def exclusive_def)
  moreover have "held_object p' task' = (if task' = task then Some (prepared k r x) else held_object p task')" for task'
    using t(1,3) by (auto simp: t(2) held_object_def spare_def fun_eq_iff)
  then have "agrees good view p' (own(task \<mapsto> prepared k r (pk_new k)))"
    using assms(2) same_view [OF t(4) good_new] good_prepared [OF good_new] by (simp add: agrees_def)
  ultimately show ?thesis ..
qed

lemma pool_do_inv:
  assumes "pool_inv good p" "agrees good view p own" "honest good view c" "pool_do k c p = Some p'"
  shows "pool_inv good p' \<and> agrees good view p' (private_do k c own)"
proof (cases c)
  case (Take task choice r)
  with take_inv [OF assms(1,2)] assms(4) show ?thesis by (auto split: if_splits)
next
  case (Use task f)
  with assms(4) obtain i where i: "sp_held p task = Some i" "p' = p\<lparr>sp_heap := (sp_heap p)(i := f (sp_heap p i))\<rparr>"
    by (auto split: option.splits)
  have f: "good x \<Longrightarrow> good (f x)" "good x \<Longrightarrow> good y \<Longrightarrow> view x = view y \<Longrightarrow> view (f x) = view (f y)" for x y
  proof -
    have "(\<forall>x. good x \<longrightarrow> good (f x)) \<and> (\<forall>x y. good x \<longrightarrow> good y \<longrightarrow> view x = view y \<longrightarrow> view (f x) = view (f y))"
      using assms(3) by (simp only: Use honest_def pool_op.case)
    then show "good x \<Longrightarrow> good (f x)" "good x \<Longrightarrow> good y \<Longrightarrow> view x = view y \<Longrightarrow> view (f x) = view (f y)" by blast+
  qed
  have "pool_inv good p'" using assms(1) f(1) by (simp add: i(2) pool_inv_def)
  moreover have held: "held_object p' task' = (if task' = task then map_option f (held_object p task) else held_object p task')" for task'
    using only_holder [OF assms(1) i(1), of task'] i
    by (cases "sp_held p task'"; cases "task' = task") (auto simp: held_object_def)
  have "agrees good view p' (private_do k c own)"
  proof -
    have task: "map_option view (own task) = Some (view (sp_heap p i))"
    proof -
      have "map_option view (held_object p task) = map_option view (own task)" using assms(2) by (simp add: agrees_def)
      then show ?thesis by (simp add: held_object_def i(1))
    qed
    then obtain y where y: "own task = Some y" "view y = view (sp_heap p i)" by auto
    then have "good y" using assms(2) by (auto simp: agrees_def)
    moreover have "good (sp_heap p i)" using assms(1) by (simp add: pool_inv_def)
    ultimately have "view (f (sp_heap p i)) = view (f y)" by (rule f(2) [OF _ _ y(2) [symmetric], rotated])
    then have "map_option view (map_option f (held_object p task)) = map_option view (map_option f (own task))"
      by (simp add: held_object_def y(1) i(1))
    then show ?thesis using assms(2) f(1) by (auto simp: agrees_def held Use)
  qed
  ultimately show ?thesis ..
next
  case (Put_Back task)
  with assms(4) obtain i where i: "sp_held p task = Some i"
    "p' = p\<lparr>sp_heap := (sp_heap p)(i := pk_put k (sp_heap p i)), sp_free := insert i (sp_free p), sp_held := (sp_held p)(task := None)\<rparr>"
    by (auto split: option.splits)
  have "pool_inv good p'" using assms(1) exclusive_put [of p, OF _ i(1)] good_put by (simp add: pool_inv_def i(2))
  moreover have "held_object p' task' = (if task' = task then None else held_object p task')" for task'
    using only_holder [OF assms(1) i(1), of task'] i
    by (cases "sp_held p task'"; cases "task' = task") (auto simp: held_object_def)
  then have "agrees good view p' (private_do k c own)" using assms(2) by (simp add: agrees_def Put_Back)
  ultimately show ?thesis ..
next
  case (Drop i)
  with assms(1,2,4) show ?thesis by (auto simp: pool_inv_def exclusive_def agrees_def held_object_def)
qed

lemma pool_run_inv:
  assumes "pool_inv good p" "agrees good view p own" "list_all (honest good view) ops" "pool_run k ops p = Some p'"
  shows "pool_inv good p' \<and> agrees good view p' (fold (private_do k) ops own)"
  using assms
proof (induction ops arbitrary: p own)
  case Nil
  then show ?case by (simp add: pool_run_def)
next
  case (Cons c ops)
  then obtain p1 where p1: "pool_do k c p = Some p1" "pool_run k ops p1 = Some p'"
    by (auto simp: pool_run_def split: Option.bind_splits)
  with pool_do_inv [OF Cons.prems(1,2) _ this(1)] Cons.prems(3)
  have "pool_inv good p1" "agrees good view p1 (private_do k c own)" by simp_all
  from Cons.IH [OF this _ p1(2)] Cons.prems(3) show ?case by simp
qed

lemma pool_private:
  assumes "list_all (honest good view) ops" "pool_run k ops (pool_empty k) = Some p"
  shows "exclusive p \<and> (\<forall>task. map_option view (held_object p task) = map_option view (private_run k ops task))"
  using pool_run_inv [OF empty_inv assms] by (simp add: pool_inv_def agrees_def private_run_def)

end

section \<open>The four pools\<close>

text \<open>A slice of bytes: its array, as long as the capacity, and the length of the slice.\<close>

type_synonym slice = "bytes \<times> nat"

definition slice_bytes :: "slice \<Rightarrow> bytes" where
  "slice_bytes s = take (snd s) (fst s)"

text \<open>\<open>clear\<close> sets the bytes of the slice, not those behind it in the array.\<close>

definition clear_slice :: "slice \<Rightarrow> slice" where
  "clear_slice s = (replicate (min (snd s) (length (fst s))) 0 @ drop (snd s) (fst s), snd s)"

definition slice_ok :: "slice \<Rightarrow> bool" where
  "slice_ok s \<longleftrightarrow> snd s \<le> length (fst s)"

definition readBufferPool :: "(nat, slice) kind" where
  "readBufferPool = \<lparr>pk_new = (replicate (IOV_MAX * 8) 0, IOV_MAX * 8),
     pk_get = \<lambda>needed buf. if length (fst buf) < needed then None else Some (clear_slice (fst buf, needed)),
     pk_fresh = \<lambda>needed. (replicate needed 0, needed),
     pk_put = \<lambda>buf. buf\<rparr>"

definition regionReaderPool :: "(int \<times> u64 \<times> u64, RegionReader) kind" where
  "regionReaderPool = \<lparr>pk_new = \<lparr>rr_start = 0, rr_end = 0, rr_size = 0, rr_off = 0, rr_pid = 0\<rparr>,
     pk_get = \<lambda>(pid, start, end') r. Some (getRegionReader pid start end' r),
     pk_fresh = \<lambda>_. \<lparr>rr_start = 0, rr_end = 0, rr_size = 0, rr_off = 0, rr_pid = 0\<rparr>,
     pk_put = freeRegionReader\<rparr>"

text \<open>Vectors of ranges, local (into a buffer) and remote, are given as they are.\<close>

definition localIovecPool :: "(unit, iovec list) kind" where
  "localIovecPool = \<lparr>pk_new = replicate IOV_MAX (0, 0), pk_get = \<lambda>_ s. Some s, pk_fresh = \<lambda>_. replicate IOV_MAX (0, 0), pk_put = \<lambda>s. s\<rparr>"

definition remoteIovecPool :: "(unit, iovec list) kind" where
  "remoteIovecPool = \<lparr>pk_new = replicate IOV_MAX (0, 0), pk_get = \<lambda>_ s. Some s, pk_fresh = \<lambda>_. replicate IOV_MAX (0, 0), pk_put = \<lambda>s. s\<rparr>"

text \<open>What a task sees of a buffer it takes is what the other theories let a pool give.\<close>

lemma slice_bytes_clear: "n \<le> length b \<Longrightarrow> slice_bytes (clear_slice (b, n)) = replicate n 0"
  by (simp add: slice_bytes_def clear_slice_def min_def)

lemma readBuffer_prepared: "slice_bytes (prepared readBufferPool needed buf) = getReadBuffer (fst buf) needed"
  by (simp add: prepared_def readBufferPool_def slice_bytes_clear getReadBuffer_clear) (simp add: slice_bytes_def)

lemma regionReader_prepared: "prepared regionReaderPool (pid, start, end') r = getRegionReader pid start end' r"
  by (simp add: prepared_def regionReaderPool_def)

interpretation read_buffers: pool_contract readBufferPool slice_ok slice_bytes
  by unfold_locales
    (auto simp: readBuffer_prepared getReadBuffer_clear, auto simp: readBufferPool_def slice_ok_def clear_slice_def split: if_splits)

interpretation region_readers: pool_contract regionReaderPool "\<lambda>_. True" id
  by unfold_locales (auto simp: regionReader_prepared getRegionReader_def)

text \<open>A vector has its full length, whatever is in it: its user sets every range before a call reads it.\<close>

interpretation local_iovecs: pool_contract localIovecPool "\<lambda>s. length s = IOV_MAX" length
  by unfold_locales (auto simp: localIovecPool_def prepared_def)

interpretation remote_iovecs: pool_contract remoteIovecPool "\<lambda>s. length s = IOV_MAX" length
  by unfold_locales (auto simp: remoteIovecPool_def prepared_def)

text \<open>
  C13: in whatever order tasks take read buffers and region readers from their pools, use them and put them back, and
  whichever objects the pools give, no object is held by two tasks or by a task and the pool, and each task sees
  in the buffer it holds, and in the reader, what it would in one newly made for it: no byte of another task or of an earlier one.
\<close>

theorem pools_private:
  assumes "pool_run readBufferPool ops (pool_empty readBufferPool) = Some buffers" "list_all (honest slice_ok slice_bytes) ops"
    and "pool_run regionReaderPool ops' (pool_empty regionReaderPool) = Some readers"
  shows "exclusive buffers \<and>
    (\<forall>task. map_option slice_bytes (held_object buffers task) = map_option slice_bytes (private_run readBufferPool ops task)) \<and>
    exclusive readers \<and> (\<forall>task. held_object readers task = private_run regionReaderPool ops' task)"
proof -
  have "list_all (honest (\<lambda>_. True) id) ops'" by (auto simp: list_all_iff honest_def split: pool_op.splits)
  from region_readers.pool_private [OF this assms(3)] read_buffers.pool_private [OF assms(2,1)]
  show ?thesis by (simp add: option.map_id)
qed

text \<open>The example: one task fills a buffer and puts it back, and another is given the same one.\<close>

definition sample_pool_ops :: "(nat, slice) pool_op list" where
  "sample_pool_ops = [Take 1 None 4, Use 1 (\<lambda>s. ([1, 2, 3, 4] @ drop 4 (fst s), snd s)), Put_Back 1, Take 2 (Some 0) 8]"

theorem pools_private_witness:
  "\<exists>buffers. pool_run readBufferPool sample_pool_ops (pool_empty readBufferPool) = Some buffers \<and> exclusive buffers \<and>
     map_option slice_bytes (held_object buffers 2) = Some (replicate 8 0)"
proof -
  obtain buffers where run: "pool_run readBufferPool sample_pool_ops (pool_empty readBufferPool) = Some buffers"
    by (simp add: sample_pool_ops_def pool_run_def pool_take_def make_object_def pool_empty_def readBufferPool_def clear_slice_def
        IOV_MAX_def Let_def)
  have "slice_bytes (xs @ drop (length xs) b, n) = take n xs @ drop (length xs) (slice_bytes (b, n))" for xs b n
    by (simp add: slice_bytes_def drop_take)
  moreover have "length [1, 2, 3, 4 :: u8] = 4" by simp
  ultimately have "slice_bytes ([1, 2, 3, 4] @ drop 4 b, n) = take n [1, 2, 3, 4] @ drop 4 (slice_bytes (b, n))" for b n by metis
  moreover have "n = length (slice_bytes (b, n))" if "slice_ok (b, n)" for b n
    using that by (simp add: slice_bytes_def slice_ok_def)
  ultimately have "list_all (honest slice_ok slice_bytes) sample_pool_ops"
    by (auto simp: sample_pool_ops_def honest_def slice_ok_def simp del: append_Cons) (metis prod.collapse)
  from pools_private [OF run this, of "[]"] have "exclusive buffers"
    "map_option slice_bytes (held_object buffers 2) = map_option slice_bytes (private_run readBufferPool sample_pool_ops 2)"
    by (simp_all add: pool_run_def)
  with run show ?thesis
    by (auto simp: sample_pool_ops_def private_run_def readBuffer_prepared getReadBuffer_clear)
qed

end
