(* ===== verification/Text_Output.thy ===== *)
theory Text_Output
  imports Signals Process
begin

text \<open>
  What the program only prints or asks: the table of processes (\<^verbatim>\<open>cmd/memscan-cli/display.go\<close>), a region as a
  line (\<^verbatim>\<open>region.go\<close>), the casts of \<^verbatim>\<open>utils/utils.go\<close>, and the small questions to and about a process
  (\<^verbatim>\<open>deck/process.go\<close>, \<^verbatim>\<open>deck/sys.go\<close>). Quoting (\<^verbatim>\<open>%q\<close>) and the colours of the terminal are arguments.
\<close>

section \<open>Strings and byte slices\<close>

text \<open>The casts share the memory, which is not written while both are in use; as values they are inverse to each other.\<close>

definition BytesToString :: "bytes \<Rightarrow> string" where
  "BytesToString b = (if length b = 0 then [] else map (\<lambda>x. char_of (unat x)) b)"

definition StringToBytes :: "string \<Rightarrow> bytes" where
  "StringToBytes s = (if s = [] then [] else map of_char s)"

lemma cast_inverse: "BytesToString (StringToBytes s) = s" "StringToBytes (BytesToString b) = b"
proof -
  have "char_of (unat (of_char c :: u8)) = c" for c
  proof -
    have "(of_char c :: u8) = of_nat (of_char c)" by (simp only: of_nat_of_char)
    then have "unat (of_char c :: u8) = of_char c" using nat_of_char_less_256 [of c] by (simp add: unsigned_of_nat take_bit_eq_mod)
    then show ?thesis by simp
  qed
  moreover have "of_char (char_of (unat x)) = x" for x :: u8
  proof -
    have "(of_char (char_of (unat x)) :: u8) = of_nat (of_char (char_of (unat x)))" by (simp only: of_nat_of_char)
    also have "\<dots> = of_nat (unat x mod 256)" by (simp only: of_char_of)
    also have "unat x mod 256 = unat x"
    proof -
      have "unat x < 2 ^ LENGTH(8)" by (rule unsigned_less)
      then show ?thesis by simp
    qed
    finally show ?thesis by simp
  qed
  ultimately show "BytesToString (StringToBytes s) = s" "StringToBytes (BytesToString b) = b"
    by (simp_all add: BytesToString_def StringToBytes_def comp_def)
qed

section \<open>Widths\<close>

text \<open>A width counts runes: the bytes of a string, less those that continue a valid sequence of UTF-8.\<close>

definition continues :: "nat \<Rightarrow> nat \<Rightarrow> string \<Rightarrow> nat \<Rightarrow> bool" where
  "continues lo hi s i \<longleftrightarrow> i < length s \<and> lo \<le> (of_char (s ! i) :: nat) \<and> (of_char (s ! i) :: nat) \<le> hi"

definition rune_rest :: "char \<Rightarrow> string \<Rightarrow> nat" where
  "rune_rest c s =
     (let b = of_char c :: nat;
          lo = (if b = 0xE0 then 0xA0 else if b = 0xF0 then 0x90 else 0x80);
          hi = (if b = 0xED then 0x9F else if b = 0xF4 then 0x8F else 0xBF);
          n = (if 0xC2 \<le> b \<and> b \<le> 0xDF then 1 else if 0xE0 \<le> b \<and> b \<le> 0xEF then 2 else if 0xF0 \<le> b \<and> b \<le> 0xF4 then 3 else 0) in
      if n \<noteq> 0 \<and> continues lo hi s 0 \<and> list_all (continues 0x80 0xBF s) [1..<n] then n else 0)"

fun rune_count :: "string \<Rightarrow> nat" where
  "rune_count [] = 0"
| "rune_count (c # s) = Suc (rune_count (drop (rune_rest c s) s))"

definition pad_left :: "nat \<Rightarrow> string \<Rightarrow> string" where
  "pad_left w s = replicate (w - rune_count s) (CHR '' '') @ s"

definition pad_right :: "nat \<Rightarrow> string \<Rightarrow> string" where
  "pad_right w s = s @ replicate (w - rune_count s) (CHR '' '')"

lemma rune_count_le: "rune_count s \<le> length s"
proof (induction s rule: rune_count.induct)
  case (2 c s)
  then show ?case by (auto intro: order_trans)
qed simp

lemma rune_rest_le: "rune_rest c s \<le> length s"
  by (auto simp: rune_rest_def Let_def continues_def upt_rec Suc_le_eq)

text \<open>A blank behind a string continues nothing in it.\<close>

lemma rune_rest_blanks: "rune_rest c (s @ replicate n (CHR '' '')) = rune_rest c s"
proof -
  have "continues lo hi (s @ replicate n (CHR '' '')) i \<longleftrightarrow> continues lo hi s i" if "33 \<le> lo" for lo hi i
    using that by (auto simp: continues_def nth_append split: if_splits)
  then show ?thesis by (simp add: rune_rest_def Let_def list_all_iff)
qed

lemma rune_count_blanks: "rune_count (s @ replicate n (CHR '' '')) = rune_count s + n"
proof (induction s rule: rune_count.induct)
  case 1
  have "rune_rest (CHR '' '') s = 0" for s by (simp add: rune_rest_def Let_def)
  then have "rune_count (replicate n (CHR '' '')) = n" by (induction n) simp_all
  then show ?case by simp
next
  case (2 c s)
  then show ?case using rune_rest_le [of c s] by (simp add: rune_rest_blanks)
qed

lemma rune_count_pad_right: "rune_count (pad_right w s) = max w (rune_count s)"
  by (simp add: pad_right_def rune_count_blanks)

lemma rune_count_ascii: "(\<And>c. c \<in> set s \<Longrightarrow> (of_char c :: nat) < 128) \<Longrightarrow> rune_count s = length s"
proof (induction s)
  case (Cons c s)
  have "(of_char c :: nat) < 128" by (rule Cons.prems) simp
  then have "rune_rest c s = 0" by (simp add: rune_rest_def Let_def)
  with Cons show ?case by simp
qed simp

lemma length_pad_left: "(\<And>c. c \<in> set s \<Longrightarrow> (of_char c :: nat) < 128) \<Longrightarrow> length (pad_left w s) = max w (length s)"
  by (simp add: pad_left_def rune_count_ascii)

section \<open>A region as a line\<close>

definition Region_String :: "(string \<Rightarrow> string) \<Rightarrow> Region \<Rightarrow> string" where
  "Region_String quote r =
     show_addr (Start r) @ ''-'' @ show_addr (End r) @ '' '' @ pad_left 10 (digits 10 (unat (Size r))) @ '' '' @
     Permissions_String (Perm r) @ '' '' @ pad_right 5 (RegionType_String (Type r)) @ '' '' @ show_addr (BaseAddr r) @ '' '' @ quote (Filename r)"

section \<open>The table of processes\<close>

record Padding =
  paddingPID :: nat
  paddingPPID :: nat
  paddingPGRP :: nat
  paddingComm :: nat

definition widen :: "Process \<Rightarrow> Padding \<Rightarrow> Padding" where
  "widen p w =
     \<lparr>paddingPID = (if paddingPID w < length (show_int (p_PID p)) then length (show_int (p_PID p)) else paddingPID w),
      paddingPPID = (if paddingPPID w < length (show_int (p_PPID p)) then length (show_int (p_PPID p)) else paddingPPID w),
      paddingPGRP = (if paddingPGRP w < length (show_int (p_PGRP p)) then length (show_int (p_PGRP p)) else paddingPGRP w),
      paddingComm = (if paddingComm w < length (p_Comm p) then length (p_Comm p) else paddingComm w)\<rparr>"

definition process_padding :: "Process list \<Rightarrow> Padding" where
  "process_padding processes = fold widen processes \<lparr>paddingPID = 0, paddingPPID = 0, paddingPGRP = 0, paddingComm = 0\<rparr>"

text \<open>The colours of the columns, and quoting.\<close>

record Painter =
  cyan :: "string \<Rightarrow> string"
  yellow :: "string \<Rightarrow> string"
  green :: "string \<Rightarrow> string"
  quote :: "string \<Rightarrow> string"

definition process_row :: "Painter \<Rightarrow> Padding \<Rightarrow> Process \<Rightarrow> string" where
  "process_row paint w p =
     cyan paint (pad_left (paddingPID w) (show_int (p_PID p))) @ '' '' @ pad_left (paddingPPID w) (show_int (p_PPID p)) @ '' '' @
     pad_left (paddingPGRP w) (show_int (p_PGRP p)) @ '' '' @ yellow paint (ProcessState_String (p_State p)) @ '' '' @
     green paint (pad_right (paddingComm w) (p_Comm p)) @ '' '' @ quote paint (p_Command p)"

definition displayProcesses :: "Painter \<Rightarrow> Process list \<Rightarrow> string" where
  "displayProcesses paint processes =
     concat (map (\<lambda>p. process_row paint (process_padding processes) p @ [CHR 0x0A]) processes)"

lemma widen_le: "paddingPID w \<le> paddingPID (fold widen ps w) \<and> paddingPPID w \<le> paddingPPID (fold widen ps w) \<and>
    paddingPGRP w \<le> paddingPGRP (fold widen ps w) \<and> paddingComm w \<le> paddingComm (fold widen ps w)"
proof (induction ps arbitrary: w)
  case (Cons p ps)
  from Cons [of "widen p w"] show ?case by (auto simp: widen_def)
qed simp

lemma widen_covers:
  "p \<in> set ps \<Longrightarrow> length (show_int (p_PID p)) \<le> paddingPID (fold widen ps w) \<and>
    length (show_int (p_PPID p)) \<le> paddingPPID (fold widen ps w) \<and>
    length (show_int (p_PGRP p)) \<le> paddingPGRP (fold widen ps w) \<and> length (p_Comm p) \<le> paddingComm (fold widen ps w)"
proof (induction ps arbitrary: w)
  case (Cons q ps)
  show ?case
  proof (cases "p = q")
    case True
    have "length (show_int (p_PID q)) \<le> paddingPID (widen q w)" "length (show_int (p_PPID q)) \<le> paddingPPID (widen q w)"
      "length (show_int (p_PGRP q)) \<le> paddingPGRP (widen q w)" "length (p_Comm q) \<le> paddingComm (widen q w)"
      by (simp_all add: widen_def)
    with widen_le [of "widen q w" ps] True show ?thesis by simp
  next
    case False
    with Cons show ?thesis by simp
  qed
qed simp

lemma show_int_ascii: "c \<in> set (show_int i) \<Longrightarrow> (of_char c :: nat) < 128"
  using set_show_int [of i] by auto

text \<open>The columns of the table are aligned: in every row each has the same width, the names in runes.\<close>

lemma displayProcesses_columns:
  assumes "p \<in> set processes" "w = process_padding processes"
  shows "length (pad_left (paddingPID w) (show_int (p_PID p))) = paddingPID w"
    "length (pad_left (paddingPPID w) (show_int (p_PPID p))) = paddingPPID w"
    "length (pad_left (paddingPGRP w) (show_int (p_PGRP p))) = paddingPGRP w"
    "rune_count (pad_right (paddingComm w) (p_Comm p)) = paddingComm w"
proof -
  from widen_covers [OF assms(1), of "\<lparr>paddingPID = 0, paddingPPID = 0, paddingPGRP = 0, paddingComm = 0\<rparr>"]
  have "length (show_int (p_PID p)) \<le> paddingPID w" "length (show_int (p_PPID p)) \<le> paddingPPID w"
    "length (show_int (p_PGRP p)) \<le> paddingPGRP w" "length (p_Comm p) \<le> paddingComm w"
    by (simp_all add: assms(2) process_padding_def)
  then show "length (pad_left (paddingPID w) (show_int (p_PID p))) = paddingPID w"
    "length (pad_left (paddingPPID w) (show_int (p_PPID p))) = paddingPPID w"
    "length (pad_left (paddingPGRP w) (show_int (p_PGRP p))) = paddingPGRP w"
    "rune_count (pad_right (paddingComm w) (p_Comm p)) = paddingComm w"
    using rune_count_le [of "p_Comm p"] by (simp_all add: length_pad_left show_int_ascii rune_count_pad_right)
qed

section \<open>Questions about a process\<close>

text \<open>Signal 0 is only checked; a process that may not be signalled counts as absent.\<close>

definition ProcessExists :: "(int \<Rightarrow> nat \<Rightarrow> errno option) \<Rightarrow> int \<Rightarrow> bool" where
  "ProcessExists kill pid \<longleftrightarrow> kill pid 0 = None"

definition Process_Alive :: "(int \<Rightarrow> nat \<Rightarrow> errno option) \<Rightarrow> Process \<Rightarrow> bool" where
  "Process_Alive kill proc = ProcessExists kill (p_PID proc)"

definition Process_Pause :: "Process \<Rightarrow> int \<times> signal" where
  "Process_Pause proc = ProcessPause (p_PID proc)"

definition Process_Resume :: "Process \<Rightarrow> int \<times> signal" where
  "Process_Resume proc = ProcessResume (p_PID proc)"

definition hasEnvVariable :: "(int \<Rightarrow> bytes option) \<Rightarrow> Process \<Rightarrow> string \<Rightarrow> bool" where
  "hasEnvVariable environ proc name =
     (case environ (p_PID proc) of None \<Rightarrow> False | Some data \<Rightarrow> Contains (BytesToString data) name)"

end
