(* ===== verification/Spec2Isabelle.thy ===== *)
theory Spec2Isabelle
  imports Permissions Region Regions Maps Virtual_Region Mmap Value Rounded_Float Region_Reader Scanner Scan_Float Scan_Collector
    Vector_IO Byte_Values Write_Values Tasks Task_Pool Memscan Memscan_Spec Scan_Session Scan_Results Results_View
    Process Deck Backend Console Command_Line Value_Life Semaphore_Pool Signals Plugin_Session Plugin_Machine C_Interface Scan_Safety Next_Safety
    Float_Generators Buffer_Pools Text_Output
begin

text \<open>
  A verification development for \<^verbatim>\<open>memscan\<close>, a memory scanner for the Steam Deck written in Go: it finds the
  addresses at which another process holds a value, narrows them down as the value changes, and writes to them.

  \<^bold>\<open>The program.\<close> A scan reads \<^verbatim>\<open>/proc/pid/maps\<close> (\<^verbatim>\<open>maps.go\<close>, \<^verbatim>\<open>region.go\<close>,
  \<^verbatim>\<open>permissions.go\<close>), keeps the mappings worth searching, and cuts and merges them into regions of at most 2 MiB
  (\<^verbatim>\<open>regions.go\<close>). The first scan (\<^verbatim>\<open>memscan_first_scan.go\<close>) stops the process and starts one task
  per region behind a semaphore. A task reads its region with \<^verbatim>\<open>process_vm_readv\<close> (\<^verbatim>\<open>region_reader.go\<close>) and hands the bytes
  to a scanner (\<^verbatim>\<open>scanner/\<close>), which searches a byte pattern or, for floats with an option, an interval; what it
  finds goes in batches to an off-heap array (\<^verbatim>\<open>mmap.go\<close>), and the arrays of all tasks are merged. A next scan
  (\<^verbatim>\<open>memscan_next_scan.go\<close>) filters the results: densely, reading the virtual regions that enclose many results
  (\<^verbatim>\<open>virtual_region.go\<close>), or sparsely, reading one value per address (\<^verbatim>\<open>memscan.go\<close>). The games are found among the
  processes by \<^verbatim>\<open>deck/\<close>. Three programs use the engine: the library of a plugin (\<^verbatim>\<open>cmd/backend\<close>, called from C), a terminal
  program, and a developer test (\<^verbatim>\<open>cmd/memscan-cli\<close>).

  \<^bold>\<open>How it is modelled.\<close> A call that may panic or never return has a result of type \<open>'a go\<close>, an option, so that
  every index out of range, slice with bad bounds and nil dereference of the code is the value \<open>None\<close>, and a
  theorem that gives \<open>Some\<close> says that the call returns. Integers have their width where it matters (\<open>u8\<close>,
  \<open>u64\<close>); \<^verbatim>\<open>int\<close> is unbounded where no sum comes near 2^63, which the bounds of the theorems
  ensure. Records and fields carry the names of the code's structs; methods are functions named after them, with the
  type in front where two types share a name. A loop that need not end (a reader that makes no progress, a write that
  moves backwards) is a \<open>partial_function (option)\<close>, so that not ending is \<open>None\<close> too; there is no fuel.
  Loops with a bound are recursions over it, with a termination proof by measure where they are not structural.

  \<^bold>\<open>The theories\<close>, from the bottom up:
  \<^item> \<open>Prelude\<close>: the option monad with loops over lists, machine types, page arithmetic, address ranges.
  \<^item> \<open>GoStdlib\<close>: what is used of \<^verbatim>\<open>bytes\<close>, \<^verbatim>\<open>strings\<close>, \<^verbatim>\<open>strconv\<close>, \<^verbatim>\<open>sort\<close> and \<^verbatim>\<open>bufio.Scanner\<close>;
    \<open>Go_Float\<close>: \<^verbatim>\<open>float32\<close> and \<^verbatim>\<open>float64\<close> bit by bit, with addition, comparison and decimal parsing that round to nearest even.
  \<^item> \<open>Permissions\<close>, \<open>Region\<close>, \<open>Regions\<close>, \<open>Maps\<close>: parsing a line (and printing one as the kernel does: round trip),
    which mappings \<open>Maps_Parse\<close> keeps, and that \<open>RegionsOptimize\<close> covers the same addresses in pieces of bounded size.
  \<^item> \<open>Mmap\<close>: the result array and its abstract contents; every operation on well-formed arrays, growing, and the trap
    of an array filled past its capacity. The locale \<open>append_buffer\<close> is what the collecting of addresses in batches
    needs of a buffer, interpreted on the array.
  \<^item> \<open>Virtual_Region\<close>: grouping an ascending list into regions, and the cursor \<open>Match\<close> moves through one; the locale
    \<open>sorted_search\<close> (in \<open>GoStdlib\<close>) is the binary search it relies on.
  \<^item> \<open>Value\<close>, \<open>Rounded_Float\<close>, \<open>Value_Life\<close>: values, their parsing and printing, the intervals of the rounded,
    extreme and truncated searches, and that no value a program can make lets a reading operation panic. The locale
    \<open>value_comparable\<close> is the interface \<^verbatim>\<open>ValueComparable\<close>, interpreted on its implementations.
  \<^item> \<open>Region_Reader\<close>: \<^verbatim>\<open>Read\<close>, \<^verbatim>\<open>Seek\<close> and \<^verbatim>\<open>io.ReadFull\<close>; the locales \<open>byte_reader\<close>, \<open>seek_reader\<close> and \<open>full_reader\<close> are what
    the scanners need of a reader, interpreted on the reader of a region over any memory and over readable memory.
  \<^item> \<open>Scanner\<close>, \<open>Scan_Float\<close>, \<open>Scan_Collector\<close>: the chunked search with the tail carried over and pages skipped, the
    unrolled (vectorised) and plain float searches, and the dispatch between them. Over readable memory exactly the
    matches are reported, whatever the buffer; over any memory the scan returns and every report is a match.
    \<open>Float_Generators\<close>: the templates the float scanners are written from, and that they give the files of the repository.
  \<^item> \<open>Vector_IO\<close>, \<open>Byte_Values\<close>, \<open>Write_Values\<close>: reading and writing one value per address in blocks of 1024, for
    values of two bytes and more, and what goes wrong for values of one byte.
  \<^item> \<open>Tasks\<close>, \<open>Task_Pool\<close>, \<open>Semaphore_Pool\<close>: the three kinds of task; that running them in any order leaves the same
    buffers; the loop that starts them beside those running, which always ends with no more than the permitted number at once.
  \<^item> \<open>Buffer_Pools\<close>: the pools of buffers and readers the tasks share. The locale \<open>pool_contract\<close> says when it does not
    show which object a task was given, and is interpreted on all four pools; it justifies that elsewhere a pooled buffer
    has arbitrary contents.
  \<^item> \<open>Memscan\<close>, \<open>Signals\<close>: the engine's state and operations; a first scan with the log of its signals and stages, in which a
    panic of its own runs the deferred \<^verbatim>\<open>Resume\<close> and one in a task ends the program.
  \<^item> \<open>Memscan_Spec\<close>, \<open>Scan_Session\<close>, \<open>Scan_Results\<close>, \<open>Results_View\<close>, \<open>Scan_Safety\<close>, \<open>Next_Safety\<close>: the abstract session (addresses found and
    found before, rounds, undoable), which the operations of the engine refine; what whole sessions find; showing and
    changing results; and what is left of a session when pages vanish, mappings are refused or scans are cancelled.
  \<^item> \<open>Process\<close>, \<open>Deck\<close>: the files of a process and its score; the search for the processes of a game.
  \<^item> \<open>Backend\<close>, \<open>Plugin_Session\<close>, \<open>Plugin_Machine\<close>, \<open>C_Interface\<close>: the library of the plugin, its answers end to end from
    the text typed, whole sessions of its calls as a refinement of an abstract machine while memory changes, and its exported
    functions with the invariant every C caller can rely on.
  \<^item> \<open>Console\<close>, \<open>Command_Line\<close>, \<open>Text_Output\<close>: the terminal program as a machine of steps; the flags and the developer
    test; the table of processes, whose columns are aligned, and the other operations that only print or ask.

  \<^bold>\<open>What lies outside.\<close> The system calls are functions the definitions take. \<open>reads_memory\<close> and \<open>writes_memory\<close>
  state what their manual pages say: a call transfers the leading ranges that are accessible as a whole, perhaps a part of the
  next (which Linux does), never a byte past an inaccessible one; the bytes are those in memory; and it fails with -1 when nothing is transferred. Which mappings the kernel grants, which
  tasks the semaphore admits, when a task sees the context cancelled (so that \<^verbatim>\<open>Cancel\<close> from another goroutine can come at
  any moment), which processes live and what their files hold are the fields of \<open>World\<close>, \<open>System\<close>, \<open>Host\<close>, \<open>Terminal\<close> and \<open>C_Env\<close>;
  \<open>calm\<close> says that nothing goes wrong there, and only the theorems that name it assume so. Sorting is a
  parameter with the law \<open>sorts\<close> or \<open>sorts_less\<close>; the printing of floats is a parameter without a law. Every such hypothesis has an
  instance in the witness of the theorem (\<open>sim_readv\<close>, \<open>sample_world\<close>, \<open>insertion_sort\<close> and others).

  \<^bold>\<open>Bounds.\<close> Result arrays stay below 2^57 entries, more than the addresses of a process; buffers and regions below 2^58 bytes or more,
  so that no sum of lengths wraps. Scans of values of less than eight bytes are claimed only
  while no region has more matches than its buffer has room for, since otherwise the code panics, which is proved too.

  \<^bold>\<open>What modelling showed.\<close> The first scan panics when a region overflows its task's buffer, and on an empty byte string, which
  leaves the process stopped; reading and writing values of one byte goes wrong at inaccessible addresses (panic, or no end);
  the count of a read is one too low where it fails, so that a byte is lost to the search; rows of byte strings are blank; the rounded searches lose large 32-bit targets;
  a game is found by a prefix of its number; a next scan with an unreadable text ends the session. Each has its lemma.

  \<^bold>\<open>Not modelled.\<close> The duration of scans and its text in the answers; the drawing of prompts; closing files; the
  parsing of flags, the quoting of \<^verbatim>\<open>%q\<close>, the colours of the terminal and the JSON encoder, which are
  libraries and parameters; the number of the own process and whether a process exists, which are answers of the system; and
  \<^verbatim>\<open>isIntegerFloatWithOption\<close>, which nothing calls and whose conversions Go leaves to the machine.
\<close>

end
